(* ===== verification/Prelude.thy ===== *)
theory Prelude
  imports Main "HOL-Library.Word"
begin

text \<open>
  What every component shares: the machine types (\<open>size_t\<close> is 64 bits wide), undefined
  behaviour as a value, the sequencing of computations that can fail with it, the
  masking arithmetic of power-of-two buffers, and reachability with invariants.
\<close>

unbundle bit_operations_syntax

named_theorems ring_simps \<open>arithmetic of power-of-two ring indices\<close>

section \<open>Undefined behaviour as a value\<close>

text \<open>
  What the C++ standard leaves undefined (or what loses an object without running its
  destructor) is a branch of the model: a computation returns \<^theory_text>\<open>Inl\<close> with
  the fault, or \<^theory_text>\<open>Inr\<close> with its result.
\<close>

datatype fault =
    RawRead          \<comment> \<open>an object is read or destroyed where none is alive\<close>
  | LiveOverwrite    \<comment> \<open>an object is built over one whose destructor has not run\<close>
  | OutOfBounds      \<comment> \<open>an access outside an array or an allocation\<close>
  | SignedOverflow   \<comment> \<open>a signed addition or subtraction leaves its type\<close>
  | ShiftOverflow    \<comment> \<open>a shift by the width of the type or more\<close>
  | DataRace         \<comment> \<open>two threads access an object, one writes, neither access is ordered\<close>

type_synonym size_t = "64 word"

definition res_bind :: "fault + 'a \<Rightarrow> ('a \<Rightarrow> fault + 'b) \<Rightarrow> fault + 'b" where
  "res_bind m f = (case m of Inl e \<Rightarrow> Inl e | Inr x \<Rightarrow> f x)"

lemma res_bind_simps [simp]:
  "res_bind (Inl e) f = Inl e"
  "res_bind (Inr x) f = f x"
  by (simp_all add: res_bind_def)

lemma res_bind_InrE:
  assumes "res_bind m f = Inr y"
  obtains x where "m = Inr x" and "f x = Inr y"
  using assms by (cases m) auto

lemma res_bind_assoc: "res_bind (res_bind m f) g = res_bind m (\<lambda>x. res_bind (f x) g)"
  by (cases m) simp_all

section \<open>Power-of-two sizes\<close>

text \<open>
  Both queues check \<open>(_size & (_size - 1)) == 0\<close> at compile time. The pools round
  their size up to a power of two.
\<close>

definition pow2_size :: "size_t \<Rightarrow> bool" where
  "pow2_size sz \<longleftrightarrow> (\<exists>k<64. sz = 2 ^ k)"

lemma unat_pow2: "k < 64 \<Longrightarrow> unat ((2::size_t) ^ k) = 2 ^ k"
proof -
  assume "k < 64"
  then have "(2::nat) ^ k < 2 ^ 64" by (rule power_strict_increasing) simp
  moreover have "(2::size_t) ^ k = of_nat (2 ^ k)" by simp
  ultimately show ?thesis by (simp only: unat_of_nat len_of_numeral_defs mod_less) simp
qed

lemma pow2_sizeE:
  assumes "pow2_size sz"
  obtains k where "k < 64" and "sz = 2 ^ k" and "unat sz = 2 ^ k"
  using assms unat_pow2 unfolding pow2_size_def by blast

lemma pow2_size_pos: "pow2_size sz \<Longrightarrow> 0 < unat sz"
  by (elim pow2_sizeE) simp

lemma pow2_size_max: "pow2_size sz \<Longrightarrow> unat sz \<le> 2 ^ 63"
proof (elim pow2_sizeE)
  fix k assume k: "k < 64" "unat sz = 2 ^ k"
  have "(2::nat) ^ k \<le> 2 ^ 63"
    by (rule power_increasing) (use k in auto)
  with k show ?thesis by simp
qed

lemma pow2_size_dvd: "pow2_size sz \<Longrightarrow> unat sz dvd 2 ^ 64"
  by (elim pow2_sizeE) (metis le_imp_power_dvd less_imp_le_nat)

text \<open>The mask of the source is the remainder, whatever the word.\<close>

lemma unat_and_mask [ring_simps]:
  assumes "pow2_size sz"
  shows "unat (x AND (sz - 1)) = unat x mod unat sz"
proof -
  from assms obtain k where k: "k < 64" "sz = 2 ^ k" "unat sz = 2 ^ k"
    by (rule pow2_sizeE)
  have "x AND (sz - 1) = take_bit k x"
    by (simp add: k take_bit_eq_mask mask_eq_exp_minus_1)
  then have "unat (x AND (sz - 1)) = take_bit k (unat x)"
    by (simp add: unsigned_take_bit_eq)
  then show ?thesis by (simp only: take_bit_eq_mod k(3))
qed

lemma unat_plus_mod [ring_simps]:
  fixes x y :: size_t
  assumes "pow2_size sz"
  shows "unat (x + y) mod unat sz = (unat x + unat y) mod unat sz"
proof -
  from assms have "unat sz dvd 2 ^ 64" by (rule pow2_size_dvd)
  then show ?thesis by (simp add: unat_word_ariths mod_mod_cancel)
qed

lemma unat_plus_bounded: "unat x + unat y < 2 ^ 64 \<Longrightarrow> unat (x + y) = unat x + unat y"
  for x y :: size_t
  by (simp add: unat_word_ariths)

lemma unat_minus_bounded: "unat y \<le> unat x \<Longrightarrow> unat (x - y) = unat x - unat y"
  for x y :: size_t
  by (simp add: unat_sub word_le_nat_alt)

lemma and_pred_nat_pow2: "0 < n \<Longrightarrow> n AND (n - 1) = 0 \<Longrightarrow> \<exists>k. n = 2 ^ k" for n :: nat
proof (induction n rule: less_induct)
  case (less n)
  show ?case
  proof (cases "even n")
    case True
    then obtain m where m: "n = 2 * m" by blast
    with less.prems(1) have pos: "0 < m" by simp
    have half: "(2 * m - 1) div 2 = m - 1" using pos by arith
    have "n AND (n - 1) = 2 * (m AND (m - 1))"
      unfolding m by (subst and_rec) (use half in simp)
    with less.prems(2) have "m AND (m - 1) = 0" by simp
    with less.IH[of m] m pos obtain k where "m = 2 ^ k" by auto
    with m have "n = 2 ^ Suc k" by simp
    then show ?thesis by blast
  next
    case False
    then obtain m where m: "n = 2 * m + 1" using oddE by blast
    have "n AND (n - 1) = 2 * m"
      using m by (subst and_rec) auto
    with less.prems(2) m have "n = 2 ^ 0" by simp
    then show ?thesis by blast
  qed
qed

text \<open>What the compile-time check accepts: the powers of two, and zero.\<close>

lemma size_check_iff: "sz AND (sz - 1) = 0 \<longleftrightarrow> sz = 0 \<or> pow2_size sz"
proof
  assume chk: "sz AND (sz - 1) = 0"
  show "sz = 0 \<or> pow2_size sz"
  proof (cases "sz = 0")
    case False
    then have pos: "0 < unat sz" by (simp add: unat_gt_0)
    have "unat (sz AND (sz - 1)) = unat sz AND unat (sz - 1)"
      by (simp add: unsigned_and_eq)
    moreover have "unat (sz - 1) = unat sz - 1"
      using pos by (simp add: unat_minus_bounded)
    ultimately have "unat sz AND (unat sz - 1) = 0"
      using chk by simp
    with pos obtain k where k: "unat sz = 2 ^ k"
      using and_pred_nat_pow2 by blast
    have "(2::nat) ^ k < 2 ^ 64"
      using k unsigned_less[of sz, where 'a = nat] by simp
    then have k64: "k < 64" by (rule power_less_imp_less_exp [rotated]) simp
    then have "unat sz = unat ((2::size_t) ^ k)" using k by (simp only: unat_pow2)
    then have "sz = 2 ^ k" by (rule unsigned_word_eqI)
    with k64 show ?thesis by (auto simp: pow2_size_def)
  qed simp
next
  assume "sz = 0 \<or> pow2_size sz"
  then show "sz AND (sz - 1) = 0"
  proof
    assume "pow2_size sz"
    then have "unat (sz AND (sz - 1)) = 0" by (simp add: unat_and_mask)
    then show ?thesis by (simp add: unat_eq_0)
  qed simp
qed

section \<open>Indices of a ring of \<open>n\<close> places\<close>

lemma ring_index_inj:
  fixes i j t n :: nat
  assumes "(t + i) mod n = (t + j) mod n" and "i < n" and "j < n"
  shows "i = j"
proof -
  have step: "a = b" if eq: "(t + a) mod n = (t + b) mod n" and le: "a \<le> b" and "b < n" for a b
  proof (rule ccontr)
    assume "a \<noteq> b"
    with le have pos: "0 < b - a" by simp
    have "n dvd (t + b) - (t + a)"
      using mod_eq_dvd_iff_nat [of "t + a" "t + b" n] eq le by simp
    then have "n dvd b - a" by simp
    then have "n \<le> b - a" using pos by (rule dvd_imp_le)
    with \<open>b < n\<close> show False by simp
  qed
  show ?thesis
  proof (cases "i \<le> j")
    case True
    then show ?thesis by (rule step [OF assms(1) _ assms(3)])
  next
    case False
    then have "j \<le> i" by simp
    then have "j = i" by (rule step [OF assms(1) [symmetric] _ assms(2)])
    then show ?thesis ..
  qed
qed

text \<open>Positions that differ by less than \<open>n\<close> have different places.\<close>

lemma window_mod_inj:
  fixes i j n :: nat
  assumes "i mod n = j mod n" and "t \<le> i" and "i < t + n" and "t \<le> j" and "j < t + n"
  shows "i = j"
proof -
  obtain a b where ab: "i = t + a" "j = t + b"
    using le_Suc_ex [OF assms(2)] le_Suc_ex [OF assms(4)] by blast
  then have "a < n" and "b < n" using assms(3,5) by simp_all
  with assms(1) ab have "a = b" using ring_index_inj [of t a n b] by blast
  then show ?thesis by (simp add: ab)
qed

lemma ring_index_surj:
  fixes c n t :: nat
  assumes "c < n"
  obtains i where "i < n" and "(t + i) mod n = c"
proof
  let ?i = "(c + (n - t mod n)) mod n"
  show "?i < n" using assms by simp
  have le: "t mod n \<le> n" using assms by (simp add: less_imp_le)
  have "(t + ?i) mod n = (t mod n + (c + (n - t mod n))) mod n"
    by (simp add: mod_simps)
  also have "\<dots> = (c + n) mod n" using le by simp
  finally show "(t + ?i) mod n = c" using assms by simp
qed

lemma mod_less_length [ring_simps]: "i < n \<Longrightarrow> x mod n < n" for i n x :: nat
  by (rule mod_less_divisor) linarith

definition ring_len :: "nat \<Rightarrow> nat \<Rightarrow> nat \<Rightarrow> nat" where
  "ring_len n t h = (h + n - t) mod n"

lemma ring_len_less: "0 < n \<Longrightarrow> ring_len n t h < n"
  by (simp add: ring_len_def)

lemma ring_len_end: "t < n \<Longrightarrow> h < n \<Longrightarrow> (t + ring_len n t h) mod n = h"
  by (simp add: ring_len_def mod_simps)

lemma ring_len_eqI: "k < n \<Longrightarrow> t < n \<Longrightarrow> h = (t + k) mod n \<Longrightarrow> ring_len n t h = k"
  by (metis add.commute add_lessD1 mod_less_divisor nat_neq_iff ring_index_inj ring_len_end ring_len_less zero_less_iff_neq_zero not_less_zero)

lemma ring_len_0_iff: "t < n \<Longrightarrow> h < n \<Longrightarrow> ring_len n t h = 0 \<longleftrightarrow> h = t"
  by (metis add.right_neutral mod_less ring_len_end ring_len_eqI le0 less_nat_zero_code nat_neq_iff)

section \<open>Reachable states and invariants\<close>

inductive reach :: "('s \<Rightarrow> bool) \<Rightarrow> ('s \<Rightarrow> 's \<Rightarrow> bool) \<Rightarrow> 's \<Rightarrow> bool"
  for init :: "'s \<Rightarrow> bool" and step :: "'s \<Rightarrow> 's \<Rightarrow> bool" where
  reach_init: "init s \<Longrightarrow> reach init step s"
| reach_step: "reach init step s \<Longrightarrow> step s t \<Longrightarrow> reach init step t"

text \<open>The contract of an invariant: it holds at the start and no step breaks it.\<close>

locale invariant_system =
  fixes init :: "'s \<Rightarrow> bool"
    and step :: "'s \<Rightarrow> 's \<Rightarrow> bool"
    and inv :: "'s \<Rightarrow> bool"
  assumes inv_init: "init s \<Longrightarrow> inv s"
    and inv_step: "inv s \<Longrightarrow> step s t \<Longrightarrow> inv t"
begin

lemma reach_inv: "reach init step s \<Longrightarrow> inv s"
  by (induction rule: reach.induct) (auto intro: inv_init inv_step)

lemma reach_step_inv: "reach init step s \<Longrightarrow> step s t \<Longrightarrow> inv s \<and> inv t"
  using reach_inv inv_step by blast

end

text \<open>
  The contract of a simulation: a step is one of the simpler system, or nothing there, as long
  as the invariant of the more detailed one holds.
\<close>

locale stutter_simulation =
  fixes init :: "'s \<Rightarrow> bool"
    and step :: "'s \<Rightarrow> 's \<Rightarrow> bool"
    and inv :: "'s \<Rightarrow> bool"
    and init' :: "'t \<Rightarrow> bool"
    and step' :: "'t \<Rightarrow> 't \<Rightarrow> bool"
    and abs :: "'s \<Rightarrow> 't"
  assumes sim_init: "init s \<Longrightarrow> inv s \<and> init' (abs s)"
    and sim_step: "inv s \<Longrightarrow> step s t \<Longrightarrow> inv t \<and> (abs t = abs s \<or> step' (abs s) (abs t))"
begin

lemma reach_sim: "reach init step s \<Longrightarrow> inv s \<and> reach init' step' (abs s)"
proof (induction rule: reach.induct)
  case (reach_step s t)
  then have "inv s" "reach init' step' (abs s)" by simp_all
  with sim_step [OF _ reach_step.hyps(2)] show ?case by (auto intro: reach.reach_step)
qed (use sim_init in \<open>auto intro: reach.reach_init\<close>)

end

sublocale stutter_simulation \<subseteq> invariant_system init step inv
  by unfold_locales (use sim_init sim_step in auto)

end
