(* ===== verification/Storage.thy ===== *)
theory Storage
  imports Prelude
begin

text \<open>
  Raw storage (\<open>std::aligned_storage_t\<close>) and the life of the objects in it.
  A slot is \<open>None\<close> while no object is alive in it and \<open>Some v\<close> while an object
  with value \<open>v\<close> is. Placement new, the move and copy constructors, assignment and
  explicit destructor calls are operations on slots, with the misuse of each a fault.
  The ring of slots between a tail and a head, shared by the queues and the pool, is
  read off as a list.
\<close>

section \<open>The element type\<close>

text \<open>
  What the templates ask of \<open>T\<close>: the two type traits they test, and the value an
  object is left with after it has been moved from. Copies are equal to their source.
\<close>

record 'a elem_type =
  move_constructible :: bool
  move_assignable :: bool
  moved_from :: "'a \<Rightarrow> 'a"

text \<open>A movable type of numbers, whose moved-from value is 0, to evaluate examples with.\<close>

definition nat_elem :: "nat elem_type" where
  "nat_elem = \<lparr>move_constructible = True, move_assignable = True, moved_from = (\<lambda>_. 0)\<rparr>"

section \<open>Slots of an array\<close>

definition construct_at :: "nat \<Rightarrow> 'a \<Rightarrow> 'a option list \<Rightarrow> fault + 'a option list" where
  "construct_at i v b =
     (if length b \<le> i then Inl OutOfBounds
      else case b ! i of
          None \<Rightarrow> Inr (b[i := Some v])
        | Some _ \<Rightarrow> Inl LiveOverwrite)"

text \<open>\<open>T x = *ptr\<close>: the object stays as it is.\<close>

definition copy_at :: "nat \<Rightarrow> 'a option list \<Rightarrow> fault + 'a \<times> 'a option list" where
  "copy_at i b =
     (if length b \<le> i then Inl OutOfBounds
      else case b ! i of None \<Rightarrow> Inl RawRead | Some v \<Rightarrow> Inr (v, b))"

text \<open>\<open>T x = std::move(*ptr)\<close>: the object stays alive, with its moved-from value.\<close>

definition move_at :: "'a elem_type \<Rightarrow> nat \<Rightarrow> 'a option list \<Rightarrow> fault + 'a \<times> 'a option list" where
  "move_at ty i b =
     (if length b \<le> i then Inl OutOfBounds
      else case b ! i of
          None \<Rightarrow> Inl RawRead
        | Some v \<Rightarrow> Inr (v, b[i := Some (moved_from ty v)]))"

definition destroy_at :: "nat \<Rightarrow> 'a option list \<Rightarrow> fault + 'a option list" where
  "destroy_at i b =
     (if length b \<le> i then Inl OutOfBounds
      else case b ! i of None \<Rightarrow> Inl RawRead | Some _ \<Rightarrow> Inr (b[i := None]))"

lemma construct_at_ok [simp]:
  "i < length b \<Longrightarrow> b ! i = None \<Longrightarrow> construct_at i v b = Inr (b[i := Some v])"
  by (simp add: construct_at_def)

lemma copy_at_ok [simp]: "i < length b \<Longrightarrow> b ! i = Some v \<Longrightarrow> copy_at i b = Inr (v, b)"
  by (simp add: copy_at_def)

lemma move_at_ok [simp]:
  "i < length b \<Longrightarrow> b ! i = Some v \<Longrightarrow> move_at ty i b = Inr (v, b[i := Some (moved_from ty v)])"
  by (simp add: move_at_def)

lemma destroy_at_ok [simp]:
  "i < length b \<Longrightarrow> b ! i = Some v \<Longrightarrow> destroy_at i b = Inr (b[i := None])"
  by (simp add: destroy_at_def)

text \<open>
  Both pop operations of both queues read an element, by a move or by a copy as the
  type allows, and destroy it in place.
\<close>

definition take_at :: "bool \<Rightarrow> 'a elem_type \<Rightarrow> nat \<Rightarrow> 'a option list \<Rightarrow> fault + 'a \<times> 'a option list" where
  "take_at mv ty i b =
     res_bind (if mv then move_at ty i b else copy_at i b)
       (\<lambda>(v, b'). res_bind (destroy_at i b') (\<lambda>b''. Inr (v, b'')))"

lemma take_at_ok [simp]:
  assumes "i < length b" and "b ! i = Some v"
  shows "take_at mv ty i b = Inr (v, b[i := None])"
proof (cases mv)
  case True
  have "destroy_at i (b[i := Some (moved_from ty v)]) = Inr (b[i := None])"
    using assms(1) by (subst destroy_at_ok) simp_all
  with True assms show ?thesis by (simp add: take_at_def)
next
  case False
  with assms show ?thesis by (simp add: take_at_def)
qed

text \<open>How far a thread that takes an object has got: it is there, moved from, destroyed.\<close>

datatype slot_phase = Whole | Moved | Gone

fun slot_in_phase :: "slot_phase \<Rightarrow> 'a \<Rightarrow> 'a option \<Rightarrow> bool" where
  "slot_in_phase Whole v x \<longleftrightarrow> x = Some v"
| "slot_in_phase Moved v x \<longleftrightarrow> x \<noteq> None"
| "slot_in_phase Gone v x \<longleftrightarrow> x = None"

section \<open>The occupied part of a ring\<close>

text \<open>
  \<open>ring_list b t k\<close> lists the objects of the \<open>k\<close> slots from \<open>t\<close> on, modulo the
  size of the array. \<open>ring_occ b t k\<close> says that exactly these slots hold objects.
\<close>

definition ring_list :: "'a option list \<Rightarrow> nat \<Rightarrow> nat \<Rightarrow> 'a list" where
  "ring_list b t k = map (\<lambda>i. the (b ! ((t + i) mod length b))) [0..<k]"

definition ring_occ :: "'a option list \<Rightarrow> nat \<Rightarrow> nat \<Rightarrow> bool" where
  "ring_occ b t k \<longleftrightarrow> (\<forall>i<length b. b ! ((t + i) mod length b) \<noteq> None \<longleftrightarrow> i < k)"

lemma length_ring_list [simp]: "length (ring_list b t k) = k"
  by (simp add: ring_list_def)

lemma nth_ring_list: "i < k \<Longrightarrow> ring_list b t k ! i = the (b ! ((t + i) mod length b))"
  by (simp add: ring_list_def)

lemma ring_list_0 [simp]: "ring_list b t 0 = []"
  by (simp add: ring_list_def)

lemma ring_occ_empty: "ring_occ (replicate n None) t 0"
  by (simp add: ring_occ_def)

lemma ring_occ_free: "ring_occ b t k \<Longrightarrow> k < length b \<Longrightarrow> b ! ((t + k) mod length b) = None"
  by (auto simp: ring_occ_def)

lemma ring_occ_used:
  assumes "ring_occ b t k" and "i < k" and "k \<le> length b"
  shows "b ! ((t + i) mod length b) = Some (ring_list b t k ! i)"
proof -
  from assms have "b ! ((t + i) mod length b) \<noteq> None"
    unfolding ring_occ_def by auto
  then show ?thesis using assms(2) by (simp add: nth_ring_list)
qed

lemma ring_occ_first:
  assumes "ring_occ b t k" and "0 < k" and "k \<le> length b" and "t < length b"
  shows "b ! t = Some (hd (ring_list b t k))"
proof -
  have "ring_list b t k \<noteq> []" using assms(2) by (auto simp: ring_list_def)
  then show ?thesis
    using ring_occ_used [OF assms(1,2,3)] assms(4) by (simp add: hd_conv_nth)
qed

text \<open>Building an object in the first free slot appends it.\<close>

lemma ring_list_construct:
  assumes "k < length b" and "h = (t + k) mod length b"
  shows "ring_list (b[h := Some v]) t (Suc k) = ring_list b t k @ [v]"
proof (rule nth_equalityI)
  fix i assume "i < length (ring_list (b[h := Some v]) t (Suc k))"
  then have i: "i \<le> k" by simp
  have hl: "h < length b" using assms by (simp add: mod_less_length)
  show "ring_list (b[h := Some v]) t (Suc k) ! i = (ring_list b t k @ [v]) ! i"
  proof (cases "i = k")
    case True
    with hl assms(2) show ?thesis by (simp add: nth_ring_list nth_append)
  next
    case False
    with i have ik: "i < k" by simp
    have "(t + i) mod length b \<noteq> h"
      using ring_index_inj [of t i "length b" k] ik assms by auto
    with ik show ?thesis by (simp add: nth_ring_list nth_append)
  qed
qed simp

lemma ring_occ_construct:
  assumes "ring_occ b t k" and "k < length b" and "h = (t + k) mod length b"
  shows "ring_occ (b[h := Some v]) t (Suc k)"
  unfolding ring_occ_def
proof (intro allI impI)
  fix i assume "i < length (b[h := Some v])"
  then have i: "i < length b" by simp
  show "(b[h := Some v] ! ((t + i) mod length (b[h := Some v])) \<noteq> None) = (i < Suc k)"
  proof (cases "i = k")
    case True
    moreover have "h < length b" using i assms(3) by (simp add: mod_less_length)
    ultimately show ?thesis using assms(3) by simp
  next
    case False
    with i assms have "(t + i) mod length b \<noteq> h"
      using ring_index_inj [of t i "length b" k] by auto
    with False i assms(1) show ?thesis by (auto simp: ring_occ_def)
  qed
qed

text \<open>Destroying the object of the first slot drops it.\<close>

lemma ring_list_destroy:
  assumes "0 < k" and "k \<le> length b" and "t < length b"
  shows "ring_list (b[t := None]) (Suc t mod length b) (k - 1) = tl (ring_list b t k)"
proof (rule nth_equalityI)
  fix i assume "i < length (ring_list (b[t := None]) (Suc t mod length b) (k - 1))"
  then have i: "Suc i < k" by simp
  have eq: "(Suc t mod length b + i) mod length b = (t + Suc i) mod length b"
    by (simp add: mod_simps)
  have "0 < length b" using assms by linarith
  then have "(t + Suc i) mod length b \<noteq> t"
    using ring_index_inj [of t "Suc i" "length b" 0] i assms by (auto simp del: length_greater_0_conv)
  then show "ring_list (b[t := None]) (Suc t mod length b) (k - 1) ! i = tl (ring_list b t k) ! i"
    using i eq by (simp add: nth_ring_list nth_tl)
qed simp

lemma ring_occ_destroy:
  assumes "ring_occ b t k" and "0 < k" and "k \<le> length b" and "t < length b"
  shows "ring_occ (b[t := None]) (Suc t mod length b) (k - 1)"
  unfolding ring_occ_def
proof (intro allI impI)
  fix i assume "i < length (b[t := None])"
  then have i: "i < length b" by simp
  have eq: "(Suc t mod length b + i) mod length b = (t + Suc i) mod length b"
    by (simp add: mod_simps)
  show "(b[t := None] ! ((Suc t mod length b + i) mod length (b[t := None])) \<noteq> None) = (i < k - 1)"
  proof (cases "Suc i = length b")
    case True
    then have "(t + Suc i) mod length b = t" using assms(4) by simp
    with eq True assms show ?thesis by simp
  next
    case False
    with i have si: "Suc i < length b" by simp
    have "0 < length b" using si by linarith
    then have "(t + Suc i) mod length b \<noteq> t"
      using ring_index_inj [of t "Suc i" "length b" 0] si assms by (auto simp del: length_greater_0_conv)
    with si eq assms(1) show ?thesis by (auto simp: ring_occ_def)
  qed
qed

end
