(* ===== verification/QueueSpec.thy ===== *)
theory QueueSpec
  imports Storage
begin

text \<open>
  The contract the two queues of the library share: a bounded first-in first-out buffer
  that can be stopped and run again. The locale \<open>bounded_queue\<close> states it over the
  operations a client calls; what every client can rely on (first-in first-out order over
  any sequence of calls, the destructor's drain, the blocking pop) is proved once, here.
\<close>

datatype queue_status = Running | Stopped

instantiation queue_status :: linorder
begin

definition less_eq_queue_status :: "queue_status \<Rightarrow> queue_status \<Rightarrow> bool" where
  "less_eq_queue_status a b \<longleftrightarrow> a = Running \<or> b = Stopped"

definition less_queue_status :: "queue_status \<Rightarrow> queue_status \<Rightarrow> bool" where
  "less_queue_status a b \<longleftrightarrow> a = Running \<and> b = Stopped"

instance
proof
  fix a b c :: queue_status
  show "a < b \<longleftrightarrow> a \<le> b \<and> \<not> b \<le> a"
    by (cases a; cases b) (simp_all add: less_eq_queue_status_def less_queue_status_def)
  show "a \<le> a" by (cases a) (simp_all add: less_eq_queue_status_def)
  show "a \<le> b \<Longrightarrow> b \<le> c \<Longrightarrow> a \<le> c"
    by (cases a; cases b; cases c) (simp_all add: less_eq_queue_status_def)
  show "a \<le> b \<Longrightarrow> b \<le> a \<Longrightarrow> a = b"
    by (cases a; cases b) (simp_all add: less_eq_queue_status_def)
  show "a \<le> b \<or> b \<le> a" by (cases a; cases b) (simp_all add: less_eq_queue_status_def)
qed

end

section \<open>Client code over any queue\<close>

text \<open>
  \<open>'q\<close> is the state of a queue. An operation returns \<open>None\<close> when it does not return,
  and a fault or a result with the new state when it does.
\<close>

type_synonym ('q, 'r) op_result = "(fault + 'r \<times> 'q) option"

datatype 'a queue_op = Push 'a | Pop | Halt | Resume

text \<open>
  Run a sequence of calls. The results are the values that were accepted, the values that
  were popped, both in order, and the final state.
\<close>

fun queue_exec ::
  "('a \<Rightarrow> 'q \<Rightarrow> ('q, bool) op_result) \<Rightarrow> ('q \<Rightarrow> ('q, 'a option) op_result) \<Rightarrow>
   ('q \<Rightarrow> 'q) \<Rightarrow> ('q \<Rightarrow> 'q) \<Rightarrow> 'a queue_op list \<Rightarrow> 'q \<Rightarrow> ('q, 'a list \<times> 'a list) op_result" where
  "queue_exec push pop halt resume [] q = Some (Inr (([], []), q))"
| "queue_exec push pop halt resume (Push v # ops) q =
     (case push v q of
        None \<Rightarrow> None
      | Some (Inl e) \<Rightarrow> Some (Inl e)
      | Some (Inr (ok, q')) \<Rightarrow>
          (case queue_exec push pop halt resume ops q' of
             Some (Inr ((ins, outs), q'')) \<Rightarrow> Some (Inr ((if ok then v # ins else ins, outs), q''))
           | r \<Rightarrow> r))"
| "queue_exec push pop halt resume (Pop # ops) q =
     (case pop q of
        None \<Rightarrow> None
      | Some (Inl e) \<Rightarrow> Some (Inl e)
      | Some (Inr (res, q')) \<Rightarrow>
          (case queue_exec push pop halt resume ops q' of
             Some (Inr ((ins, outs), q'')) \<Rightarrow>
               Some (Inr ((ins, case res of None \<Rightarrow> outs | Some v \<Rightarrow> v # outs), q''))
           | r \<Rightarrow> r))"
| "queue_exec push pop halt resume (Halt # ops) q = queue_exec push pop halt resume ops (halt q)"
| "queue_exec push pop halt resume (Resume # ops) q =
     queue_exec push pop halt resume ops (resume q)"

text \<open>The specification of the same run: a list of at most \<open>cap\<close> values and a flag.\<close>

fun fifo_exec :: "nat \<Rightarrow> 'a queue_op list \<Rightarrow> 'a list \<times> bool \<Rightarrow>
    ('a list \<times> 'a list) \<times> 'a list \<times> bool" where
  "fifo_exec cap [] s = (([], []), s)"
| "fifo_exec cap (Push v # ops) (xs, h) =
     (if \<not> h \<and> length xs < cap
      then (case fifo_exec cap ops (xs @ [v], h) of ((ins, outs), s) \<Rightarrow> ((v # ins, outs), s))
      else fifo_exec cap ops (xs, h))"
| "fifo_exec cap (Pop # ops) ([], h) = fifo_exec cap ops ([], h)"
| "fifo_exec cap (Pop # ops) (x # xs, h) =
     (case fifo_exec cap ops (xs, h) of ((ins, outs), s) \<Rightarrow> ((ins, x # outs), s))"
| "fifo_exec cap (Halt # ops) (xs, h) = fifo_exec cap ops (xs, True)"
| "fifo_exec cap (Resume # ops) (xs, h) = fifo_exec cap ops (xs, False)"

text \<open>In the specification nothing is lost, doubled or reordered.\<close>

lemma fifo_exec_conserves:
  "fifo_exec cap ops (xs, h) = ((ins, outs), (ys, h')) \<Longrightarrow> xs @ ins = outs @ ys"
proof (induction cap ops "(xs, h)" arbitrary: xs h ins outs rule: fifo_exec.induct)
  case (2 cap v ops xs h)
  then show ?case by (fastforce split: if_splits prod.splits)
next
  case (4 cap ops x xs h)
  then show ?case by (fastforce split: prod.splits)
qed auto

text \<open>The loop of both destructors: \<open>while (try_pop()) { }\<close>.\<close>

partial_function (option) drain ::
  "('q \<Rightarrow> ('q, 'a option) op_result) \<Rightarrow> 'q \<Rightarrow> (fault + 'q) option" where
  "drain pop q =
     (case pop q of
        None \<Rightarrow> None
      | Some (Inl e) \<Rightarrow> Some (Inl e)
      | Some (Inr (None, q')) \<Rightarrow> Some (Inr q')
      | Some (Inr (Some v, q')) \<Rightarrow> drain pop q')"

text \<open>
  The loop of both blocking pops. Other threads run between any two of its accesses:
  \<open>env k\<close> is what they do to the queue before the access number \<open>k\<close>. The loop reads
  the status twice, the second time only if the first load saw it stopped.
\<close>

partial_function (option) pop_loop ::
  "('q \<Rightarrow> ('q, 'a option) op_result) \<Rightarrow> ('q \<Rightarrow> bool) \<Rightarrow> (nat \<Rightarrow> 'q \<Rightarrow> 'q) \<Rightarrow> nat \<Rightarrow> 'q \<Rightarrow>
   ('q, 'a option) op_result" where
  "pop_loop pop halted env k q =
     (case pop (env k q) of
        None \<Rightarrow> None
      | Some (Inl e) \<Rightarrow> Some (Inl e)
      | Some (Inr (Some v, q')) \<Rightarrow> Some (Inr (Some v, q'))
      | Some (Inr (None, q')) \<Rightarrow>
          (if halted (env (k + 1) q') then
             (if halted (env (k + 2) (env (k + 1) q'))
              then Some (Inr (None, env (k + 2) (env (k + 1) q')))
              else pop_loop pop halted env (k + 3) (env (k + 2) (env (k + 1) q')))
           else pop_loop pop halted env (k + 2) (env (k + 1) q')))"

section \<open>The contract\<close>

text \<open>
  \<open>inv n q\<close>: the state is well formed, and stays so over \<open>n\<close> more pushes. (The counters
  of one of the queues are positions, so the number of pushes in its life is bounded.)
\<close>

locale bounded_queue =
  fixes cap :: nat
    and inv :: "nat \<Rightarrow> 'q \<Rightarrow> bool"
    and items :: "'q \<Rightarrow> 'a list"
    and halted :: "'q \<Rightarrow> bool"
    and push :: "'a \<Rightarrow> 'q \<Rightarrow> ('q, bool) op_result"
    and pop :: "'q \<Rightarrow> ('q, 'a option) op_result"
    and halt :: "'q \<Rightarrow> 'q"
    and resume :: "'q \<Rightarrow> 'q"
  assumes inv_weaken: "inv (Suc n) q \<Longrightarrow> inv n q"
    and push_law: "inv (Suc n) q \<Longrightarrow>
      \<exists>q'. push v q = Some (Inr (\<not> halted q \<and> length (items q) < cap, q')) \<and> inv n q' \<and>
        halted q' = halted q \<and>
        items q' = (if \<not> halted q \<and> length (items q) < cap then items q @ [v] else items q)"
    and pop_law: "inv n q \<Longrightarrow>
      \<exists>q'. pop q = Some (Inr (if items q = [] then None else Some (hd (items q)), q')) \<and>
        inv n q' \<and> halted q' = halted q \<and> items q' = tl (items q)"
    and halt_law: "inv n q \<Longrightarrow> inv n (halt q) \<and> halted (halt q) \<and> items (halt q) = items q"
    and resume_law: "inv n q \<Longrightarrow>
      inv n (resume q) \<and> \<not> halted (resume q) \<and> items (resume q) = items q"
begin

lemma inv_antimono: "m \<le> n \<Longrightarrow> inv n q \<Longrightarrow> inv m q"
  by (induction n rule: nat_induct_at_least) (auto intro: inv_weaken)

text \<open>Every run of a client has the outcome of the specification.\<close>

lemma exec_refines:
  assumes "inv n q" and "length (filter (\<lambda>x. case x of Push _ \<Rightarrow> True | _ \<Rightarrow> False) ops) \<le> n"
  shows "\<exists>ins outs q'. queue_exec push pop halt resume ops q = Some (Inr ((ins, outs), q')) \<and>
    fifo_exec cap ops (items q, halted q) = ((ins, outs), (items q', halted q')) \<and> inv 0 q'"
  using assms
proof (induction ops arbitrary: n q)
  case Nil
  then show ?case using inv_antimono [of 0 n q] by simp
next
  case (Cons x ops)
  show ?case
  proof (cases x)
    case (Push v)
    with Cons.prems(2) obtain m where n: "n = Suc m" by (cases n) auto
    from push_law [OF Cons.prems(1) [unfolded n], of v] obtain q' where q':
      "push v q = Some (Inr (\<not> halted q \<and> length (items q) < cap, q'))" "inv m q'"
      "halted q' = halted q"
      "items q' = (if \<not> halted q \<and> length (items q) < cap then items q @ [v] else items q)"
      by blast
    from Cons.IH [OF q'(2)] Cons.prems(2) Push n obtain ins outs q'' where
      "queue_exec push pop halt resume ops q' = Some (Inr ((ins, outs), q''))"
      "fifo_exec cap ops (items q', halted q') = ((ins, outs), (items q'', halted q''))" "inv 0 q''"
      by auto
    with q' Push show ?thesis by (auto split: if_splits)
  next
    case Pop
    from pop_law [OF Cons.prems(1)] obtain q' where q':
      "pop q = Some (Inr (if items q = [] then None else Some (hd (items q)), q'))" "inv n q'"
      "halted q' = halted q" "items q' = tl (items q)"
      by blast
    from Cons.IH [OF q'(2)] Cons.prems(2) Pop obtain ins outs q'' where
      "queue_exec push pop halt resume ops q' = Some (Inr ((ins, outs), q''))"
      "fifo_exec cap ops (items q', halted q') = ((ins, outs), (items q'', halted q''))" "inv 0 q''"
      by auto
    with q' Pop show ?thesis by (cases "items q") auto
  next
    case Halt
    with halt_law [OF Cons.prems(1)] Cons.IH [of n "halt q"] Cons.prems(2) show ?thesis
      by auto
  next
    case Resume
    with resume_law [OF Cons.prems(1)] Cons.IH [of n "resume q"] Cons.prems(2) show ?thesis
      by auto
  qed
qed

text \<open>First in, first out, over any sequence of calls, from any well-formed state.\<close>

lemma exec_fifo:
  assumes "inv n q" and "length (filter (\<lambda>x. case x of Push _ \<Rightarrow> True | _ \<Rightarrow> False) ops) \<le> n"
  shows "\<exists>ins outs q'. queue_exec push pop halt resume ops q = Some (Inr ((ins, outs), q')) \<and>
    items q @ ins = outs @ items q'"
  using exec_refines [OF assms] fifo_exec_conserves by (metis (no_types, lifting))

text \<open>The drain ends, without a fault, on an empty queue.\<close>

lemma drain_empties:
  assumes "inv n q"
  shows "\<exists>q'. drain pop q = Some (Inr q') \<and> inv n q' \<and> items q' = [] \<and> halted q' = halted q"
  using assms
proof (induction "length (items q)" arbitrary: q)
  case 0
  with pop_law [OF "0.prems"] show ?case by (subst drain.simps) auto
next
  case (Suc l)
  from pop_law [OF Suc.prems] obtain q' where q':
    "pop q = Some (Inr (if items q = [] then None else Some (hd (items q)), q'))" "inv n q'"
    "halted q' = halted q" "items q' = tl (items q)"
    by blast
  with Suc.hyps(2) have "l = length (items q')" by simp
  with Suc.hyps(1) q'(2) obtain q'' where "drain pop q' = Some (Inr q'')" "inv n q''"
    "items q'' = []" "halted q'' = halted q'" by blast
  with q' Suc.hyps(2) show ?case by (subst drain.simps) (auto split: if_splits)
qed

text \<open>
  The blocking pop. Between its accesses the other threads may add items and change the
  status, but only the caller removes items.
\<close>

text \<open>It returns at once when there is an item.\<close>

lemma pop_loop_item:
  assumes "inv n (env k q)" and "items (env k q) \<noteq> []"
  shows "\<exists>q'. pop_loop pop halted env k q = Some (Inr (Some (hd (items (env k q))), q')) \<and>
    inv n q' \<and> items q' = tl (items (env k q))"
  using pop_law [OF assms(1)] assms(2) by (subst pop_loop.simps) auto

text \<open>It returns from a queue that the other threads stop for good.\<close>

lemma pop_loop_returns:
  assumes env: "\<And>j q. inv n q \<Longrightarrow> inv n (env j q)"
    and stop: "\<And>j q. m \<le> j \<Longrightarrow> inv n q \<Longrightarrow> halted (env j q)"
    and q: "inv n q"
  shows "\<exists>r q'. pop_loop pop halted env k q = Some (Inr (r, q')) \<and> inv n q'"
  using q
proof (induction "m - k" arbitrary: k q rule: less_induct)
  case less
  have e: "inv n (env k q)" using less.prems by (rule env)
  from pop_law [OF e] obtain q' where q':
    "pop (env k q) =
       Some (Inr (if items (env k q) = [] then None else Some (hd (items (env k q))), q'))"
    "inv n q'" by blast
  let ?q1 = "env (k + 1) q'" and ?q2 = "env (k + 2) (env (k + 1) q')"
  have i1: "inv n ?q1" and i2: "inv n ?q2" using q'(2) env by auto
  show ?case
  proof (cases "items (env k q) = [] \<and> \<not> (halted ?q1 \<and> halted ?q2)")
    case False
    with q' i2 show ?thesis by (subst pop_loop.simps) auto
  next
    case True
    then have "k < m" using stop [of "k + 1"] stop [of "k + 2"] q'(2) i1
      by (metis add.commute le_add2 le_trans not_le_imp_less)
    then have "m - (k + 2) < m - k" and "m - (k + 3) < m - k" by auto
    with less.hyps [of "k + 2" ?q1] less.hyps [of "k + 3" ?q2] i1 i2 True q' show ?thesis
      by (subst pop_loop.simps) auto
  qed
qed

text \<open>With nobody else at work the loop returns exactly if there is an item or a stop.\<close>

lemma pop_loop_alone:
  assumes "inv n q"
  shows "pop_loop pop halted (\<lambda>_ q. q) k q = None \<longleftrightarrow> items q = [] \<and> \<not> halted q"
proof
  assume none: "pop_loop pop halted (\<lambda>_ q. q) k q = None"
  show "items q = [] \<and> \<not> halted q"
  proof (rule ccontr)
    assume "\<not> (items q = [] \<and> \<not> halted q)"
    with pop_law [OF assms] none show False
      by (subst (asm) pop_loop.simps) (auto split: if_splits)
  qed
next
  assume idle: "items q = [] \<and> \<not> halted q"
  show "pop_loop pop halted (\<lambda>_ q. q) k q = None"
  proof (rule ccontr)
    assume "pop_loop pop halted (\<lambda>_ q. q) k q \<noteq> None"
    then obtain r where "pop_loop pop halted (\<lambda>_ q. q) k q = Some r" by blast
    then show False
    proof (rule pop_loop.raw_induct [where P = "\<lambda>po ha en k q r.
        po = pop \<and> ha = halted \<and> en = (\<lambda>_ q. q) \<and> inv n q \<and> items q = [] \<and> \<not> halted q \<longrightarrow> False",
        rotated, THEN mp])
      show "pop = pop \<and> halted = halted \<and> (\<lambda>_ q. q) = (\<lambda>_ q. q) \<and> inv n q \<and> items q = [] \<and> \<not> halted q"
        using assms idle by simp
    next
      fix pl :: "('q \<Rightarrow> ('q, 'a option) op_result) \<Rightarrow> ('q \<Rightarrow> bool) \<Rightarrow> (nat \<Rightarrow> 'q \<Rightarrow> 'q) \<Rightarrow> nat \<Rightarrow> 'q \<Rightarrow>
        ('q, 'a option) op_result"
      fix po :: "'q \<Rightarrow> ('q, 'a option) op_result" and ha :: "'q \<Rightarrow> bool"
        and en :: "nat \<Rightarrow> 'q \<Rightarrow> 'q" and k q r
      assume IH: "\<And>po ha en k q r. pl po ha en k q = Some r \<Longrightarrow>
        po = pop \<and> ha = halted \<and> en = (\<lambda>_ q. q) \<and> inv n q \<and> items q = [] \<and> \<not> halted q \<longrightarrow> False"
      assume ret: "(case po (en k q) of None \<Rightarrow> None | Some (Inl e) \<Rightarrow> Some (Inl e)
          | Some (Inr (Some v, q')) \<Rightarrow> Some (Inr (Some v, q'))
          | Some (Inr (None, q')) \<Rightarrow>
              if ha (en (k + 1) q')
              then if ha (en (k + 2) (en (k + 1) q'))
                then Some (Inr (None, en (k + 2) (en (k + 1) q')))
                else pl po ha en (k + 3) (en (k + 2) (en (k + 1) q'))
              else pl po ha en (k + 2) (en (k + 1) q')) = Some r"
      show "po = pop \<and> ha = halted \<and> en = (\<lambda>_ q. q) \<and> inv n q \<and> items q = [] \<and> \<not> halted q \<longrightarrow> False"
      proof
        assume h: "po = pop \<and> ha = halted \<and> en = (\<lambda>_ q. q) \<and> inv n q \<and> items q = [] \<and> \<not> halted q"
        with pop_law [of n q] obtain q' where "pop q = Some (Inr (None, q'))" "inv n q'"
          "halted q' = halted q" "items q' = []" by auto
        with h ret IH [of pop halted "\<lambda>_ q. q" "k + 2" q' r] show False by simp
      qed
    qed
  qed
qed

end

end
