(* ===== verification/SpscQueue.thy ===== *)
theory SpscQueue
  imports QueueSpec
begin

text \<open>
  \<open>BoundedSPSCQueue\<close> of include/sync_tools/spsc_queue.hpp, one call at a time: its
  state, its operations, and the proof that they implement a bounded first-in first-out
  list of capacity \<open>_size - 1\<close>. The interleaving of a producer and a consumer is in
  \<open>SpscConcurrent\<close>.
\<close>

section \<open>State\<close>

text \<open>
  \<open>sz\<close> is the template argument \<open>_size\<close> and \<open>ty\<close> the element type. The head is the
  next index to write, the tail the next index to read.
\<close>

record 'a spsc =
  sp_buffer :: "'a option list"
  sp_head :: size_t
  sp_tail :: size_t
  sp_status :: queue_status

definition spsc_mask :: "size_t \<Rightarrow> size_t" where
  "spsc_mask sz = sz - 1"

definition spsc_init :: "size_t \<Rightarrow> 'a spsc" where
  "spsc_init sz =
     \<lparr>sp_buffer = replicate (unat sz) None, sp_head = 0, sp_tail = 0, sp_status = Running\<rparr>"

definition spsc_run :: "'a spsc \<Rightarrow> 'a spsc" where
  "spsc_run q = q\<lparr>sp_status := Running\<rparr>"

definition spsc_stop :: "'a spsc \<Rightarrow> 'a spsc" where
  "spsc_stop q = q\<lparr>sp_status := Stopped\<rparr>"

abbreviation spsc_stopped :: "'a spsc \<Rightarrow> bool" where
  "spsc_stopped q \<equiv> sp_status q = Stopped"

section \<open>Operations\<close>

text \<open>\<open>try_push(const T& v)\<close>\<close>

definition spsc_try_push :: "size_t \<Rightarrow> 'a \<Rightarrow> 'a spsc \<Rightarrow> fault + bool \<times> 'a spsc" where
  "spsc_try_push sz v q =
     (if sp_status q = Stopped then Inr (False, q)
      else
        let head = sp_head q;
            nxt = (head + 1) AND spsc_mask sz
        in if nxt = sp_tail q then Inr (False, q)
           else res_bind (construct_at (unat head) v (sp_buffer q))
                  (\<lambda>b. Inr (True, q\<lparr>sp_buffer := b, sp_head := nxt\<rparr>)))"

text \<open>\<open>try_push(T&& v)\<close>: the caller's object \<open>v\<close> is part of the result.\<close>

definition spsc_try_push_move ::
  "size_t \<Rightarrow> 'a elem_type \<Rightarrow> 'a \<Rightarrow> 'a spsc \<Rightarrow> fault + (bool \<times> 'a) \<times> 'a spsc" where
  "spsc_try_push_move sz ty v q =
     (if sp_status q = Stopped then Inr ((False, v), q)
      else
        let head = sp_head q;
            nxt = (head + 1) AND spsc_mask sz
        in if nxt = sp_tail q then Inr ((False, v), q)
           else res_bind (construct_at (unat head) v (sp_buffer q))
                  (\<lambda>b. Inr ((True, if move_constructible ty then moved_from ty v else v),
                            q\<lparr>sp_buffer := b, sp_head := nxt\<rparr>)))"

text \<open>
  The blocking pushes: the other threads act on the queue before each access (\<open>env k\<close>
  before access \<open>k\<close>); the status is read a second time only if the first load says
  stopped.
\<close>

partial_function (option) spsc_blocking_push ::
  "size_t \<Rightarrow> 'a \<Rightarrow> (nat \<Rightarrow> 'a spsc \<Rightarrow> 'a spsc) \<Rightarrow> nat \<Rightarrow> 'a spsc \<Rightarrow> ('a spsc, bool) op_result" where
  "spsc_blocking_push sz v env k q =
     (case spsc_try_push sz v (env k q) of
        Inl e \<Rightarrow> Some (Inl e)
      | Inr (ok, q') \<Rightarrow>
          (if ok then Some (Inr (True, q'))
           else if sp_status (env (k + 1) q') = Stopped then
             (if sp_status (env (k + 2) (env (k + 1) q')) = Stopped
              then Some (Inr (False, env (k + 2) (env (k + 1) q')))
              else spsc_blocking_push sz v env (k + 3) (env (k + 2) (env (k + 1) q')))
           else spsc_blocking_push sz v env (k + 2) (env (k + 1) q')))"

partial_function (option) spsc_blocking_push_move ::
  "size_t \<Rightarrow> 'a elem_type \<Rightarrow> 'a \<Rightarrow> (nat \<Rightarrow> 'a spsc \<Rightarrow> 'a spsc) \<Rightarrow> nat \<Rightarrow> 'a spsc \<Rightarrow>
   ('a spsc, bool \<times> 'a) op_result" where
  "spsc_blocking_push_move sz ty v env k q =
     (case spsc_try_push_move sz ty v (env k q) of
        Inl e \<Rightarrow> Some (Inl e)
      | Inr ((ok, v'), q') \<Rightarrow>
          (if ok then Some (Inr ((True, v'), q'))
           else if sp_status (env (k + 1) q') = Stopped then
             (if sp_status (env (k + 2) (env (k + 1) q')) = Stopped
              then Some (Inr ((False, v'), env (k + 2) (env (k + 1) q')))
              else spsc_blocking_push_move sz ty v' env (k + 3) (env (k + 2) (env (k + 1) q')))
           else spsc_blocking_push_move sz ty v' env (k + 2) (env (k + 1) q')))"

text \<open>\<open>try_pop()\<close>\<close>

definition spsc_try_pop ::
  "size_t \<Rightarrow> 'a elem_type \<Rightarrow> 'a spsc \<Rightarrow> fault + 'a option \<times> 'a spsc" where
  "spsc_try_pop sz ty q =
     (let tail = sp_tail q
      in if tail = sp_head q then Inr (None, q)
         else res_bind (take_at (move_constructible ty) ty (unat tail) (sp_buffer q))
                (\<lambda>(v, b). Inr (Some v, q\<lparr>sp_buffer := b, sp_tail := (tail + 1) AND spsc_mask sz\<rparr>)))"

text \<open>\<open>try_pop(T& out)\<close>: the object behind the reference is part of the result.\<close>

definition spsc_try_pop_into ::
  "size_t \<Rightarrow> 'a elem_type \<Rightarrow> 'a \<Rightarrow> 'a spsc \<Rightarrow> fault + (bool \<times> 'a) \<times> 'a spsc" where
  "spsc_try_pop_into sz ty out q =
     (let tail = sp_tail q
      in if tail = sp_head q then Inr ((False, out), q)
         else res_bind (take_at (move_assignable ty) ty (unat tail) (sp_buffer q))
                (\<lambda>(v, b). Inr ((True, v),
                   q\<lparr>sp_buffer := b, sp_tail := (tail + 1) AND spsc_mask sz\<rparr>)))"

definition spsc_blocking_pop ::
  "size_t \<Rightarrow> 'a elem_type \<Rightarrow> (nat \<Rightarrow> 'a spsc \<Rightarrow> 'a spsc) \<Rightarrow> 'a spsc \<Rightarrow> ('a spsc, 'a option) op_result"
  where "spsc_blocking_pop sz ty env q =
    pop_loop (\<lambda>q. Some (spsc_try_pop sz ty q)) spsc_stopped env 0 q"

text \<open>The loop over \<open>try_pop(out)\<close> is the same, the value handed over through \<open>out\<close>.\<close>

definition spsc_blocking_pop_into ::
  "size_t \<Rightarrow> 'a elem_type \<Rightarrow> (nat \<Rightarrow> 'a spsc \<Rightarrow> 'a spsc) \<Rightarrow> 'a \<Rightarrow> 'a spsc \<Rightarrow>
   ('a spsc, bool \<times> 'a) op_result" where
  "spsc_blocking_pop_into sz ty env out q =
     (case pop_loop (\<lambda>q. Some (case spsc_try_pop_into sz ty out q of
                Inl e \<Rightarrow> Inl e
              | Inr ((ok, v), q') \<Rightarrow> Inr (if ok then Some v else None, q')))
              spsc_stopped env 0 q of
        None \<Rightarrow> None
      | Some (Inl e) \<Rightarrow> Some (Inl e)
      | Some (Inr (None, q')) \<Rightarrow> Some (Inr ((False, out), q'))
      | Some (Inr (Some v, q')) \<Rightarrow> Some (Inr ((True, v), q')))"

definition spsc_empty :: "'a spsc \<Rightarrow> bool" where
  "spsc_empty q \<longleftrightarrow> sp_head q = sp_tail q"

definition spsc_full :: "size_t \<Rightarrow> 'a spsc \<Rightarrow> bool" where
  "spsc_full sz q \<longleftrightarrow> (sp_head q + 1) AND spsc_mask sz = sp_tail q"

definition spsc_size :: "size_t \<Rightarrow> 'a spsc \<Rightarrow> size_t" where
  "spsc_size sz q = (sp_head q + sz - sp_tail q) AND spsc_mask sz"

text \<open>The destructor: stop, then pop until empty.\<close>

definition spsc_destroy :: "size_t \<Rightarrow> 'a elem_type \<Rightarrow> 'a spsc \<Rightarrow> (fault + 'a spsc) option" where
  "spsc_destroy sz ty q = drain (\<lambda>q. Some (spsc_try_pop sz ty q)) (spsc_stop q)"

section \<open>The invariant and the list in the queue\<close>

definition spsc_len :: "size_t \<Rightarrow> 'a spsc \<Rightarrow> nat" where
  "spsc_len sz q = ring_len (unat sz) (unat (sp_tail q)) (unat (sp_head q))"

definition spsc_items :: "size_t \<Rightarrow> 'a spsc \<Rightarrow> 'a list" where
  "spsc_items sz q = ring_list (sp_buffer q) (unat (sp_tail q)) (spsc_len sz q)"

definition spsc_inv :: "size_t \<Rightarrow> 'a spsc \<Rightarrow> bool" where
  "spsc_inv sz q \<longleftrightarrow>
     pow2_size sz \<and> length (sp_buffer q) = unat sz \<and>
     unat (sp_head q) < unat sz \<and> unat (sp_tail q) < unat sz \<and>
     ring_occ (sp_buffer q) (unat (sp_tail q)) (spsc_len sz q)"

lemma spsc_inv_init: "pow2_size sz \<Longrightarrow> spsc_inv sz (spsc_init sz)"
  by (simp add: spsc_inv_def spsc_init_def spsc_len_def ring_len_def ring_occ_empty pow2_size_pos)

lemma spsc_items_init: "spsc_items sz (spsc_init sz) = []"
  by (simp add: spsc_items_def spsc_init_def spsc_len_def ring_len_def)

lemma spsc_len_bound: "spsc_inv sz q \<Longrightarrow> spsc_len sz q < unat sz"
  by (simp add: spsc_inv_def spsc_len_def ring_len_less pow2_size_pos)

lemma length_spsc_items [simp]: "length (spsc_items sz q) = spsc_len sz q"
  by (simp add: spsc_items_def)

lemma spsc_next:
  assumes "pow2_size sz"
  shows "unat ((x + 1) AND spsc_mask sz) = Suc (unat x) mod unat sz"
proof -
  have "unat ((x + 1) AND (sz - 1)) = unat (x + 1) mod unat sz"
    using assms by (rule unat_and_mask)
  also have "\<dots> = (unat x + 1) mod unat sz"
    using unat_plus_mod [OF assms, of x 1] by simp
  finally show ?thesis by (simp add: spsc_mask_def)
qed

lemma spsc_empty_iff: "spsc_inv sz q \<Longrightarrow> sp_tail q = sp_head q \<longleftrightarrow> spsc_len sz q = 0"
  unfolding spsc_inv_def spsc_len_def
  by (metis ring_len_0_iff unsigned_word_eqI)

lemma spsc_full_iff:
  assumes "spsc_inv sz q"
  shows "(sp_head q + 1) AND spsc_mask sz = sp_tail q \<longleftrightarrow> Suc (spsc_len sz q) = unat sz"
proof -
  from assms have sz: "pow2_size sz" and h: "unat (sp_head q) < unat sz"
    and t: "unat (sp_tail q) < unat sz" by (auto simp: spsc_inv_def)
  let ?n = "unat sz" and ?t = "unat (sp_tail q)" and ?h = "unat (sp_head q)"
  let ?k = "spsc_len sz q"
  have k: "?k < ?n" using assms by (rule spsc_len_bound)
  have hk: "(?t + ?k) mod ?n = ?h"
    unfolding spsc_len_def using t h by (rule ring_len_end)
  have "(sp_head q + 1) AND spsc_mask sz = sp_tail q \<longleftrightarrow> Suc ?h mod ?n = ?t"
    using spsc_next [OF sz, of "sp_head q"] by (metis unsigned_word_eqI)
  also have "Suc ?h mod ?n = (?t + Suc ?k) mod ?n"
    using hk by (metis add_Suc_right mod_Suc_eq)
  also have "(?t + Suc ?k) mod ?n = ?t \<longleftrightarrow> Suc ?k = ?n"
  proof
    assume *: "(?t + Suc ?k) mod ?n = ?t"
    show "Suc ?k = ?n"
    proof (rule ccontr)
      assume "Suc ?k \<noteq> ?n"
      with k have "Suc ?k < ?n" by simp
      with * t ring_index_inj [of ?t "Suc ?k" ?n 0] show False by simp
    qed
  qed (use t in simp)
  finally show ?thesis .
qed

section \<open>Each operation keeps the invariant and acts on the list\<close>

lemma spsc_try_push_spec:
  assumes "spsc_inv sz q"
  shows "\<exists>q'. spsc_try_push sz v q =
        Inr (\<not> spsc_stopped q \<and> Suc (spsc_len sz q) < unat sz, q') \<and>
      spsc_inv sz q' \<and> sp_status q' = sp_status q \<and>
      spsc_items sz q' = (if \<not> spsc_stopped q \<and> Suc (spsc_len sz q) < unat sz
        then spsc_items sz q @ [v] else spsc_items sz q)"
proof (cases "spsc_stopped q \<or> Suc (spsc_len sz q) = unat sz")
  case True
  with assms spsc_full_iff [OF assms] show ?thesis
    by (auto simp: spsc_try_push_def Let_def)
next
  case False
  from assms have sz: "pow2_size sz" and len: "length (sp_buffer q) = unat sz"
    and h: "unat (sp_head q) < unat sz" and t: "unat (sp_tail q) < unat sz"
    and occ: "ring_occ (sp_buffer q) (unat (sp_tail q)) (spsc_len sz q)"
    by (auto simp: spsc_inv_def)
  let ?n = "unat sz" and ?t = "unat (sp_tail q)" and ?h = "unat (sp_head q)"
  let ?k = "spsc_len sz q" and ?nxt = "(sp_head q + 1) AND spsc_mask sz"
  let ?q' = "q\<lparr>sp_buffer := (sp_buffer q)[?h := Some v], sp_head := ?nxt\<rparr>"
  from False spsc_len_bound [OF assms] have room: "Suc ?k < ?n" by auto
  have hk: "?h = (?t + ?k) mod ?n"
    unfolding spsc_len_def using ring_len_end [OF t h] by simp
  have raw: "sp_buffer q ! ?h = None"
    using ring_occ_free [OF occ] len hk room by simp
  have n: "unat ?nxt = Suc ?h mod ?n" using sz by (rule spsc_next)
  then have nt: "unat ?nxt = (?t + Suc ?k) mod ?n" by (simp add: hk mod_simps)
  have len': "spsc_len sz ?q' = Suc ?k"
    unfolding spsc_len_def using ring_len_eqI [OF room t nt] by (simp add: spsc_len_def)
  have push: "spsc_try_push sz v q = Inr (True, ?q')"
    using False spsc_full_iff [OF assms] len h raw by (simp add: spsc_try_push_def Let_def)
  have "?k < length (sp_buffer q)" and hk': "?h = (?t + ?k) mod length (sp_buffer q)"
    using room len hk by simp_all
  with occ have "ring_occ (sp_buffer ?q') ?t (Suc ?k)"
    using ring_occ_construct by fastforce
  moreover have "unat ?nxt < ?n" using n pow2_size_pos [OF sz] by simp
  ultimately have inv: "spsc_inv sz ?q'"
    unfolding spsc_inv_def len' using sz len t by simp
  have "spsc_items sz ?q' = spsc_items sz q @ [v]"
    unfolding spsc_items_def len'
    using ring_list_construct [OF \<open>?k < length (sp_buffer q)\<close> hk', of v] by simp
  with push inv False room show ?thesis by auto
qed

lemma spsc_try_pop_spec:
  assumes "spsc_inv sz q"
  shows "\<exists>q'. spsc_try_pop sz ty q =
        Inr (if spsc_items sz q = [] then None else Some (hd (spsc_items sz q)), q') \<and>
      spsc_inv sz q' \<and> sp_status q' = sp_status q \<and> spsc_items sz q' = tl (spsc_items sz q)"
proof (cases "spsc_len sz q = 0")
  case True
  then have "spsc_items sz q = []" by (simp add: spsc_items_def)
  with assms True spsc_empty_iff [OF assms] show ?thesis
    by (auto simp: spsc_try_pop_def Let_def)
next
  case False
  from assms have sz: "pow2_size sz" and len: "length (sp_buffer q) = unat sz"
    and h: "unat (sp_head q) < unat sz" and t: "unat (sp_tail q) < unat sz"
    and occ: "ring_occ (sp_buffer q) (unat (sp_tail q)) (spsc_len sz q)"
    by (auto simp: spsc_inv_def)
  let ?n = "unat sz" and ?t = "unat (sp_tail q)" and ?h = "unat (sp_head q)"
  let ?k = "spsc_len sz q" and ?nxt = "(sp_tail q + 1) AND spsc_mask sz"
  let ?q' = "q\<lparr>sp_buffer := (sp_buffer q)[?t := None], sp_tail := ?nxt\<rparr>"
  from False have k0: "0 < ?k" by simp
  have kn: "?k < ?n" using assms by (rule spsc_len_bound)
  from kn len have kl: "?k \<le> length (sp_buffer q)" by simp
  have tl: "?t < length (sp_buffer q)" using t len by simp
  have first: "sp_buffer q ! ?t = Some (hd (spsc_items sz q))"
    unfolding spsc_items_def using occ k0 kl tl by (rule ring_occ_first)
  have ne: "spsc_items sz q \<noteq> []" using False by (metis length_0_conv length_spsc_items)
  have pop: "spsc_try_pop sz ty q = Inr (Some (hd (spsc_items sz q)), ?q')"
    using False spsc_empty_iff [OF assms] tl first by (simp add: spsc_try_pop_def Let_def)
  have n: "unat ?nxt = Suc ?t mod ?n" using sz by (rule spsc_next)
  have hk: "?h = (?t + ?k) mod ?n"
    unfolding spsc_len_def using ring_len_end [OF t h] by simp
  from k0 obtain j where j: "?k = Suc j" by (cases ?k) auto
  have "?h = (unat ?nxt + (?k - 1)) mod ?n"
    unfolding n hk j by (simp add: mod_simps)
  moreover have nn: "unat ?nxt < ?n" using n pow2_size_pos [OF sz] by simp
  moreover have "?k - 1 < ?n" using kn by simp
  ultimately have "ring_len ?n (unat ?nxt) ?h = ?k - 1" by (intro ring_len_eqI)
  then have len': "spsc_len sz ?q' = ?k - 1" by (simp add: spsc_len_def)
  have occ': "ring_occ (sp_buffer ?q') (unat ?nxt) (?k - 1)"
    using ring_occ_destroy [OF occ k0 kl tl] len n by simp
  have inv: "spsc_inv sz ?q'"
    unfolding spsc_inv_def len' using sz len h nn occ' by simp
  have "spsc_items sz ?q' = tl (spsc_items sz q)"
    unfolding spsc_items_def len' using ring_list_destroy [OF k0 kl tl] len n by simp
  with pop inv ne show ?thesis by auto
qed

lemma spsc_status_ops [simp]:
  "spsc_inv sz (spsc_stop q) = spsc_inv sz q" "spsc_items sz (spsc_stop q) = spsc_items sz q"
  "spsc_inv sz (spsc_run q) = spsc_inv sz q" "spsc_items sz (spsc_run q) = spsc_items sz q"
  "sp_status (spsc_stop q) = Stopped" "sp_status (spsc_run q) = Running"
  by (simp_all add: spsc_inv_def spsc_items_def spsc_len_def spsc_stop_def spsc_run_def)

text \<open>The queue meets the contract, with room for one element less than \<open>_size\<close>.\<close>

interpretation sp: bounded_queue "unat sz - 1" "\<lambda>_. spsc_inv sz" "spsc_items sz" spsc_stopped
    "\<lambda>v q. Some (spsc_try_push sz v q)" "\<lambda>q. Some (spsc_try_pop sz ty q)" spsc_stop spsc_run
  for sz :: size_t and ty :: "'a elem_type"
proof unfold_locales
  fix v :: 'a and q :: "'a spsc"
  assume inv: "spsc_inv sz q"
  have "Suc (spsc_len sz q) < unat sz \<longleftrightarrow> spsc_len sz q < unat sz - 1" by auto
  with spsc_try_push_spec [OF inv, of v]
  show "\<exists>q'. Some (spsc_try_push sz v q) =
      Some (Inr (\<not> spsc_stopped q \<and> length (spsc_items sz q) < unat sz - 1, q')) \<and>
      spsc_inv sz q' \<and> spsc_stopped q' = spsc_stopped q \<and>
      spsc_items sz q' = (if \<not> spsc_stopped q \<and> length (spsc_items sz q) < unat sz - 1
        then spsc_items sz q @ [v] else spsc_items sz q)"
    by auto
next
  fix q :: "'a spsc"
  assume "spsc_inv sz q"
  then show "\<exists>q'. Some (spsc_try_pop sz ty q) =
      Some (Inr (if spsc_items sz q = [] then None else Some (hd (spsc_items sz q)), q')) \<and>
      spsc_inv sz q' \<and> spsc_stopped q' = spsc_stopped q \<and> spsc_items sz q' = tl (spsc_items sz q)"
    using spsc_try_pop_spec [of sz q ty] by auto
qed simp_all

section \<open>Lemmas for the properties\<close>

lemma spsc_no_objects:
  assumes "spsc_inv sz q" and "spsc_items sz q = []"
  shows "\<forall>i<unat sz. sp_buffer q ! i = None"
proof (intro allI impI)
  fix i assume i: "i < unat sz"
  from assms(2) have k: "spsc_len sz q = 0" by (metis length_spsc_items list.size(3))
  from assms(1) have len: "length (sp_buffer q) = unat sz" by (simp add: spsc_inv_def)
  obtain j where "j < unat sz" "(unat (sp_tail q) + j) mod unat sz = i"
    using ring_index_surj [OF i] by blast
  with assms(1) k len show "sp_buffer q ! i = None" by (auto simp: spsc_inv_def ring_occ_def)
qed

text \<open>The move overload of a push, over the outcome of the copying one.\<close>

definition with_argument ::
  "'a elem_type \<Rightarrow> 'a \<Rightarrow> fault + bool \<times> 'q \<Rightarrow> fault + (bool \<times> 'a) \<times> 'q" where
  "with_argument ty v r =
     (case r of
        Inl e \<Rightarrow> Inl e
      | Inr (ok, q) \<Rightarrow>
          Inr ((ok, if ok \<and> move_constructible ty then moved_from ty v else v), q))"

lemma spsc_try_push_move_eq:
  "spsc_try_push_move sz ty v q = with_argument ty v (spsc_try_push sz v q)"
  by (cases "construct_at (unat (sp_head q)) v (sp_buffer q)")
    (auto simp: spsc_try_push_move_def spsc_try_push_def with_argument_def Let_def)

lemma spsc_blocking_push_move_le:
  "spsc_blocking_push sz v env k q = Some r \<Longrightarrow>
     spsc_blocking_push_move sz ty v env k q = Some (with_argument ty v r)"
proof (induction rule: spsc_blocking_push.raw_induct [rotated, consumes 1, case_names step])
  case (step f sz v env k q r)
  then show ?case
    by (subst spsc_blocking_push_move.simps)
      (auto simp: spsc_try_push_move_eq with_argument_def split: sum.splits if_splits)
qed

lemma spsc_blocking_push_move_ge:
  "spsc_blocking_push_move sz ty v env k q = Some r \<Longrightarrow>
     \<exists>r'. spsc_blocking_push sz v env k q = Some r'"
proof (induction rule: spsc_blocking_push_move.raw_induct [rotated, consumes 1, case_names step])
  case (step f sz ty v env k q r)
  then show ?case
    by (subst spsc_blocking_push.simps)
      (auto simp: spsc_try_push_move_eq with_argument_def split: sum.splits if_splits)
qed

lemma spsc_blocking_push_move_eq:
  "spsc_blocking_push_move sz ty v env k q =
     map_option (with_argument ty v) (spsc_blocking_push sz v env k q)"
proof (cases "spsc_blocking_push sz v env k q")
  case None
  then show ?thesis using spsc_blocking_push_move_ge [of sz ty v env k q]
    by (cases "spsc_blocking_push_move sz ty v env k q") auto
next
  case (Some r)
  then show ?thesis by (simp add: spsc_blocking_push_move_le)
qed

lemma spsc_try_pop_into_eq:
  "spsc_inv sz q \<Longrightarrow> spsc_try_pop_into sz ty out q =
     (case spsc_try_pop sz ty q of
        Inl e \<Rightarrow> Inl e
      | Inr (None, q') \<Rightarrow> Inr ((False, out), q')
      | Inr (Some v, q') \<Rightarrow> Inr ((True, v), q'))"
proof -
  assume inv: "spsc_inv sz q"
  show ?thesis
  proof (cases "spsc_len sz q = 0")
    case True
    then show ?thesis using spsc_empty_iff [OF inv]
      by (simp add: spsc_try_pop_into_def spsc_try_pop_def)
  next
    case False
    from inv have "unat (sp_tail q) < length (sp_buffer q)" by (simp add: spsc_inv_def)
    moreover have "sp_buffer q ! unat (sp_tail q) = Some (hd (spsc_items sz q))"
      using inv False spsc_len_bound [OF inv] unfolding spsc_items_def
      by (intro ring_occ_first) (auto simp: spsc_inv_def)
    ultimately show ?thesis using False spsc_empty_iff [OF inv]
      by (simp add: spsc_try_pop_into_def spsc_try_pop_def Let_def)
  qed
qed

text \<open>
  A blocking push ends once the other threads leave room in a running queue, or stop it
  for good.
\<close>

lemma spsc_blocking_push_returns_aux:
  assumes env: "\<And>j q. spsc_inv sz q \<Longrightarrow> spsc_inv sz (env j q)"
    and prog: "\<And>j q. m \<le> j \<Longrightarrow> spsc_inv sz q \<Longrightarrow>
      spsc_stopped (env j q) \<or> Suc (spsc_len sz (env j q)) < unat sz"
    and final: "\<And>j q. m \<le> j \<Longrightarrow> spsc_inv sz q \<Longrightarrow> spsc_stopped q \<Longrightarrow> spsc_stopped (env j q)"
    and q: "spsc_inv sz q"
  shows "\<exists>ok q'. spsc_blocking_push sz v env k q = Some (Inr (ok, q')) \<and> spsc_inv sz q'"
  using q
proof (induction "m - k" arbitrary: k q rule: less_induct)
  case less
  have e: "spsc_inv sz (env k q)" using less.prems by (rule env)
  from spsc_try_push_spec [OF e, of v] obtain q' where q':
    "spsc_try_push sz v (env k q) = Inr (\<not> spsc_stopped (env k q) \<and>
       Suc (spsc_len sz (env k q)) < unat sz, q')"
    "spsc_inv sz q'" "sp_status q' = sp_status (env k q)" by blast
  let ?q1 = "env (k + 1) q'" and ?q2 = "env (k + 2) (env (k + 1) q')"
  have i1: "spsc_inv sz ?q1" and i2: "spsc_inv sz ?q2" using q'(2) env by auto
  show ?case
  proof (cases "m \<le> k")
    case True
    with prog [OF True less.prems] final [of "k + 1" q'] final [of "k + 2" ?q1] q' i1 i2
    show ?thesis by (subst spsc_blocking_push.simps) auto
  next
    case False
    then have "m - (k + 2) < m - k" and "m - (k + 3) < m - k" by auto
    with less.hyps [of "k + 2" ?q1] less.hyps [of "k + 3" ?q2] i1 i2 q' show ?thesis
      by (subst spsc_blocking_push.simps) auto
  qed
qed

section \<open>Properties\<close>

text \<open>
  C12: Any sequence of calls of \<open>try_push\<close>, \<open>try_pop\<close>, \<open>stop\<close> and \<open>run\<close> on a new
  queue returns without a fault and has exactly the outcome of a first-in first-out list
  of capacity \<open>_size - 1\<close> that rejects pushes while it is stopped.
\<close>

theorem spsc_implements_fifo:
  fixes ops :: "'a queue_op list"
  assumes "pow2_size sz"
  shows "\<exists>ins outs q'.
    queue_exec (\<lambda>v q. Some (spsc_try_push sz v q)) (\<lambda>q. Some (spsc_try_pop sz ty q))
      spsc_stop spsc_run ops (spsc_init sz) = Some (Inr ((ins, outs), q')) \<and>
    fifo_exec (unat sz - 1) ops ([], False) = ((ins, outs), (spsc_items sz q', spsc_stopped q')) \<and>
    ins = outs @ spsc_items sz q'"
proof -
  have ok: "spsc_inv sz (spsc_init sz :: 'a spsc)" using assms by (rule spsc_inv_init)
  from sp.exec_refines [OF ok le_refl, where ops = ops and ty = ty] obtain ins outs q' where r:
    "queue_exec (\<lambda>v q. Some (spsc_try_push sz v q)) (\<lambda>q. Some (spsc_try_pop sz ty q))
       spsc_stop spsc_run ops (spsc_init sz) = Some (Inr ((ins, outs), q'))"
    "fifo_exec (unat sz - 1) ops (spsc_items sz (spsc_init sz), spsc_stopped (spsc_init sz :: 'a spsc)) =
       ((ins, outs), (spsc_items sz q', spsc_stopped q'))"
    by (elim exE conjE) (rule that)
  have "\<not> spsc_stopped (spsc_init sz :: 'a spsc)" by (simp add: spsc_init_def)
  with r fifo_exec_conserves [OF r(2)] show ?thesis by (simp add: spsc_items_init)
qed

theorem spsc_implements_fifo_witness:
  "\<exists>ins outs q'.
    queue_exec (\<lambda>v q. Some (spsc_try_push 4 v q)) (\<lambda>q. Some (spsc_try_pop 4 nat_elem q))
      spsc_stop spsc_run [Push 1, Push 2, Push 3, Push (4::nat), Pop, Halt, Push 5]
      (spsc_init 4) = Some (Inr ((ins, outs), q')) \<and>
    ins = [1, 2, 3] \<and> outs = [1] \<and> ins = outs @ spsc_items 4 q'"
proof -
  have "pow2_size 4" unfolding pow2_size_def by (rule exI [of _ 2]) simp
  from spsc_implements_fifo [OF this, where ops = "[Push 1, Push 2, Push 3, Push (4::nat), Pop, Halt, Push 5]"
      and ty = nat_elem]
  show ?thesis by auto
qed

text \<open>
  \<open>size()\<close>, \<open>empty()\<close> and \<open>full()\<close> of a queue at rest report the number of
  elements exactly; the queue is full at \<open>_size - 1\<close> elements, one less than \<open>_size\<close>.
\<close>

lemma spsc_observers_exact:
  assumes "spsc_inv sz q"
  shows "unat (spsc_size sz q) = length (spsc_items sz q) \<and>
    (spsc_empty q \<longleftrightarrow> spsc_items sz q = []) \<and>
    (spsc_full sz q \<longleftrightarrow> length (spsc_items sz q) = unat sz - 1)"
proof (intro conjI)
  from assms have sz: "pow2_size sz" and h: "unat (sp_head q) < unat sz"
    and t: "unat (sp_tail q) < unat sz" by (auto simp: spsc_inv_def)
  have "unat (sp_head q + sz) = unat (sp_head q) + unat sz"
    using h pow2_size_max [OF sz] by (intro unat_plus_bounded) simp
  moreover from this have "unat (sp_head q + sz - sp_tail q) = unat (sp_head q + sz) - unat (sp_tail q)"
    using t by (intro unat_minus_bounded) simp
  ultimately show "unat (spsc_size sz q) = length (spsc_items sz q)"
    using unat_and_mask [OF sz, of "sp_head q + sz - sp_tail q"]
    by (simp add: spsc_size_def spsc_mask_def spsc_len_def ring_len_def)
  show "spsc_empty q \<longleftrightarrow> spsc_items sz q = []"
    using spsc_empty_iff [OF assms] length_spsc_items [of sz q]
    by (auto simp: spsc_empty_def simp del: length_spsc_items)
  show "spsc_full sz q \<longleftrightarrow> length (spsc_items sz q) = unat sz - 1"
    using spsc_full_iff [OF assms] pow2_size_pos [OF sz] by (auto simp: spsc_full_def)
qed

lemma spsc_observers_exact_example:
  "let q = \<lparr>sp_buffer = [Some (7::nat), None], sp_head = 1, sp_tail = 0, sp_status = Running\<rparr>
   in spsc_full 2 q \<and> unat (spsc_size 2 q) = 1 \<and> \<not> spsc_empty q"
proof -
  let ?q = "\<lparr>sp_buffer = [Some (7::nat), None], sp_head = 1, sp_tail = 0, sp_status = Running\<rparr>"
  have "pow2_size 2" unfolding pow2_size_def by (rule exI [of _ 1]) simp
  then have inv: "spsc_inv 2 ?q"
    by (auto simp: spsc_inv_def spsc_len_def ring_len_def ring_occ_def less_Suc_eq)
  have len: "length (spsc_items 2 ?q) = 1" by (simp add: spsc_len_def ring_len_def)
  then have "spsc_items 2 ?q \<noteq> []" by (metis list.size(3) zero_neq_one)
  moreover have "unat (2 :: size_t) - 1 = 1" by simp
  ultimately show ?thesis
    unfolding Let_def using spsc_observers_exact [OF inv] len by metis
qed

text \<open>
  The move overloads leave the queue as the copying ones do, whatever the other threads
  do meanwhile: the value that enters the queue is the one passed in, the caller's object is
  moved from exactly when the push succeeds, and a failed or stopped push leaves it intact.
\<close>

lemma spsc_push_move_intact:
  "spsc_try_push_move sz ty v q = with_argument ty v (spsc_try_push sz v q) \<and>
   spsc_blocking_push_move sz ty v env k q =
     map_option (with_argument ty v) (spsc_blocking_push sz v env k q)"
  by (simp add: spsc_try_push_move_eq spsc_blocking_push_move_eq)

text \<open>
  A blocking push on a well-formed queue returns, without a fault, once the other
  threads from some access on leave room or have stopped the queue for good.
\<close>

lemma spsc_blocking_push_returns:
  assumes "spsc_inv sz q"
    and "\<And>j q. spsc_inv sz q \<Longrightarrow> spsc_inv sz (env j q)"
    and "\<And>j q. m \<le> j \<Longrightarrow> spsc_inv sz q \<Longrightarrow>
      spsc_stopped (env j q) \<or> length (spsc_items sz (env j q)) < unat sz - 1"
    and "\<And>j q. m \<le> j \<Longrightarrow> spsc_inv sz q \<Longrightarrow> spsc_stopped q \<Longrightarrow> spsc_stopped (env j q)"
  shows "\<exists>ok q'. spsc_blocking_push sz v env 0 q = Some (Inr (ok, q')) \<and> spsc_inv sz q'"
proof (rule spsc_blocking_push_returns_aux [where m = m])
  fix j and q :: "'a spsc" assume "m \<le> j" "spsc_inv sz q"
  with assms(3) [of j q] show "spsc_stopped (env j q) \<or> Suc (spsc_len sz (env j q)) < unat sz"
    by auto
qed (use assms in auto)

text \<open>The queue is full; another thread stops it before the push's second access.\<close>

lemma spsc_blocking_push_returns_example:
  "\<exists>ok q'. spsc_blocking_push 1 (5::nat) (\<lambda>j q. if 1 \<le> j then spsc_stop q else q) 0 (spsc_init 1) =
     Some (Inr (ok, q')) \<and> spsc_inv 1 q'"
proof -
  have "pow2_size 1" unfolding pow2_size_def by (rule exI [of _ 0]) simp
  then have "spsc_inv 1 (spsc_init 1)" by (rule spsc_inv_init)
  then show ?thesis
    by (rule spsc_blocking_push_returns [where m = 1]) (simp_all split: if_splits)
qed

text \<open>
  The destructor ends, without a fault, and leaves no live object in the buffer.
\<close>

lemma spsc_destroy_frees_all:
  assumes "spsc_inv sz q"
  shows "\<exists>q'. spsc_destroy sz ty q = Some (Inr q') \<and> (\<forall>i<unat sz. sp_buffer q' ! i = None)"
proof -
  have "spsc_inv sz (spsc_stop q)" using assms by simp
  from sp.drain_empties [OF this, where ty = ty] obtain q' where
    "spsc_destroy sz ty q = Some (Inr q')" "spsc_inv sz q'" "spsc_items sz q' = []"
    unfolding spsc_destroy_def by blast
  with spsc_no_objects show ?thesis by blast
qed

lemma spsc_destroy_frees_all_example:
  "\<exists>q'. spsc_destroy 4 nat_elem (spsc_init 4) = Some (Inr q') \<and>
     (\<forall>i<4. sp_buffer q' ! i = None)"
proof -
  have "pow2_size 4" unfolding pow2_size_def by (rule exI [of _ 2]) simp
  then have "spsc_inv 4 (spsc_init 4 :: nat spsc)" by (rule spsc_inv_init)
  from spsc_destroy_frees_all [OF this, of nat_elem] show ?thesis by simp
qed

end
