(* ===== verification/SpscConcurrent.thy ===== *)
theory SpscConcurrent
  imports SpscQueue
begin

text \<open>
  One producer and one consumer on a \<open>BoundedSPSCQueue\<close>, with any other thread calling
  \<open>stop()\<close> and \<open>run()\<close>. A step is one access to shared memory.

  Loads need not return the latest value: an atomic location has a history of the values
  stored to it, a load returns any value that is not older than what the thread has seen
  of that location (coherence), and an acquire load of a release store orders everything
  before the store before everything after the load. The slots of the buffer are not
  atomic: an access that is not ordered after the last access of the other thread to the
  same slot is a data race, hence a fault.
\<close>

section \<open>Threads and state\<close>

text \<open>
  A program counter names the next access. The flag tells a call of \<open>blocking_push\<close>
  (\<open>blocking_pop\<close>) from a call of \<open>try_push\<close> (\<open>try_pop\<close>).
\<close>

datatype 'a prod_pc =
    P_Idle
  | P_Status 'a bool                \<comment> \<open>load \<open>_status\<close> in \<open>try_push\<close>\<close>
  | P_Head 'a bool                  \<comment> \<open>load \<open>_head\<close>\<close>
  | P_Tail 'a bool size_t size_t    \<comment> \<open>load \<open>_tail\<close>, having \<open>head\<close> and \<open>next\<close>\<close>
  | P_Build 'a bool size_t size_t   \<comment> \<open>build the object in \<open>_buffer[head]\<close>\<close>
  | P_Publish 'a bool size_t        \<comment> \<open>store \<open>next\<close> to \<open>_head\<close>\<close>
  | P_Check1 'a                     \<comment> \<open>first load of \<open>_status\<close> in \<open>blocking_push\<close>\<close>
  | P_Check2 'a                     \<comment> \<open>second load\<close>

datatype 'a cons_pc =
    C_Idle
  | C_Tail bool                     \<comment> \<open>load \<open>_tail\<close>\<close>
  | C_Head bool size_t              \<comment> \<open>load \<open>_head\<close>, having \<open>tail\<close>\<close>
  | C_Read bool size_t              \<comment> \<open>move the object out of \<open>_buffer[tail]\<close>\<close>
  | C_Destroy bool size_t 'a        \<comment> \<open>destroy it\<close>
  | C_Publish bool size_t 'a        \<comment> \<open>store \<open>tail + 1\<close> to \<open>_tail\<close>\<close>
  | C_Check1                        \<comment> \<open>first load of \<open>_status\<close> in \<open>blocking_pop\<close>\<close>
  | C_Check2                        \<comment> \<open>second load\<close>

text \<open>
  \<open>sq\<close> is the queue with the latest value of every location. \<open>pushed\<close> and \<open>popped\<close> are
  the values published by head and tail stores so far: \<open>_head\<close> has had
  \<open>length pushed + 1\<close> values and \<open>_tail\<close> \<open>length popped + 1\<close>. \<open>stats\<close> is the history of
  \<open>_status\<close>. The views count what a thread has seen of a location it does not write.
\<close>

record 'a spsc_sys =
  sq :: "'a spsc"
  pushed :: "'a list"
  popped :: "'a list"
  stats :: "queue_status list"
  prod_tail :: nat
  prod_stat :: nat
  cons_head :: nat
  cons_stat :: nat
  prod :: "'a prod_pc"
  cons :: "'a cons_pc"
  prod_ret :: "bool option"
  cons_ret :: "'a option option"
  spsc_fault :: "fault option"

text \<open>The value of an index that has been stored to \<open>i\<close> times.\<close>

definition ring_pos :: "size_t \<Rightarrow> nat \<Rightarrow> size_t" where
  "ring_pos sz i = of_nat (i mod unat sz)"

section \<open>Steps of the producer\<close>

definition prod_return :: "bool \<Rightarrow> 'a spsc_sys \<Rightarrow> 'a spsc_sys" where
  "prod_return ok s = s\<lparr>prod := P_Idle, prod_ret := Some ok\<rparr>"

text \<open>A failed \<open>try_push\<close> returns, or goes on to the checks of \<open>blocking_push\<close>.\<close>

definition prod_failed :: "'a \<Rightarrow> bool \<Rightarrow> 'a spsc_sys \<Rightarrow> 'a spsc_sys" where
  "prod_failed v blocking s =
     (if blocking then s\<lparr>prod := P_Check1 v\<rparr> else prod_return False s)"

text \<open>
  \<open>c\<close> is the choice of the value a load returns: a position in the history of the
  location, from what the thread has seen of it on.
\<close>

definition spsc_push_step :: "size_t \<Rightarrow> nat \<Rightarrow> 'a spsc_sys \<Rightarrow> 'a spsc_sys option" where
  "spsc_push_step sz c s =
     (case prod s of
        P_Status v b \<Rightarrow>
          if prod_stat s \<le> c \<and> c < length (stats s) then
            Some (if stats s ! c = Stopped then prod_failed v b (s\<lparr>prod_stat := c\<rparr>)
                  else s\<lparr>prod_stat := c, prod := P_Head v b\<rparr>)
          else None
      | P_Head v b \<Rightarrow>
          let head = sp_head (sq s)
          in Some (s\<lparr>prod := P_Tail v b head ((head + 1) AND spsc_mask sz)\<rparr>)
      | P_Tail v b head nxt \<Rightarrow>
          if prod_tail s \<le> c \<and> c \<le> length (popped s) then
            Some (if nxt = ring_pos sz c then prod_failed v b (s\<lparr>prod_tail := c\<rparr>)
                  else s\<lparr>prod_tail := c, prod := P_Build v b head nxt\<rparr>)
          else None
      | P_Build v b head nxt \<Rightarrow>
          if prod_tail s + unat sz \<le> length (pushed s) then Some (s\<lparr>spsc_fault := Some DataRace\<rparr>)
          else (case construct_at (unat head) v (sp_buffer (sq s)) of
              Inl e \<Rightarrow> Some (s\<lparr>spsc_fault := Some e\<rparr>)
            | Inr buf \<Rightarrow> Some (s\<lparr>sq := (sq s)\<lparr>sp_buffer := buf\<rparr>, prod := P_Publish v b nxt\<rparr>))
      | P_Publish v b nxt \<Rightarrow>
          Some (prod_return True (s\<lparr>sq := (sq s)\<lparr>sp_head := nxt\<rparr>, pushed := pushed s @ [v]\<rparr>))
      | _ \<Rightarrow> None)"

definition spsc_push_check_step :: "nat \<Rightarrow> 'a spsc_sys \<Rightarrow> 'a spsc_sys option" where
  "spsc_push_check_step c s =
     (if prod_stat s \<le> c \<and> c < length (stats s) then
        (case prod s of
           P_Check1 v \<Rightarrow>
             Some (s\<lparr>prod_stat := c,
                     prod := if stats s ! c = Stopped then P_Check2 v else P_Status v True\<rparr>)
         | P_Check2 v \<Rightarrow>
             Some (if stats s ! c = Stopped then prod_return False (s\<lparr>prod_stat := c\<rparr>)
                   else s\<lparr>prod_stat := c, prod := P_Status v True\<rparr>)
         | _ \<Rightarrow> None)
      else None)"

section \<open>Steps of the consumer\<close>

definition cons_return :: "'a option \<Rightarrow> 'a spsc_sys \<Rightarrow> 'a spsc_sys" where
  "cons_return r s = s\<lparr>cons := C_Idle, cons_ret := Some r\<rparr>"

definition spsc_pop_step :: "size_t \<Rightarrow> 'a elem_type \<Rightarrow> nat \<Rightarrow> 'a spsc_sys \<Rightarrow> 'a spsc_sys option" where
  "spsc_pop_step sz ty c s =
     (case cons s of
        C_Tail b \<Rightarrow> Some (s\<lparr>cons := C_Head b (sp_tail (sq s))\<rparr>)
      | C_Head b tail \<Rightarrow>
          if cons_head s \<le> c \<and> c \<le> length (pushed s) then
            Some (if tail = ring_pos sz c
                  then if b then s\<lparr>cons_head := c, cons := C_Check1\<rparr>
                       else cons_return None (s\<lparr>cons_head := c\<rparr>)
                  else s\<lparr>cons_head := c, cons := C_Read b tail\<rparr>)
          else None
      | C_Read b tail \<Rightarrow>
          if cons_head s \<le> length (popped s) then Some (s\<lparr>spsc_fault := Some DataRace\<rparr>)
          else (case (if move_constructible ty then move_at ty (unat tail) (sp_buffer (sq s))
                      else copy_at (unat tail) (sp_buffer (sq s))) of
              Inl e \<Rightarrow> Some (s\<lparr>spsc_fault := Some e\<rparr>)
            | Inr (v, buf) \<Rightarrow>
                Some (s\<lparr>sq := (sq s)\<lparr>sp_buffer := buf\<rparr>, cons := C_Destroy b tail v\<rparr>))
      | C_Destroy b tail v \<Rightarrow>
          (case destroy_at (unat tail) (sp_buffer (sq s)) of
              Inl e \<Rightarrow> Some (s\<lparr>spsc_fault := Some e\<rparr>)
            | Inr buf \<Rightarrow>
                Some (s\<lparr>sq := (sq s)\<lparr>sp_buffer := buf\<rparr>, cons := C_Publish b tail v\<rparr>))
      | C_Publish b tail v \<Rightarrow>
          Some (cons_return (Some v) (s\<lparr>sq := (sq s)\<lparr>sp_tail := (tail + 1) AND spsc_mask sz\<rparr>,
                                        popped := popped s @ [v]\<rparr>))
      | _ \<Rightarrow> None)"

definition spsc_pop_check_step :: "nat \<Rightarrow> 'a spsc_sys \<Rightarrow> 'a spsc_sys option" where
  "spsc_pop_check_step c s =
     (if cons_stat s \<le> c \<and> c < length (stats s) then
        (case cons s of
           C_Check1 \<Rightarrow>
             Some (s\<lparr>cons_stat := c, cons := if stats s ! c = Stopped then C_Check2 else C_Tail True\<rparr>)
         | C_Check2 \<Rightarrow>
             Some (if stats s ! c = Stopped then cons_return None (s\<lparr>cons_stat := c\<rparr>)
                   else s\<lparr>cons_stat := c, cons := C_Tail True\<rparr>)
         | _ \<Rightarrow> None)
      else None)"

section \<open>The system\<close>

datatype 'a spsc_action =
    CallPush 'a bool
  | CallPop bool
  | ProdStep nat
  | ConsStep nat
  | CallStop
  | CallRun

definition spsc_act ::
  "size_t \<Rightarrow> 'a elem_type \<Rightarrow> 'a spsc_action \<Rightarrow> 'a spsc_sys \<Rightarrow> 'a spsc_sys option" where
  "spsc_act sz ty a s =
     (if spsc_fault s \<noteq> None then None
      else case a of
          CallPush v b \<Rightarrow>
            if prod s = P_Idle then Some (s\<lparr>prod := P_Status v b, prod_ret := None\<rparr>) else None
        | CallPop b \<Rightarrow>
            if cons s = C_Idle then Some (s\<lparr>cons := C_Tail b, cons_ret := None\<rparr>) else None
        | ProdStep c \<Rightarrow>
            (case prod s of
               P_Check1 v \<Rightarrow> spsc_push_check_step c s
             | P_Check2 v \<Rightarrow> spsc_push_check_step c s
             | _ \<Rightarrow> spsc_push_step sz c s)
        | ConsStep c \<Rightarrow>
            (case cons s of
               C_Check1 \<Rightarrow> spsc_pop_check_step c s
             | C_Check2 \<Rightarrow> spsc_pop_check_step c s
             | _ \<Rightarrow> spsc_pop_step sz ty c s)
        | CallStop \<Rightarrow> Some (s\<lparr>sq := spsc_stop (sq s), stats := stats s @ [Stopped]\<rparr>)
        | CallRun \<Rightarrow> Some (s\<lparr>sq := spsc_run (sq s), stats := stats s @ [Running]\<rparr>))"

inductive spsc_step :: "size_t \<Rightarrow> 'a elem_type \<Rightarrow> 'a spsc_sys \<Rightarrow> 'a spsc_sys \<Rightarrow> bool"
  for sz :: size_t and ty :: "'a elem_type" where
  "spsc_act sz ty a s = Some t \<Longrightarrow> spsc_step sz ty s t"

inductive_simps spsc_step_iff: "spsc_step sz ty s t"

definition spsc_sys_init :: "size_t \<Rightarrow> 'a spsc_sys" where
  "spsc_sys_init sz =
     \<lparr>sq = spsc_init sz, pushed = [], popped = [], stats = [Running], prod_tail = 0, prod_stat = 0,
      cons_head = 0, cons_stat = 0, prod = P_Idle, cons = C_Idle, prod_ret = None, cons_ret = None,
      spsc_fault = None\<rparr>"

abbreviation spsc_reach :: "size_t \<Rightarrow> 'a elem_type \<Rightarrow> 'a spsc_sys \<Rightarrow> bool" where
  "spsc_reach sz ty \<equiv> reach (\<lambda>s. s = spsc_sys_init sz) (spsc_step sz ty)"

text \<open>A schedule, executed.\<close>

fun spsc_sched ::
  "size_t \<Rightarrow> 'a elem_type \<Rightarrow> 'a spsc_action list \<Rightarrow> 'a spsc_sys \<Rightarrow> 'a spsc_sys option" where
  "spsc_sched sz ty [] s = Some s"
| "spsc_sched sz ty (a # as) s =
     (case spsc_act sz ty a s of None \<Rightarrow> None | Some t \<Rightarrow> spsc_sched sz ty as t)"

lemma spsc_sched_reach:
  "spsc_reach sz ty s \<Longrightarrow> spsc_sched sz ty as s = Some t \<Longrightarrow> spsc_reach sz ty t"
proof (induction as arbitrary: s)
  case (Cons a as)
  from Cons.prems(2) obtain u where u: "spsc_act sz ty a s = Some u"
    "spsc_sched sz ty as u = Some t" by (auto split: option.splits)
  from u(1) have "spsc_step sz ty s u" by (rule spsc_step.intros)
  with Cons.prems(1) have "spsc_reach sz ty u" by (rule reach.reach_step)
  then show ?case using u(2) by (rule Cons.IH)
qed simp

section \<open>Positions\<close>

lemma unat_ring_pos: "pow2_size sz \<Longrightarrow> unat (ring_pos sz i) = i mod unat sz"
proof -
  assume sz: "pow2_size sz"
  then have "i mod unat sz < unat sz" using pow2_size_pos by simp
  moreover have "unat sz < 2 ^ LENGTH(64)" by (rule unsigned_less)
  ultimately have "i mod unat sz < 2 ^ LENGTH(64)" by (rule less_trans)
  then show ?thesis by (simp only: ring_pos_def unat_of_nat mod_less)
qed

lemma ring_pos_next: "pow2_size sz \<Longrightarrow> (ring_pos sz i + 1) AND spsc_mask sz = ring_pos sz (Suc i)"
proof -
  assume sz: "pow2_size sz"
  then have "unat ((ring_pos sz i + 1) AND spsc_mask sz) = unat (ring_pos sz (Suc i))"
    by (simp add: spsc_next unat_ring_pos mod_Suc_eq)
  then show ?thesis by (rule unsigned_word_eqI)
qed

lemma ring_pos_eq:
  assumes "pow2_size sz" and "i \<le> j" and "j < i + unat sz"
  shows "ring_pos sz i = ring_pos sz j \<longleftrightarrow> i = j"
proof
  assume "ring_pos sz i = ring_pos sz j"
  then have "i mod unat sz = j mod unat sz"
    using unat_ring_pos [OF assms(1)] by metis
  with assms(2,3) show "i = j" by (intro window_mod_inj [of i "unat sz" j i]) auto
qed simp

lemma ring_pos_eq_wrap:
  assumes "pow2_size sz" and "i < j" and "j \<le> i + unat sz"
  shows "ring_pos sz j = ring_pos sz i \<longleftrightarrow> j = i + unat sz"
proof (cases "j = i + unat sz")
  case True
  then show ?thesis by (simp add: ring_pos_def)
next
  case False
  with assms ring_pos_eq [of sz i j] show ?thesis by auto
qed

section \<open>The invariant\<close>

text \<open>
  What slot \<open>p mod _size\<close> holds, for a position \<open>p\<close> from the tail on: the object a
  producer has built but not published yet, and the object a consumer is taking, depend on
  how far their calls are.
\<close>

fun built :: "'a prod_pc \<Rightarrow> 'a option" where
  "built (P_Publish v b nxt) = Some v"
| "built _ = None"

fun phase :: "'a cons_pc \<Rightarrow> slot_phase" where
  "phase (C_Destroy b tail v) = Moved"
| "phase (C_Publish b tail v) = Gone"
| "phase _ = Whole"

definition slot_ok :: "'a spsc_sys \<Rightarrow> nat \<Rightarrow> 'a option \<Rightarrow> bool" where
  "slot_ok s p x \<longleftrightarrow>
     (if p < length (pushed s) then
        (if p = length (popped s) then slot_in_phase (phase (cons s)) (pushed s ! p) x
         else x = Some (pushed s ! p))
      else x = (if p = length (pushed s) then built (prod s) else None))"

definition slots_ok :: "size_t \<Rightarrow> 'a spsc_sys \<Rightarrow> bool" where
  "slots_ok sz s \<longleftrightarrow>
     (\<forall>p. length (popped s) \<le> p \<and> p < length (popped s) + unat sz \<longrightarrow>
        slot_ok s p (sp_buffer (sq s) ! (p mod unat sz)))"

definition shape_ok :: "size_t \<Rightarrow> 'a spsc_sys \<Rightarrow> bool" where
  "shape_ok sz s \<longleftrightarrow>
     pow2_size sz \<and> spsc_fault s = None \<and> length (sp_buffer (sq s)) = unat sz \<and>
     sp_head (sq s) = ring_pos sz (length (pushed s)) \<and>
     sp_tail (sq s) = ring_pos sz (length (popped s)) \<and>
     stats s \<noteq> [] \<and> last (stats s) = sp_status (sq s) \<and>
     prod_stat s < length (stats s) \<and> cons_stat s < length (stats s)"

definition views_ok :: "size_t \<Rightarrow> 'a spsc_sys \<Rightarrow> bool" where
  "views_ok sz s \<longleftrightarrow>
     prod_tail s \<le> length (popped s) \<and> length (popped s) \<le> cons_head s \<and>
     cons_head s \<le> length (pushed s) \<and> length (pushed s) < prod_tail s + unat sz \<and>
     popped s = take (length (popped s)) (pushed s)"

definition prod_ok :: "size_t \<Rightarrow> 'a spsc_sys \<Rightarrow> bool" where
  "prod_ok sz s \<longleftrightarrow>
     (case prod s of
        P_Tail v b head nxt \<Rightarrow>
          head = ring_pos sz (length (pushed s)) \<and> nxt = ring_pos sz (Suc (length (pushed s)))
      | P_Build v b head nxt \<Rightarrow>
          head = ring_pos sz (length (pushed s)) \<and> nxt = ring_pos sz (Suc (length (pushed s))) \<and>
          Suc (length (pushed s)) < prod_tail s + unat sz
      | P_Publish v b nxt \<Rightarrow>
          nxt = ring_pos sz (Suc (length (pushed s))) \<and>
          Suc (length (pushed s)) < prod_tail s + unat sz
      | _ \<Rightarrow> True)"

definition cons_ok :: "size_t \<Rightarrow> 'a spsc_sys \<Rightarrow> bool" where
  "cons_ok sz s \<longleftrightarrow>
     (case cons s of
        C_Head b tail \<Rightarrow> tail = ring_pos sz (length (popped s))
      | C_Read b tail \<Rightarrow>
          tail = ring_pos sz (length (popped s)) \<and> length (popped s) < cons_head s
      | C_Destroy b tail v \<Rightarrow>
          tail = ring_pos sz (length (popped s)) \<and> length (popped s) < cons_head s \<and>
          v = pushed s ! length (popped s)
      | C_Publish b tail v \<Rightarrow>
          tail = ring_pos sz (length (popped s)) \<and> length (popped s) < cons_head s \<and>
          v = pushed s ! length (popped s)
      | _ \<Rightarrow> True)"

definition spsc_sys_inv :: "size_t \<Rightarrow> 'a spsc_sys \<Rightarrow> bool" where
  "spsc_sys_inv sz s \<longleftrightarrow>
     shape_ok sz s \<and> views_ok sz s \<and> prod_ok sz s \<and> cons_ok sz s \<and> slots_ok sz s"

lemmas spsc_inv_defs = shape_ok_def views_ok_def prod_ok_def cons_ok_def

lemma slots_okD:
  "slots_ok sz s \<Longrightarrow> length (popped s) \<le> p \<Longrightarrow> p < length (popped s) + unat sz \<Longrightarrow>
     slot_ok s p (sp_buffer (sq s) ! (p mod unat sz))"
  by (simp add: slots_ok_def)

text \<open>Writing a slot of the window changes that slot alone.\<close>

lemma slots_ok_update:
  assumes "slots_ok sz s"
    and "length (popped s) \<le> p" and "p < length (popped s) + unat sz"
    and "length (sp_buffer (sq s)) = unat sz"
    and "sp_buffer (sq t) = (sp_buffer (sq s))[p mod unat sz := x]"
    and "popped t = popped s"
    and "slot_ok t p x"
    and "\<And>q y. q \<noteq> p \<Longrightarrow> slot_ok s q y \<Longrightarrow> slot_ok t q y"
  shows "slots_ok sz t"
  unfolding slots_ok_def
proof (intro allI impI)
  fix q assume "length (popped t) \<le> q \<and> q < length (popped t) + unat sz"
  then have q: "length (popped s) \<le> q" "q < length (popped s) + unat sz"
    using assms(6) by simp_all
  have pl: "p mod unat sz < length (sp_buffer (sq s))"
    using assms(2-4) by (metis add.commute add_less_cancel_left le_add2 le_less_trans less_imp_neq
        mod_less_divisor nat_less_le not_gr_zero add.right_neutral not_le)
  show "slot_ok t q (sp_buffer (sq t) ! (q mod unat sz))"
  proof (cases "q = p")
    case True
    with pl assms(5,7) show ?thesis by simp
  next
    case False
    with q assms(2,3) have "q mod unat sz \<noteq> p mod unat sz"
      using window_mod_inj by blast
    then have "sp_buffer (sq t) ! (q mod unat sz) = sp_buffer (sq s) ! (q mod unat sz)"
      using assms(5) by simp
    with slots_okD [OF assms(1) q] False assms(8) show ?thesis by simp
  qed
qed

lemma slots_ok_frame:
  assumes "slots_ok sz s" and "sp_buffer (sq t) = sp_buffer (sq s)" and "popped t = popped s"
    and "pushed t = pushed s" and "built (prod t) = built (prod s)" and "phase (cons t) = phase (cons s)"
  shows "slots_ok sz t"
  using assms by (simp add: slots_ok_def slot_ok_def)

text \<open>Which fields the parts of the invariant read.\<close>

lemma slots_ok_simps [simp]:
  "slots_ok sz (s\<lparr>prod_tail := c\<rparr>) = slots_ok sz s"
  "slots_ok sz (s\<lparr>prod_stat := c\<rparr>) = slots_ok sz s"
  "slots_ok sz (s\<lparr>cons_head := c\<rparr>) = slots_ok sz s"
  "slots_ok sz (s\<lparr>cons_stat := c\<rparr>) = slots_ok sz s"
  "slots_ok sz (s\<lparr>stats := h\<rparr>) = slots_ok sz s"
  "slots_ok sz (s\<lparr>prod_ret := r\<rparr>) = slots_ok sz s"
  "slots_ok sz (s\<lparr>cons_ret := r'\<rparr>) = slots_ok sz s"
  "built p = built (prod s) \<Longrightarrow> slots_ok sz (s\<lparr>prod := p\<rparr>) = slots_ok sz s"
  "phase k = phase (cons s) \<Longrightarrow> slots_ok sz (s\<lparr>cons := k\<rparr>) = slots_ok sz s"
  "sp_buffer q = sp_buffer (sq s) \<Longrightarrow> slots_ok sz (s\<lparr>sq := q\<rparr>) = slots_ok sz s"
  by (simp_all add: slots_ok_def slot_ok_def)

lemma shape_ok_simps [simp]:
  "shape_ok sz (s\<lparr>prod_tail := c\<rparr>) = shape_ok sz s"
  "shape_ok sz (s\<lparr>cons_head := c\<rparr>) = shape_ok sz s"
  "shape_ok sz (s\<lparr>prod_ret := r\<rparr>) = shape_ok sz s"
  "shape_ok sz (s\<lparr>cons_ret := r'\<rparr>) = shape_ok sz s"
  "shape_ok sz (s\<lparr>prod := p\<rparr>) = shape_ok sz s"
  "shape_ok sz (s\<lparr>cons := k\<rparr>) = shape_ok sz s"
  "c < length (stats s) \<Longrightarrow> shape_ok sz s \<Longrightarrow> shape_ok sz (s\<lparr>prod_stat := c\<rparr>)"
  "c < length (stats s) \<Longrightarrow> shape_ok sz s \<Longrightarrow> shape_ok sz (s\<lparr>cons_stat := c\<rparr>)"
  by (simp_all add: shape_ok_def)

lemma views_ok_simps [simp]:
  "views_ok sz (s\<lparr>prod_stat := c\<rparr>) = views_ok sz s"
  "views_ok sz (s\<lparr>cons_stat := c\<rparr>) = views_ok sz s"
  "views_ok sz (s\<lparr>stats := h\<rparr>) = views_ok sz s"
  "views_ok sz (s\<lparr>prod_ret := r\<rparr>) = views_ok sz s"
  "views_ok sz (s\<lparr>cons_ret := r'\<rparr>) = views_ok sz s"
  "views_ok sz (s\<lparr>prod := p\<rparr>) = views_ok sz s"
  "views_ok sz (s\<lparr>cons := k\<rparr>) = views_ok sz s"
  "views_ok sz (s\<lparr>sq := q\<rparr>) = views_ok sz s"
  by (simp_all add: views_ok_def)

lemma prod_ok_simps [simp]:
  "prod_ok sz (s\<lparr>prod_stat := c\<rparr>) = prod_ok sz s"
  "prod_ok sz (s\<lparr>cons_head := c\<rparr>) = prod_ok sz s"
  "prod_ok sz (s\<lparr>cons_stat := c\<rparr>) = prod_ok sz s"
  "prod_ok sz (s\<lparr>stats := h\<rparr>) = prod_ok sz s"
  "prod_ok sz (s\<lparr>prod_ret := r\<rparr>) = prod_ok sz s"
  "prod_ok sz (s\<lparr>cons_ret := r'\<rparr>) = prod_ok sz s"
  "prod_ok sz (s\<lparr>cons := k\<rparr>) = prod_ok sz s"
  "prod_ok sz (s\<lparr>sq := q\<rparr>) = prod_ok sz s"
  "prod_ok sz (s\<lparr>popped := l\<rparr>) = prod_ok sz s"
  by (cases "prod s"; simp add: prod_ok_def)+

lemma cons_ok_simps [simp]:
  "cons_ok sz (s\<lparr>prod_tail := c\<rparr>) = cons_ok sz s"
  "cons_ok sz (s\<lparr>prod_stat := c\<rparr>) = cons_ok sz s"
  "cons_ok sz (s\<lparr>cons_stat := c\<rparr>) = cons_ok sz s"
  "cons_ok sz (s\<lparr>stats := h\<rparr>) = cons_ok sz s"
  "cons_ok sz (s\<lparr>prod_ret := r\<rparr>) = cons_ok sz s"
  "cons_ok sz (s\<lparr>cons_ret := r'\<rparr>) = cons_ok sz s"
  "cons_ok sz (s\<lparr>prod := p\<rparr>) = cons_ok sz s"
  "cons_ok sz (s\<lparr>sq := q\<rparr>) = cons_ok sz s"
  by (cases "cons s"; simp add: cons_ok_def)+

lemma prod_ok_pc [simp]:
  "prod_ok sz (s\<lparr>prod := P_Idle\<rparr>)"
  "prod_ok sz (s\<lparr>prod := P_Status v b\<rparr>)"
  "prod_ok sz (s\<lparr>prod := P_Head v b\<rparr>)"
  "prod_ok sz (s\<lparr>prod := P_Check1 v\<rparr>)"
  "prod_ok sz (s\<lparr>prod := P_Check2 v\<rparr>)"
  by (simp_all add: prod_ok_def)

lemma cons_ok_pc [simp]:
  "cons_ok sz (s\<lparr>cons := C_Idle\<rparr>)"
  "cons_ok sz (s\<lparr>cons := C_Tail b\<rparr>)"
  "cons_ok sz (s\<lparr>cons := C_Check1\<rparr>)"
  "cons_ok sz (s\<lparr>cons := C_Check2\<rparr>)"
  by (simp_all add: cons_ok_def)

lemma spsc_sys_inv_init: "pow2_size sz \<Longrightarrow> spsc_sys_inv sz (spsc_sys_init sz)"
  using pow2_size_pos [of sz]
  by (simp add: spsc_sys_inv_def spsc_inv_defs spsc_sys_init_def spsc_init_def slots_ok_def
      slot_ok_def ring_pos_def)

section \<open>Every step keeps the invariant\<close>

lemma spsc_sys_inv_parts:
  assumes "spsc_sys_inv sz s"
  shows "pow2_size sz" "shape_ok sz s" "views_ok sz s" "prod_ok sz s" "cons_ok sz s" "slots_ok sz s"
    "length (sp_buffer (sq s)) = unat sz"
  using assms by (simp_all add: spsc_sys_inv_def shape_ok_def)

lemma views_okD:
  assumes "views_ok sz s"
  shows "prod_tail s \<le> length (popped s)" "length (popped s) \<le> cons_head s"
    "cons_head s \<le> length (pushed s)" "length (pushed s) < prod_tail s + unat sz"
  using assms by (simp_all add: views_ok_def)

lemma phase_empty:
  assumes "spsc_sys_inv sz s" and "length (popped s) = length (pushed s)"
  shows "phase (cons s) = Whole"
  using spsc_sys_inv_parts(3,5) [OF assms(1)] assms(2)
  by (cases "cons s") (auto simp: views_ok_def cons_ok_def)

lemma prod_failed_inv:
  "spsc_sys_inv sz s \<Longrightarrow> built (prod s) = None \<Longrightarrow> spsc_sys_inv sz (prod_failed v b s)"
  by (simp add: spsc_sys_inv_def prod_failed_def prod_return_def)

lemma prod_tail_inv:
  assumes inv: "spsc_sys_inv sz s" and step: "spsc_push_step sz c s = Some t"
    and P_Tail: "prod s = P_Tail v b head nxt"
  shows "spsc_sys_inv sz t"
proof -
  let ?H = "length (pushed s)"
  from step P_Tail have c: "prod_tail s \<le> c" "c \<le> length (popped s)"
    by (simp_all add: spsc_push_step_def split: if_splits)
  with inv P_Tail have nxt: "nxt = ring_pos sz (Suc ?H)" and "c < Suc ?H" "Suc ?H \<le> c + unat sz"
    by (simp_all add: spsc_sys_inv_def views_ok_def prod_ok_def Let_def)
  then have full: "nxt = ring_pos sz c \<longleftrightarrow> Suc ?H = c + unat sz"
    using ring_pos_eq_wrap [of sz c "Suc ?H"] spsc_sys_inv_parts(1) [OF inv] by simp
  have v: "views_ok sz (s\<lparr>prod_tail := c\<rparr>)"
    using spsc_sys_inv_parts(3) [OF inv] c by (simp add: views_ok_def)
  have i0: "spsc_sys_inv sz (s\<lparr>prod_tail := c\<rparr>)"
    using spsc_sys_inv_parts [OF inv] v P_Tail by (simp add: spsc_sys_inv_def prod_ok_def)
  have "spsc_sys_inv sz (s\<lparr>prod_tail := c, prod := P_Build v b head nxt\<rparr>)" if "nxt \<noteq> ring_pos sz c"
    using spsc_sys_inv_parts [OF inv] v P_Tail that full \<open>Suc ?H \<le> c + unat sz\<close>
    by (simp add: spsc_sys_inv_def prod_ok_def Let_def)
  with step P_Tail c prod_failed_inv [OF i0, of v b] show ?thesis
    by (simp add: spsc_push_step_def split: if_splits)
qed

lemma prod_build_inv:
  assumes inv: "spsc_sys_inv sz s" and step: "spsc_push_step sz c s = Some t"
    and P_Build: "prod s = P_Build v b head nxt"
  shows "spsc_sys_inv sz t"
proof -
  let ?H = "length (pushed s)"
  note parts = spsc_sys_inv_parts [OF inv]
  from parts(4) P_Build have head: "head = ring_pos sz ?H"
    and room: "Suc ?H < prod_tail s + unat sz" by (simp_all add: prod_ok_def Let_def)
  have win: "length (popped s) \<le> ?H" "?H < length (popped s) + unat sz"
    using parts(3) room by (simp_all add: views_ok_def)
  have raw: "sp_buffer (sq s) ! unat head = None"
    using slots_okD [OF parts(6) win] P_Build by (simp add: head unat_ring_pos [OF parts(1)] slot_ok_def)
  have hl: "unat head < length (sp_buffer (sq s))"
    using pow2_size_pos [OF parts(1)] by (simp add: head unat_ring_pos [OF parts(1)] parts(7))
  from step P_Build room hl raw have t: "t = s\<lparr>sq := (sq s)\<lparr>sp_buffer := (sp_buffer (sq s))
      [?H mod unat sz := Some v]\<rparr>, prod := P_Publish v b nxt\<rparr>"
    by (simp add: spsc_push_step_def head unat_ring_pos [OF parts(1)])
  have "slots_ok sz t"
    using parts(6) win parts(7)
  proof (rule slots_ok_update)
    fix q y assume "q \<noteq> ?H" "slot_ok s q y"
    then show "slot_ok t q y" by (auto simp: t slot_ok_def split: if_splits)
  qed (simp_all add: t slot_ok_def)
  with parts P_Build room show ?thesis
    by (simp add: spsc_sys_inv_def t) (simp add: shape_ok_def prod_ok_def Let_def)
qed

lemma prod_publish_inv:
  assumes inv: "spsc_sys_inv sz s" and step: "spsc_push_step sz c s = Some t"
    and P_Publish: "prod s = P_Publish v b nxt"
  shows "spsc_sys_inv sz t"
proof -
  note parts = spsc_sys_inv_parts [OF inv]
  from step P_Publish have t: "t = prod_return True
      (s\<lparr>sq := (sq s)\<lparr>sp_head := nxt\<rparr>, pushed := pushed s @ [v]\<rparr>)"
    by (simp add: spsc_push_step_def)
  have lt: "length (popped s) \<le> length (pushed s)" using parts(3) by (simp add: views_ok_def)
  have "slots_ok sz t"
    unfolding slots_ok_def
  proof (intro allI impI)
    fix p assume "length (popped t) \<le> p \<and> p < length (popped t) + unat sz"
    then have "slot_ok s p (sp_buffer (sq s) ! (p mod unat sz))"
      using slots_okD [OF parts(6), of p] by (simp add: t prod_return_def)
    then show "slot_ok t p (sp_buffer (sq t) ! (p mod unat sz))"
      using P_Publish lt phase_empty [OF inv]
      by (auto simp: t prod_return_def slot_ok_def nth_append less_Suc_eq split: if_splits)
  qed
  with parts P_Publish show ?thesis
    by (simp add: spsc_sys_inv_def t prod_return_def)
      (auto simp: spsc_inv_defs Let_def nth_append split: cons_pc.splits)
qed

lemma spsc_push_step_inv:
  assumes inv: "spsc_sys_inv sz s" and step: "spsc_push_step sz c s = Some t"
  shows "spsc_sys_inv sz t"
proof (cases "prod s")
  case (P_Status v b)
  then have "d < length (stats s) \<Longrightarrow> spsc_sys_inv sz (s\<lparr>prod_stat := d\<rparr>)"
    "d < length (stats s) \<Longrightarrow> spsc_sys_inv sz (s\<lparr>prod_stat := d, prod := P_Head v b\<rparr>)" for d
    using inv by (simp_all add: spsc_sys_inv_def)
  with step P_Status prod_failed_inv [of sz "s\<lparr>prod_stat := c\<rparr>" v b] show ?thesis
    by (auto simp: spsc_push_step_def split: if_splits)
next
  case (P_Head v b)
  with inv step ring_pos_next [of sz "length (pushed s)"] show ?thesis
    by (simp add: spsc_push_step_def Let_def spsc_sys_inv_def)
      (auto simp: prod_ok_def shape_ok_def)
next
  case (P_Tail v b head nxt)
  show ?thesis by (rule prod_tail_inv [OF inv step P_Tail])
next
  case (P_Build v b head nxt)
  show ?thesis by (rule prod_build_inv [OF inv step P_Build])
next
  case (P_Publish v b nxt)
  show ?thesis by (rule prod_publish_inv [OF inv step P_Publish])
qed (use step in \<open>simp_all add: spsc_push_step_def\<close>)

lemma spsc_push_check_step_inv:
  assumes inv: "spsc_sys_inv sz s" and step: "spsc_push_check_step c s = Some t"
  shows "spsc_sys_inv sz t"
proof -
  from step have "prod_stat s \<le> c" "c < length (stats s)"
    by (auto simp: spsc_push_check_step_def split: if_splits)
  with inv step show ?thesis
    by (cases "prod s")
      (auto simp: spsc_push_check_step_def prod_return_def spsc_sys_inv_def split: if_splits)
qed

lemma cons_head_inv:
  assumes inv: "spsc_sys_inv sz s" and step: "spsc_pop_step sz ty c s = Some t"
    and C_Head: "cons s = C_Head b tail"
  shows "spsc_sys_inv sz t"
proof -
  note parts = spsc_sys_inv_parts [OF inv]
  let ?T = "length (popped s)"
  from step C_Head have c: "cons_head s \<le> c" "c \<le> length (pushed s)"
    by (simp_all add: spsc_pop_step_def split: if_splits)
  with parts(3,5) C_Head have tail: "tail = ring_pos sz ?T" and "?T \<le> c" "c < ?T + unat sz"
    by (simp_all add: views_ok_def cons_ok_def)
  then have empty: "tail = ring_pos sz c \<longleftrightarrow> ?T = c"
    using ring_pos_eq [of sz ?T c] parts(1) by simp
  have v: "views_ok sz (s\<lparr>cons_head := c\<rparr>)" using parts(3) c by (simp add: views_ok_def)
  have "spsc_sys_inv sz (s\<lparr>cons_head := c, cons := C_Read b tail\<rparr>)" if "tail \<noteq> ring_pos sz c"
    using parts v C_Head tail empty that \<open>?T \<le> c\<close> by (simp add: spsc_sys_inv_def cons_ok_def)
  moreover have "spsc_sys_inv sz (s\<lparr>cons_head := c, cons := C_Check1\<rparr>)"
    "spsc_sys_inv sz (cons_return None (s\<lparr>cons_head := c\<rparr>))"
    using parts v C_Head by (simp_all add: spsc_sys_inv_def cons_return_def)
  ultimately show ?thesis using step C_Head c
    by (simp add: spsc_pop_step_def split: if_splits)
qed

lemma cons_read_inv:
  assumes inv: "spsc_sys_inv sz s" and step: "spsc_pop_step sz ty c s = Some t"
    and C_Read: "cons s = C_Read b tail"
  shows "spsc_sys_inv sz t"
proof -
  note parts = spsc_sys_inv_parts [OF inv]
  let ?T = "length (popped s)"
  from parts(5) C_Read have tail: "tail = ring_pos sz ?T" and seen: "?T < cons_head s"
    by (simp_all add: cons_ok_def)
  have win: "?T < ?T + unat sz" using pow2_size_pos [OF parts(1)] by simp
  have live: "sp_buffer (sq s) ! unat tail = Some (pushed s ! ?T)"
    using slots_okD [OF parts(6) le_refl win] C_Read seen parts(3)
    by (simp add: tail unat_ring_pos [OF parts(1)] slot_ok_def views_ok_def)
  have tl: "unat tail < length (sp_buffer (sq s))"
    using pow2_size_pos [OF parts(1)] by (simp add: tail unat_ring_pos [OF parts(1)] parts(7))
  let ?mv = "if move_constructible ty then move_at ty (unat tail) (sp_buffer (sq s))
    else copy_at (unat tail) (sp_buffer (sq s))"
  have "\<exists>w. ?mv = Inr (pushed s ! ?T, (sp_buffer (sq s))[unat tail := Some w])"
    using tl live list_update_id [of "sp_buffer (sq s)" "unat tail"]
    by (cases "move_constructible ty") (auto intro: exI [of _ "pushed s ! ?T"])
  then obtain w where w: "?mv = Inr (pushed s ! ?T, (sp_buffer (sq s))[unat tail := Some w])" ..
  from step C_Read seen w have t: "t = s\<lparr>sq := (sq s)\<lparr>sp_buffer := (sp_buffer (sq s))
      [?T mod unat sz := Some w]\<rparr>, cons := C_Destroy b tail (pushed s ! ?T)\<rparr>"
    by (simp add: spsc_pop_step_def) (simp add: tail unat_ring_pos [OF parts(1)])
  have "slots_ok sz t"
    using parts(6) le_refl win parts(7)
  proof (rule slots_ok_update)
    fix q y assume "q \<noteq> ?T" "slot_ok s q y"
    then show "slot_ok t q y" by (auto simp: t slot_ok_def split: if_splits)
  qed (use seen parts(3) in \<open>auto simp: t slot_ok_def views_ok_def\<close>)
  with parts tail seen show ?thesis
    by (simp add: spsc_sys_inv_def t) (simp add: shape_ok_def cons_ok_def)
qed

lemma cons_destroy_inv:
  assumes inv: "spsc_sys_inv sz s" and step: "spsc_pop_step sz ty c s = Some t"
    and C_Destroy: "cons s = C_Destroy b tail v"
  shows "spsc_sys_inv sz t"
proof -
  note parts = spsc_sys_inv_parts [OF inv]
  let ?T = "length (popped s)"
  from parts(5) C_Destroy have tail: "tail = ring_pos sz ?T" and seen: "?T < cons_head s"
    and v: "v = pushed s ! ?T" by (simp_all add: cons_ok_def)
  have win: "?T < ?T + unat sz" using pow2_size_pos [OF parts(1)] by simp
  obtain w where live: "sp_buffer (sq s) ! unat tail = Some w"
    using slots_okD [OF parts(6) le_refl win] C_Destroy seen parts(3)
    by (auto simp: tail unat_ring_pos [OF parts(1)] slot_ok_def views_ok_def)
  have tl: "unat tail < length (sp_buffer (sq s))"
    using pow2_size_pos [OF parts(1)] by (simp add: tail unat_ring_pos [OF parts(1)] parts(7))
  from step C_Destroy live tl have t: "t = s\<lparr>sq := (sq s)\<lparr>sp_buffer := (sp_buffer (sq s))
      [?T mod unat sz := None]\<rparr>, cons := C_Publish b tail v\<rparr>"
    by (simp add: spsc_pop_step_def) (simp add: tail unat_ring_pos [OF parts(1)])
  have "slots_ok sz t"
    using parts(6) le_refl win parts(7)
  proof (rule slots_ok_update)
    fix q y assume "q \<noteq> ?T" "slot_ok s q y"
    then show "slot_ok t q y" by (auto simp: t slot_ok_def split: if_splits)
  qed (use seen parts(3) in \<open>auto simp: t slot_ok_def views_ok_def\<close>)
  with parts tail seen v show ?thesis
    by (simp add: spsc_sys_inv_def t) (simp add: shape_ok_def cons_ok_def)
qed

lemma cons_publish_inv:
  assumes inv: "spsc_sys_inv sz s" and step: "spsc_pop_step sz ty c s = Some t"
    and C_Publish: "cons s = C_Publish b tail v"
  shows "spsc_sys_inv sz t"
proof -
  note parts = spsc_sys_inv_parts [OF inv]
  let ?T = "length (popped s)"
  from parts(5) C_Publish have tail: "tail = ring_pos sz ?T" and seen: "?T < cons_head s"
    and v: "v = pushed s ! ?T" by (simp_all add: cons_ok_def)
  from step C_Publish have t: "t = cons_return (Some v) (s\<lparr>sq := (sq s)\<lparr>sp_tail :=
      (tail + 1) AND spsc_mask sz\<rparr>, popped := popped s @ [v]\<rparr>)"
    by (simp add: spsc_pop_step_def)
  have hd: "?T < length (pushed s)" using seen parts(3) by (simp add: views_ok_def)
  have "slots_ok sz t"
    unfolding slots_ok_def
  proof (intro allI impI)
    fix p assume "length (popped t) \<le> p \<and> p < length (popped t) + unat sz"
    then have p: "Suc ?T \<le> p" "p \<le> ?T + unat sz" by (simp_all add: t cons_return_def)
    show "slot_ok t p (sp_buffer (sq t) ! (p mod unat sz))"
    proof (cases "p = ?T + unat sz")
      case True
      have "slot_ok s ?T (sp_buffer (sq s) ! (?T mod unat sz))"
        using slots_okD [OF parts(6) le_refl] pow2_size_pos [OF parts(1)] by simp
      then have "sp_buffer (sq s) ! (?T mod unat sz) = None"
        using C_Publish hd by (simp add: slot_ok_def)
      moreover have "length (pushed s) < p" using True parts(3) by (simp add: views_ok_def)
      ultimately show ?thesis using True by (simp add: t cons_return_def slot_ok_def)
    next
      case False
      with p have "slot_ok s p (sp_buffer (sq s) ! (p mod unat sz))"
        using slots_okD [OF parts(6), of p] by simp
      with p show ?thesis
        by (auto simp: t cons_return_def slot_ok_def split: if_splits)
    qed
  qed
  moreover have "shape_ok sz t"
    using parts(1,2) by (simp add: t cons_return_def shape_ok_def tail ring_pos_next)
  moreover have "views_ok sz t"
    using parts(3) seen hd v
    by (auto simp: t cons_return_def views_ok_def take_Suc_conv_app_nth)
  ultimately show ?thesis
    using parts(4) by (simp add: spsc_sys_inv_def t cons_return_def)
qed

lemma spsc_pop_step_inv:
  assumes inv: "spsc_sys_inv sz s" and step: "spsc_pop_step sz ty c s = Some t"
  shows "spsc_sys_inv sz t"
proof (cases "cons s")
  case (C_Tail b)
  with inv step show ?thesis
    by (simp add: spsc_pop_step_def spsc_sys_inv_def) (auto simp: cons_ok_def shape_ok_def)
next
  case (C_Head b tail)
  show ?thesis by (rule cons_head_inv [OF inv step C_Head])
next
  case (C_Read b tail)
  show ?thesis by (rule cons_read_inv [OF inv step C_Read])
next
  case (C_Destroy b tail v)
  show ?thesis by (rule cons_destroy_inv [OF inv step C_Destroy])
next
  case (C_Publish b tail v)
  show ?thesis by (rule cons_publish_inv [OF inv step C_Publish])
qed (use step in \<open>simp_all add: spsc_pop_step_def\<close>)

lemma spsc_pop_check_step_inv:
  assumes inv: "spsc_sys_inv sz s" and step: "spsc_pop_check_step c s = Some t"
  shows "spsc_sys_inv sz t"
proof -
  from step have "cons_stat s \<le> c" "c < length (stats s)"
    by (auto simp: spsc_pop_check_step_def split: if_splits)
  with inv step show ?thesis
    by (cases "cons s")
      (auto simp: spsc_pop_check_step_def cons_return_def spsc_sys_inv_def split: if_splits)
qed

lemma spsc_status_act_inv:
  assumes "spsc_sys_inv sz s"
  shows "spsc_sys_inv sz (s\<lparr>sq := spsc_stop (sq s), stats := stats s @ [Stopped]\<rparr>)"
    and "spsc_sys_inv sz (s\<lparr>sq := spsc_run (sq s), stats := stats s @ [Running]\<rparr>)"
proof -
  have "sp_buffer (spsc_stop (sq s)) = sp_buffer (sq s)"
    "sp_buffer (spsc_run (sq s)) = sp_buffer (sq s)"
    by (simp_all add: spsc_stop_def spsc_run_def)
  with spsc_sys_inv_parts [OF assms]
  show "spsc_sys_inv sz (s\<lparr>sq := spsc_stop (sq s), stats := stats s @ [Stopped]\<rparr>)"
    "spsc_sys_inv sz (s\<lparr>sq := spsc_run (sq s), stats := stats s @ [Running]\<rparr>)"
    by (simp_all add: spsc_sys_inv_def shape_ok_def) (simp_all add: spsc_stop_def spsc_run_def)
qed

lemma spsc_act_inv:
  assumes inv: "spsc_sys_inv sz s" and act: "spsc_act sz ty a s = Some t"
  shows "spsc_sys_inv sz t"
proof -
  from inv have "spsc_fault s = None" by (simp add: spsc_sys_inv_def shape_ok_def)
  note act' = act [unfolded spsc_act_def, simplified this, simplified]
  show ?thesis
  proof (cases a)
    case (CallPush v b)
    with act' inv show ?thesis by (auto simp: spsc_sys_inv_def split: if_splits)
  next
    case (CallPop b)
    with act' inv show ?thesis by (auto simp: spsc_sys_inv_def split: if_splits)
  next
    case (ProdStep c)
    with act' show ?thesis
      using spsc_push_step_inv [OF inv] spsc_push_check_step_inv [OF inv]
      by (cases "prod s") auto
  next
    case (ConsStep c)
    with act' show ?thesis
      using spsc_pop_step_inv [OF inv] spsc_pop_check_step_inv [OF inv]
      by (cases "cons s") auto
  next
    case CallStop
    with act' spsc_status_act_inv [OF inv] show ?thesis by auto
  next
    case CallRun
    with act' spsc_status_act_inv [OF inv] show ?thesis by auto
  qed
qed

interpretation spsc_run: invariant_system
    "\<lambda>s. pow2_size sz \<and> s = spsc_sys_init sz" "spsc_step sz ty" "spsc_sys_inv sz"
  for sz :: size_t and ty :: "'a elem_type"
  by unfold_locales (auto simp: spsc_step_iff intro: spsc_sys_inv_init spsc_act_inv)

lemma spsc_reach_inv:
  assumes "pow2_size sz" and "spsc_reach sz ty s"
  shows "spsc_sys_inv sz s"
  using spsc_run.reach_inv [of sz ty s] assms by simp

section \<open>What the interleaving guarantees\<close>

text \<open>The effect of one step on the two histories.\<close>

lemma spsc_push_step_history:
  assumes "spsc_push_step sz c s = Some t"
  shows "popped t = popped s \<and> pushed t =
    (case prod s of P_Publish v b nxt \<Rightarrow> pushed s @ [v] | _ \<Rightarrow> pushed s)"
  using assms by (cases "prod s")
    (auto simp: spsc_push_step_def prod_failed_def prod_return_def Let_def split: if_splits sum.splits)

lemma spsc_pop_step_history:
  assumes "spsc_pop_step sz ty c s = Some t"
  shows "pushed t = pushed s \<and> popped t =
    (case cons s of C_Publish b tail v \<Rightarrow> popped s @ [v] | _ \<Rightarrow> popped s)"
  using assms by (cases "cons s")
    (auto simp: spsc_pop_step_def cons_return_def split: if_splits sum.splits)

lemma check_step_history:
  "spsc_push_check_step c s = Some t \<Longrightarrow> pushed t = pushed s \<and> popped t = popped s"
  "spsc_pop_check_step c s = Some t \<Longrightarrow> pushed t = pushed s \<and> popped t = popped s"
  by (cases "prod s"; auto simp: spsc_push_check_step_def prod_return_def split: if_splits)
    (cases "cons s"; auto simp: spsc_pop_check_step_def cons_return_def split: if_splits)

lemma spsc_act_history:
  assumes inv: "spsc_sys_inv sz s" and act: "spsc_act sz ty a s = Some t"
  shows "(pushed t = pushed s \<and> popped t = popped s) \<or>
    (\<exists>v. pushed t = pushed s @ [v] \<and> popped t = popped s \<and>
       Suc (length (pushed s)) < length (popped s) + unat sz) \<or>
    (pushed t = pushed s \<and> length (popped s) < length (pushed s) \<and>
       popped t = popped s @ [pushed s ! length (popped s)])"
proof -
  note parts = spsc_sys_inv_parts [OF inv]
  from parts(2) have "spsc_fault s = None" by (simp add: shape_ok_def)
  note act' = act [unfolded spsc_act_def, simplified this, simplified]
  show ?thesis
  proof (cases a)
    case (ProdStep c)
    show ?thesis
    proof (cases "\<exists>v b nxt. prod s = P_Publish v b nxt")
      case True
      then obtain v b nxt where p: "prod s = P_Publish v b nxt" by blast
      with act' ProdStep have "spsc_push_step sz c s = Some t" by simp
      from spsc_push_step_history [OF this] p parts(3,4) show ?thesis
        by (simp add: views_ok_def prod_ok_def)
    next
      case False
      with act' ProdStep show ?thesis
        using spsc_push_step_history [of sz c s t] check_step_history(1) [of c s t]
        by (cases "prod s") simp_all
    qed
  next
    case (ConsStep c)
    show ?thesis
    proof (cases "\<exists>b tail v. cons s = C_Publish b tail v")
      case True
      then obtain b tail v where k: "cons s = C_Publish b tail v" by blast
      with act' ConsStep have "spsc_pop_step sz ty c s = Some t" by simp
      from spsc_pop_step_history [OF this] k parts(3,5) show ?thesis
        by (simp add: views_ok_def cons_ok_def)
    next
      case False
      with act' ConsStep show ?thesis
        using spsc_pop_step_history [of sz ty c s t] check_step_history(2) [of c s t]
        by (cases "cons s") simp_all
    qed
  qed (use act' in \<open>auto split: if_splits\<close>)
qed

text \<open>A thread that is inside a call can always take a step.\<close>

lemma spsc_prod_enabled:
  assumes "spsc_sys_inv sz s" and "prod s \<noteq> P_Idle"
  shows "\<exists>c t. spsc_act sz ty (ProdStep c) s = Some t"
proof -
  have st: "spsc_fault s = None" "prod_stat s < length (stats s)" "prod_tail s \<le> length (popped s)"
    using assms(1) by (auto simp: spsc_sys_inv_def shape_ok_def views_ok_def)
  then have "(if P then spsc_act sz ty (ProdStep (prod_tail s)) s \<noteq> None
      else spsc_act sz ty (ProdStep (prod_stat s)) s \<noteq> None)"
    if "P = (\<exists>v b h n. prod s = P_Tail v b h n)" for P
    using that assms(2) by (cases "prod s") (auto simp: spsc_act_def spsc_push_step_def
        spsc_push_check_step_def Let_def split: if_splits sum.splits)
  then show ?thesis by (metis option.exhaust)
qed

fun prod_rank :: "'a prod_pc \<Rightarrow> nat" where
  "prod_rank (P_Status v b) = 5"
| "prod_rank (P_Head v b) = 4"
| "prod_rank (P_Tail v b head nxt) = 3"
| "prod_rank (P_Build v b head nxt) = 2"
| "prod_rank (P_Publish v b nxt) = 1"
| "prod_rank _ = 0"

fun prod_blocking :: "'a prod_pc \<Rightarrow> bool" where
  "prod_blocking (P_Status v b) = b"
| "prod_blocking (P_Head v b) = b"
| "prod_blocking (P_Tail v b head nxt) = b"
| "prod_blocking (P_Build v b head nxt) = b"
| "prod_blocking (P_Publish v b nxt) = b"
| "prod_blocking P_Idle = False"
| "prod_blocking _ = True"

lemma try_push_step_rank:
  assumes inv: "spsc_sys_inv sz s" and "\<not> prod_blocking (prod s)" and "prod s \<noteq> P_Idle"
    and act: "spsc_act sz ty (ProdStep c) s = Some t"
  shows "prod t = P_Idle \<or> \<not> prod_blocking (prod t) \<and> prod_rank (prod t) < prod_rank (prod s)"
proof -
  from spsc_act_inv [OF inv act] have "spsc_fault t = None"
    by (simp add: spsc_sys_inv_def shape_ok_def)
  with assms show ?thesis
    by (cases "prod s") (auto simp: spsc_act_def spsc_push_step_def prod_failed_def prod_return_def
        Let_def split: if_splits sum.splits)
qed

lemma other_step_prod:
  assumes "spsc_act sz ty a s = Some t" and "\<And>c. a \<noteq> ProdStep c" and "prod s \<noteq> P_Idle"
  shows "prod t = prod s"
  using assms by (cases a; cases "cons s")
    (auto simp: spsc_act_def spsc_pop_step_def spsc_pop_check_step_def cons_return_def
      split: if_splits sum.splits)

fun is_prod_step :: "'a spsc_action \<Rightarrow> bool" where
  "is_prod_step (ProdStep c) = True"
| "is_prod_step _ = False"

text \<open>The same for the consumer.\<close>

lemma spsc_cons_enabled:
  assumes "spsc_sys_inv sz s" and "cons s \<noteq> C_Idle"
  shows "\<exists>c t. spsc_act sz ty (ConsStep c) s = Some t"
proof -
  have st: "spsc_fault s = None" "cons_stat s < length (stats s)" "cons_head s \<le> length (pushed s)"
    using assms(1) by (auto simp: spsc_sys_inv_def shape_ok_def views_ok_def)
  then have "(if P then spsc_act sz ty (ConsStep (cons_head s)) s \<noteq> None
      else spsc_act sz ty (ConsStep (cons_stat s)) s \<noteq> None)"
    if "P = (\<exists>b n. cons s = C_Head b n)" for P
    using that assms(2) by (cases "cons s") (auto simp: spsc_act_def spsc_pop_step_def
        spsc_pop_check_step_def split: if_splits sum.splits)
  then show ?thesis by (metis option.exhaust)
qed

fun cons_rank :: "'a cons_pc \<Rightarrow> nat" where
  "cons_rank (C_Tail b) = 5"
| "cons_rank (C_Head b tail) = 4"
| "cons_rank (C_Read b tail) = 3"
| "cons_rank (C_Destroy b tail v) = 2"
| "cons_rank (C_Publish b tail v) = 1"
| "cons_rank _ = 0"

fun cons_blocking :: "'a cons_pc \<Rightarrow> bool" where
  "cons_blocking (C_Tail b) = b"
| "cons_blocking (C_Head b tail) = b"
| "cons_blocking (C_Read b tail) = b"
| "cons_blocking (C_Destroy b tail v) = b"
| "cons_blocking (C_Publish b tail v) = b"
| "cons_blocking C_Idle = False"
| "cons_blocking _ = True"

lemma try_pop_step_rank:
  assumes inv: "spsc_sys_inv sz s" and "\<not> cons_blocking (cons s)" and "cons s \<noteq> C_Idle"
    and act: "spsc_act sz ty (ConsStep c) s = Some t"
  shows "cons t = C_Idle \<or> \<not> cons_blocking (cons t) \<and> cons_rank (cons t) < cons_rank (cons s)"
proof -
  from spsc_act_inv [OF inv act] have "spsc_fault t = None"
    by (simp add: spsc_sys_inv_def shape_ok_def)
  with assms show ?thesis
    by (cases "cons s") (auto simp: spsc_act_def spsc_pop_step_def cons_return_def split: if_splits sum.splits)
qed

fun is_cons_step :: "'a spsc_action \<Rightarrow> bool" where
  "is_cons_step (ConsStep c) = True"
| "is_cons_step _ = False"

lemma other_step_cons:
  assumes "spsc_act sz ty a s = Some t" and "\<not> is_cons_step a" and "cons s \<noteq> C_Idle"
  shows "cons t = cons s"
  using assms by (cases a; cases "prod s")
    (auto simp: spsc_act_def spsc_push_step_def spsc_push_check_step_def prod_return_def prod_failed_def Let_def
      split: if_splits sum.splits)

text \<open>A thread running alone, its loads returning the latest values.\<close>

definition prod_latest :: "'a spsc_sys \<Rightarrow> nat" where
  "prod_latest s = (case prod s of P_Tail v b head nxt \<Rightarrow> length (popped s) | _ \<Rightarrow> length (stats s) - 1)"

definition cons_latest :: "'a spsc_sys \<Rightarrow> nat" where
  "cons_latest s = (case cons s of C_Head b tail \<Rightarrow> length (pushed s) | _ \<Rightarrow> length (stats s) - 1)"

fun prod_alone :: "size_t \<Rightarrow> 'a elem_type \<Rightarrow> nat \<Rightarrow> 'a spsc_sys \<Rightarrow> 'a spsc_sys option" where
  "prod_alone sz ty 0 s = Some s"
| "prod_alone sz ty (Suc n) s =
     (if prod s = P_Idle then Some s
      else case spsc_act sz ty (ProdStep (prod_latest s)) s of
          None \<Rightarrow> None | Some t \<Rightarrow> prod_alone sz ty n t)"

fun cons_alone :: "size_t \<Rightarrow> 'a elem_type \<Rightarrow> nat \<Rightarrow> 'a spsc_sys \<Rightarrow> 'a spsc_sys option" where
  "cons_alone sz ty 0 s = Some s"
| "cons_alone sz ty (Suc n) s =
     (if cons s = C_Idle then Some s
      else case spsc_act sz ty (ConsStep (cons_latest s)) s of
          None \<Rightarrow> None | Some t \<Rightarrow> cons_alone sz ty n t)"

lemma prod_alone_is_try_push:
  assumes inv: "spsc_sys_inv sz s" and idle: "prod s = P_Idle"
  shows "\<exists>ok t. spsc_act sz ty (CallPush v False) s \<noteq> None \<and>
    prod_alone sz ty 5 (the (spsc_act sz ty (CallPush v False) s)) = Some t \<and>
    prod t = P_Idle \<and> prod_ret t = Some ok \<and> spsc_try_push sz v (sq s) = Inr (ok, sq t)"
proof -
  note parts = spsc_sys_inv_parts [OF inv]
  let ?H = "length (pushed s)" and ?T = "length (popped s)" and ?L = "length (stats s) - Suc 0"
  from parts(2) have shape: "spsc_fault s = None" "sp_head (sq s) = ring_pos sz ?H"
    "sp_tail (sq s) = ring_pos sz ?T" "stats s \<noteq> []" "prod_stat s \<le> ?L" "?L < length (stats s)"
    "stats s ! ?L = sp_status (sq s)"
    by (auto simp: shape_ok_def last_conv_nth)
  from parts(3) have views: "prod_tail s \<le> ?T" "?T \<le> ?H" "?H < ?T + unat sz"
    by (auto simp: views_ok_def)
  have full: "ring_pos sz (Suc ?H) = ring_pos sz ?T \<longleftrightarrow> Suc ?H = ?T + unat sz"
    using ring_pos_eq_wrap [OF parts(1), of ?T "Suc ?H"] views by simp
  have raw: "sp_buffer (sq s) ! unat (ring_pos sz ?H) = None"
    using slots_okD [OF parts(6) views(2,3)] idle
    by (simp add: unat_ring_pos [OF parts(1)] slot_ok_def)
  have hl: "unat (ring_pos sz ?H) < length (sp_buffer (sq s))"
    using pow2_size_pos [OF parts(1)] by (simp add: unat_ring_pos [OF parts(1)] parts(7))
  show ?thesis
    using shape views full raw hl idle ring_pos_next [OF parts(1), of ?H]
    by (cases "sp_status (sq s) = Stopped"; cases "Suc ?H = ?T + unat sz")
      (simp_all add: spsc_act_def eval_nat_numeral prod_latest_def spsc_push_step_def
        prod_failed_def prod_return_def spsc_try_push_def Let_def ex_bool_eq)
qed

lemma cons_alone_is_try_pop:
  assumes inv: "spsc_sys_inv sz s" and idle: "cons s = C_Idle"
  shows "\<exists>r t. spsc_act sz ty (CallPop False) s \<noteq> None \<and>
    cons_alone sz ty 5 (the (spsc_act sz ty (CallPop False) s)) = Some t \<and>
    cons t = C_Idle \<and> cons_ret t = Some r \<and> spsc_try_pop sz ty (sq s) = Inr (r, sq t)"
proof -
  note parts = spsc_sys_inv_parts [OF inv]
  let ?H = "length (pushed s)" and ?T = "length (popped s)"
  from parts(2) have shape: "spsc_fault s = None" "sp_head (sq s) = ring_pos sz ?H"
    "sp_tail (sq s) = ring_pos sz ?T" by (auto simp: shape_ok_def)
  from parts(3) have views: "?T \<le> ?H" "?H < ?T + unat sz" "cons_head s \<le> ?H"
    by (auto simp: views_ok_def)
  have empty: "ring_pos sz ?T = ring_pos sz ?H \<longleftrightarrow> ?T = ?H"
    using ring_pos_eq [OF parts(1)] views by simp
  have tl: "unat (ring_pos sz ?T) < length (sp_buffer (sq s))"
    using pow2_size_pos [OF parts(1)] by (simp add: unat_ring_pos [OF parts(1)] parts(7))
  have live: "?T < ?H \<Longrightarrow> sp_buffer (sq s) ! unat (ring_pos sz ?T) = Some (pushed s ! ?T)"
    using slots_okD [OF parts(6) le_refl] idle pow2_size_pos [OF parts(1)]
    by (simp add: unat_ring_pos [OF parts(1)] slot_ok_def)
  have seen: "\<not> length (pushed s) \<le> length (popped s)" if "?T \<noteq> ?H" using that views by simp
  show ?thesis
  proof (cases "?T = ?H")
    case True
    with shape views empty idle show ?thesis
      by (simp add: spsc_act_def eval_nat_numeral cons_latest_def spsc_pop_step_def cons_return_def
          spsc_try_pop_def Let_def)
  next
    case False
    with views live have "sp_buffer (sq s) ! unat (ring_pos sz ?T) = Some (pushed s ! ?T)" by simp
    with False shape views empty tl idle seen show ?thesis
      by (cases "move_constructible ty")
        (simp_all add: spsc_act_def eval_nat_numeral cons_latest_def spsc_pop_step_def
          cons_return_def spsc_try_pop_def Let_def take_at_def)
  qed
qed

section \<open>Properties\<close>

text \<open>A run of the size-2 queue, to evaluate: one element goes in and comes out.\<close>

definition spsc_demo :: "nat spsc_action list" where
  "spsc_demo =
     [CallPush 7 False, ProdStep 0, ProdStep 0, ProdStep 0, ProdStep 0, ProdStep 0,
      CallPop False, ConsStep 0, ConsStep 1, ConsStep 0, ConsStep 0]"

lemmas spsc_eval = spsc_act_def spsc_push_step_def spsc_push_check_step_def spsc_pop_step_def
  spsc_pop_check_step_def prod_return_def prod_failed_def cons_return_def spsc_sys_init_def
  spsc_init_def spsc_stop_def spsc_run_def spsc_mask_def ring_pos_def construct_at_def
  copy_at_def move_at_def destroy_at_def nat_elem_def Let_def

lemma spsc_demo_state:
  obtains t where "spsc_sched 2 nat_elem spsc_demo (spsc_sys_init 2) = Some t"
    "spsc_reach 2 nat_elem t" "pushed t = [7]" "popped t = []" "cons t = C_Publish False 0 7"
    "prod t = P_Idle" "spsc_fault t = None"
proof -
  have "\<exists>t. spsc_sched 2 nat_elem spsc_demo (spsc_sys_init 2) = Some t \<and>
      pushed t = [7] \<and> popped t = [] \<and> cons t = C_Publish False 0 7 \<and> prod t = P_Idle \<and>
      spsc_fault t = None"
    by (simp add: spsc_demo_def spsc_eval)
  then obtain t where t: "spsc_sched 2 nat_elem spsc_demo (spsc_sys_init 2) = Some t"
    "pushed t = [7]" "popped t = []" "cons t = C_Publish False 0 7" "prod t = P_Idle"
    "spsc_fault t = None" by blast
  have "spsc_reach 2 nat_elem (spsc_sys_init 2)" by (rule reach.reach_init) simp
  from spsc_sched_reach [OF this t(1)] t that show ?thesis by blast
qed

lemma pow2_size_2: "pow2_size 2"
  unfolding pow2_size_def by (rule exI [of _ 1]) simp

text \<open>
  C10: Whatever the interleaving and however stale the values the atomic loads return, no
  fault occurs: no slot is read or destroyed while raw, built over while live, or accessed
  by both threads in a data race. The values popped are a prefix of the values pushed, in
  order, and never more than \<open>_size - 1\<close> of them are waiting.
\<close>

theorem spsc_concurrent_safe:
  assumes "pow2_size sz" and "spsc_reach sz ty s"
  shows "spsc_fault s = None \<and> popped s = take (length (popped s)) (pushed s) \<and>
    length (popped s) \<le> length (pushed s) \<and> length (pushed s) - length (popped s) \<le> unat sz - 1"
  using spsc_sys_inv_parts(2,3) [OF spsc_reach_inv [OF assms]]
  by (auto simp: shape_ok_def views_ok_def)

theorem spsc_concurrent_safe_witness:
  "\<exists>s. spsc_reach 2 nat_elem s \<and> pushed s = [7] \<and> spsc_fault s = None \<and>
    length (pushed s) - length (popped s) \<le> unat (2::size_t) - 1"
  using spsc_concurrent_safe [OF pow2_size_2] spsc_demo_state by metis

text \<open>
  C11: Every step of either thread, or of a third one that stops or runs the queue, is a
  step of the abstract queue: it leaves the waiting values alone, appends one value to a
  queue that holds fewer than \<open>_size - 1\<close>, or takes the oldest one.
\<close>

theorem spsc_step_simulates:
  assumes "pow2_size sz" and "spsc_reach sz ty s" and "spsc_step sz ty s t"
  shows "let xs = drop (length (popped s)) (pushed s); ys = drop (length (popped t)) (pushed t)
    in (ys = xs \<and> popped t = popped s) \<or>
       (\<exists>v. ys = xs @ [v] \<and> length xs < unat sz - 1 \<and> popped t = popped s) \<or>
       (\<exists>v. xs = v # ys \<and> popped t = popped s @ [v])"
proof -
  from assms(3) obtain a where "spsc_act sz ty a s = Some t" by (auto simp: spsc_step_iff)
  from spsc_act_history [OF spsc_reach_inv [OF assms(1,2)] this]
  show ?thesis
    by (auto simp: Let_def Cons_nth_drop_Suc)
qed

theorem spsc_step_simulates_witness:
  "\<exists>s t. spsc_step 2 nat_elem s t \<and> popped t = [7] \<and>
    drop (length (popped s)) (pushed s) = 7 # drop (length (popped t)) (pushed t)"
proof -
  obtain s where s: "spsc_reach 2 nat_elem s" "pushed s = [7]" "popped s = []"
    "cons s = C_Publish False 0 7" "spsc_fault s = None" using spsc_demo_state by metis
  then obtain t where t: "spsc_act 2 nat_elem (ConsStep 0) s = Some t" "popped t = [7]"
    by (simp add: spsc_eval)
  then have "spsc_step 2 nat_elem s t" by (intro spsc_step.intros)
  from spsc_step_simulates [OF pow2_size_2 s(1) this] this s t show ?thesis
    by (intro exI [of _ s] exI [of _ t]) (auto simp: Let_def)
qed

text \<open>
  C16: A thread whose loads return the latest values and that is not interleaved runs its
  access sequence to the result of the sequential operation, wherever the other thread is
  inside its own call.
\<close>

theorem spsc_accesses_implement_calls:
  assumes "pow2_size sz" and "spsc_reach sz ty s"
  shows "(prod s = P_Idle \<longrightarrow>
      (\<exists>ok t. prod_alone sz ty 5 (the (spsc_act sz ty (CallPush v False) s)) = Some t \<and>
         prod t = P_Idle \<and> prod_ret t = Some ok \<and> spsc_try_push sz v (sq s) = Inr (ok, sq t))) \<and>
    (cons s = C_Idle \<longrightarrow>
      (\<exists>r t. cons_alone sz ty 5 (the (spsc_act sz ty (CallPop False) s)) = Some t \<and>
         cons t = C_Idle \<and> cons_ret t = Some r \<and> spsc_try_pop sz ty (sq s) = Inr (r, sq t)))"
  using prod_alone_is_try_push [OF spsc_reach_inv [OF assms], where v = v]
    cons_alone_is_try_pop [OF spsc_reach_inv [OF assms]] by blast

theorem spsc_accesses_implement_calls_witness:
  "\<exists>s ok t. prod_alone 2 nat_elem 5 (the (spsc_act 2 nat_elem (CallPush 9 False) s)) = Some t \<and>
     cons s = C_Publish False 0 7 \<and> spsc_try_push 2 9 (sq s) = Inr (ok, sq t)"
proof -
  obtain s where s: "spsc_reach 2 nat_elem s" "cons s = C_Publish False 0 7" "prod s = P_Idle"
    using spsc_demo_state by metis
  with spsc_accesses_implement_calls [OF pow2_size_2 s(1), of 9] show ?thesis by blast
qed

text \<open>The accesses a call can return empty-handed from.\<close>

lemma spsc_push_reject_cases:
  assumes "spsc_act sz ty (ProdStep c) s = Some t" and "prod t = P_Idle" and "prod_ret t = Some False"
  obtains "c < length (stats s)" "stats s ! c = Stopped"
  | v b head where "prod s = P_Tail v b head (ring_pos sz c)" "prod_tail s \<le> c" "c \<le> length (popped s)"
proof (cases "prod s")
  case (P_Build v b head nxt)
  with assms show ?thesis
    by (cases "construct_at (unat head) v (sp_buffer (sq s))")
      (auto simp: spsc_act_def spsc_push_step_def split: if_split_asm)
next
  case (P_Status v b)
  with assms have "c < length (stats s)" "stats s ! c = Stopped"
    by (simp add: spsc_act_def spsc_push_step_def split: if_split_asm; auto)+
  then show ?thesis by (rule that(1))
next
  case (P_Tail v b head nxt)
  with assms have "nxt = ring_pos sz c \<and> prod_tail s \<le> c \<and> c \<le> length (popped s)"
    by (simp add: spsc_act_def spsc_push_step_def split: if_split_asm) auto
  with P_Tail show ?thesis using that(2) by blast
next
  case (P_Check1 v)
  with assms show ?thesis
    by (simp add: spsc_act_def spsc_push_check_step_def split: if_split_asm) auto
next
  case (P_Check2 v)
  with assms have "c < length (stats s)" "stats s ! c = Stopped"
    by (simp add: spsc_act_def spsc_push_check_step_def split: if_split_asm; auto)+
  then show ?thesis by (rule that(1))
next
  case (P_Publish v b nxt)
  with assms show ?thesis
    by (simp add: spsc_act_def spsc_push_step_def prod_return_def split: if_split_asm) auto
next
  case (P_Head v b)
  with assms show ?thesis
    by (simp add: spsc_act_def spsc_push_step_def Let_def split: if_split_asm) auto
next
  case P_Idle
  with assms show ?thesis by (simp add: spsc_act_def spsc_push_step_def split: if_split_asm)
qed

lemma spsc_pop_reject_cases:
  assumes "spsc_act sz ty (ConsStep c) s = Some t" and "cons t = C_Idle" and "cons_ret t = Some None"
  obtains "stats s ! c = Stopped"
  | b where "cons s = C_Head b (ring_pos sz c)" "cons_head s \<le> c" "c \<le> length (pushed s)"
      "cons_head t = c"
proof (cases "cons s")
  case (C_Head b tail)
  with assms have "tail = ring_pos sz c \<and> cons_head s \<le> c \<and> c \<le> length (pushed s) \<and> cons_head t = c"
    by (simp add: spsc_act_def spsc_pop_step_def cons_return_def split: if_split_asm) auto
  with C_Head show ?thesis using that(2) by blast
next
  case (C_Read b tail)
  with assms show ?thesis
    by (auto simp: spsc_act_def spsc_pop_step_def split: if_split_asm sum.splits)
next
  case (C_Destroy b tail v)
  with assms show ?thesis
    by (cases "destroy_at (unat tail) (sp_buffer (sq s))")
      (auto simp: spsc_act_def spsc_pop_step_def split: if_split_asm)
next
  case (C_Publish b tail v)
  with assms show ?thesis
    by (simp add: spsc_act_def spsc_pop_step_def cons_return_def split: if_split_asm) auto
next
  case C_Check1
  with assms show ?thesis
    by (simp add: spsc_act_def spsc_pop_check_step_def split: if_split_asm) auto
next
  case C_Check2
  with assms have "stats s ! c = Stopped"
    by (simp add: spsc_act_def spsc_pop_check_step_def split: if_split_asm) auto
  then show ?thesis by (rule that(1))
next
  case (C_Tail b)
  with assms show ?thesis
    by (simp add: spsc_act_def spsc_pop_step_def split: if_split_asm) auto
next
  case C_Idle
  with assms show ?thesis by (simp add: spsc_act_def spsc_pop_step_def split: if_split_asm)
qed

lemma spsc_push_rejected:
  assumes inv: "spsc_sys_inv sz s"
    and act: "spsc_act sz ty (ProdStep c) s = Some t" "prod t = P_Idle" "prod_ret t = Some False"
  shows "c < length (stats s) \<and> stats s ! c = Stopped \<or> c \<le> length (popped s) \<and> length (pushed s) = c + (unat sz - 1)"
  using act
proof (cases rule: spsc_push_reject_cases)
  case (2 v b head)
  note parts = spsc_sys_inv_parts [OF inv]
  let ?H = "length (pushed s)"
  note v = views_okD [OF parts(3)]
  from parts(4) 2(1) have "ring_pos sz (Suc ?H) = ring_pos sz c" by (simp add: prod_ok_def)
  moreover have "c < Suc ?H" "Suc ?H \<le> c + unat sz" using v 2(2,3) by linarith+
  ultimately have "Suc ?H = c + unat sz" using ring_pos_eq_wrap [OF parts(1)] by blast
  with 2(3) pow2_size_pos [OF parts(1)] show ?thesis by linarith
qed simp

text \<open>
  C15: A rejection is justified by what the thread has seen: a call of the producer that
  returns false loaded a stopped status, or a tail at which the queue was full; a call of
  the consumer that returns nothing had popped all that was published to it, or (for
  \<open>blocking_pop\<close>) loaded a stopped status.
\<close>

theorem spsc_rejections_justified:
  assumes "pow2_size sz" and "spsc_reach sz ty s"
  shows "(\<forall>c t. spsc_act sz ty (ProdStep c) s = Some t \<and> prod t = P_Idle \<and>
        prod_ret t = Some False \<longrightarrow>
      stats s ! c = Stopped \<or> c \<le> length (popped s) \<and> length (pushed s) = c + (unat sz - 1)) \<and>
    (\<forall>c t. spsc_act sz ty (ConsStep c) s = Some t \<and> cons t = C_Idle \<and>
        cons_ret t = Some None \<longrightarrow>
      stats s ! c = Stopped \<or> c = length (popped s) \<and> c = cons_head t)"
proof (intro conjI allI impI; elim conjE)
  fix c t
  assume "spsc_act sz ty (ProdStep c) s = Some t" "prod t = P_Idle" "prod_ret t = Some False"
  then show "stats s ! c = Stopped \<or> c \<le> length (popped s) \<and> length (pushed s) = c + (unat sz - 1)"
    using spsc_push_rejected [OF spsc_reach_inv [OF assms]] by blast
next
  note parts = spsc_sys_inv_parts [OF spsc_reach_inv [OF assms]]
  fix c t
  assume "spsc_act sz ty (ConsStep c) s = Some t" "cons t = C_Idle" "cons_ret t = Some None"
  then show "stats s ! c = Stopped \<or> c = length (popped s) \<and> c = cons_head t"
  proof (cases rule: spsc_pop_reject_cases)
    case (2 b)
    note v = views_okD [OF parts(3)]
    from parts(5) 2(1) have "ring_pos sz (length (popped s)) = ring_pos sz c" by (simp add: cons_ok_def)
    moreover have "length (popped s) \<le> c" "c < length (popped s) + unat sz"
      using v 2(2,3) by linarith+
    ultimately have "length (popped s) = c" using ring_pos_eq [OF parts(1)] by blast
    with 2(4) show ?thesis by simp
  qed simp
qed

theorem spsc_rejections_justified_witness:
  "\<exists>s t. spsc_act 2 nat_elem (ConsStep 0) s = Some t \<and> cons t = C_Idle \<and>
     cons_ret t = Some None \<and> cons_head t = 0"
proof -
  let ?as = "[CallPop False, ConsStep 0] :: nat spsc_action list"
  have "\<exists>s t. spsc_sched 2 nat_elem ?as (spsc_sys_init 2) = Some s \<and>
      spsc_act 2 nat_elem (ConsStep 0) s = Some t \<and> cons t = C_Idle \<and> cons_ret t = Some None \<and>
      stats s = [Running]"
    by (simp add: spsc_eval)
  then obtain s t where s: "spsc_sched 2 nat_elem ?as (spsc_sys_init 2) = Some s"
    "spsc_act 2 nat_elem (ConsStep 0) s = Some t" "cons t = C_Idle" "cons_ret t = Some None"
    "stats s = [Running]" by blast
  have "spsc_reach 2 nat_elem (spsc_sys_init 2)" by (rule reach.reach_init) simp
  from spsc_sched_reach [OF this s(1)] have "spsc_reach 2 nat_elem s" .
  from spsc_rejections_justified [OF pow2_size_2 this] s(2-) show ?thesis by fastforce
qed

end
