(* ===== verification/SpscClient.thy ===== *)
theory SpscClient
  imports SpscConcurrent
begin

text \<open>
  What the programs that use a \<open>BoundedSPSCQueue\<close> need to know of one access of a push or a pop:
  what it leaves alone, and what has happened to the value when the call returns.
\<close>

section \<open>What one access of each side does to the other\<close>

fun pending :: "'a prod_pc \<Rightarrow> 'a list" where
  "pending P_Idle = []"
| "pending (P_Status v b) = [v]"
| "pending (P_Head v b) = [v]"
| "pending (P_Tail v b head nxt) = [v]"
| "pending (P_Build v b head nxt) = [v]"
| "pending (P_Publish v b nxt) = [v]"
| "pending (P_Check1 v) = [v]"
| "pending (P_Check2 v) = [v]"

lemma try_push_access:
  assumes inv: "spsc_sys_inv sz s" and "\<not> prod_blocking (prod s)" and act: "spsc_act sz ty (ProdStep c) s = Some t"
  shows "cons t = cons s \<and> cons_ret t = cons_ret s \<and> stats t = stats s \<and> popped t = popped s \<and>
    \<not> prod_blocking (prod t)"
    "prod t = P_Idle \<and> prod_ret t = Some False \<or>
     pushed t @ pending (prod t) = pushed s @ pending (prod s) \<and> (prod t = P_Idle \<longrightarrow> prod_ret t = Some True) \<and>
     (prod t \<noteq> P_Idle \<longrightarrow> prod_ret t = prod_ret s)"
proof -
  from spsc_act_inv [OF inv act] have f: "spsc_fault t = None" by (simp add: spsc_sys_inv_def shape_ok_def)
  with assms(2,3) show "cons t = cons s \<and> cons_ret t = cons_ret s \<and> stats t = stats s \<and> popped t = popped s \<and>
      \<not> prod_blocking (prod t)"
    by (cases "prod s") (auto simp: spsc_act_def spsc_push_step_def prod_failed_def prod_return_def
        Let_def split: if_splits sum.splits)
  from f assms(2,3) show "prod t = P_Idle \<and> prod_ret t = Some False \<or>
     pushed t @ pending (prod t) = pushed s @ pending (prod s) \<and> (prod t = P_Idle \<longrightarrow> prod_ret t = Some True) \<and>
     (prod t \<noteq> P_Idle \<longrightarrow> prod_ret t = prod_ret s)"
    by (cases "prod s") (auto simp: spsc_act_def spsc_push_step_def prod_failed_def prod_return_def
        Let_def split: if_splits sum.splits)
qed

lemma pop_access:
  assumes inv: "spsc_sys_inv sz s" and act: "spsc_act sz ty (ConsStep c) s = Some t"
  shows "prod t = prod s \<and> prod_ret t = prod_ret s \<and> stats t = stats s \<and> pushed t = pushed s"
    "cons s \<noteq> C_Idle"
    "cons t \<noteq> C_Idle \<and> cons_ret t = cons_ret s \<and> popped t = popped s \<or>
     cons t = C_Idle \<and> cons_ret t = Some None \<and> popped t = popped s \<or>
     (\<exists>v. cons t = C_Idle \<and> cons_ret t = Some (Some v) \<and> popped t = popped s @ [v])"
proof -
  from spsc_act_inv [OF inv act] have f: "spsc_fault t = None" by (simp add: spsc_sys_inv_def shape_ok_def)
  with act show "prod t = prod s \<and> prod_ret t = prod_ret s \<and> stats t = stats s \<and> pushed t = pushed s"
    by (cases "cons s") (auto simp: spsc_act_def spsc_pop_step_def spsc_pop_check_step_def cons_return_def
        split: if_splits sum.splits)
  from f act show "cons s \<noteq> C_Idle"
    by (auto simp: spsc_act_def spsc_pop_step_def split: if_splits)
  from f act show "cons t \<noteq> C_Idle \<and> cons_ret t = cons_ret s \<and> popped t = popped s \<or>
     cons t = C_Idle \<and> cons_ret t = Some None \<and> popped t = popped s \<or>
     (\<exists>v. cons t = C_Idle \<and> cons_ret t = Some (Some v) \<and> popped t = popped s @ [v])"
    by (cases "cons s") (auto simp: spsc_act_def spsc_pop_step_def spsc_pop_check_step_def cons_return_def
        split: if_splits sum.splits)
qed

lemma spsc_wait_push_access:
  assumes inv: "spsc_sys_inv sz s" and "prod_blocking (prod s)" and act: "spsc_act sz ty (ProdStep c) s = Some t"
  shows "cons t = cons s \<and> cons_ret t = cons_ret s \<and> stats t = stats s \<and> popped t = popped s \<and>
    (prod t = P_Idle \<or> prod_blocking (prod t))"
    "prod t = P_Idle \<and> prod_ret t = Some False \<and> Stopped \<in> set (stats s) \<and> pushed t = pushed s \<or>
     pushed t @ pending (prod t) = pushed s @ pending (prod s) \<and> (prod t = P_Idle \<longrightarrow> prod_ret t = Some True) \<and>
     (prod t \<noteq> P_Idle \<longrightarrow> prod_ret t = prod_ret s)"
proof -
  from spsc_act_inv [OF inv act] have f: "spsc_fault t = None" by (simp add: spsc_sys_inv_def shape_ok_def)
  with assms(2,3) show "cons t = cons s \<and> cons_ret t = cons_ret s \<and> stats t = stats s \<and> popped t = popped s \<and>
      (prod t = P_Idle \<or> prod_blocking (prod t))"
    by (cases "prod s") (auto simp: spsc_act_def spsc_push_step_def spsc_push_check_step_def prod_failed_def
        prod_return_def Let_def split: if_splits sum.splits)
  from f assms(2,3) show "prod t = P_Idle \<and> prod_ret t = Some False \<and> Stopped \<in> set (stats s) \<and> pushed t = pushed s \<or>
     pushed t @ pending (prod t) = pushed s @ pending (prod s) \<and> (prod t = P_Idle \<longrightarrow> prod_ret t = Some True) \<and>
     (prod t \<noteq> P_Idle \<longrightarrow> prod_ret t = prod_ret s)"
    by (cases "prod s") (auto simp: spsc_act_def spsc_push_step_def spsc_push_check_step_def prod_failed_def
        prod_return_def Let_def in_set_conv_nth split: if_splits sum.splits)
qed

text \<open>The value that a pop has returned and the client has not taken up yet.\<close>

fun last_got :: "'a option option \<Rightarrow> 'a list" where
  "last_got (Some (Some v)) = [v]"
| "last_got _ = []"

end
