(* ===== verification/QuickStart.thy ===== *)
theory QuickStart
  imports SpscClient
begin

text \<open>
  examples/quick_start.cpp, the first program of the README: a producer thread pushes 1 to 10
  with \<open>try_push\<close> and stops the queue, a consumer thread prints what \<open>blocking_pop\<close> gives
  it until that returns nothing. The two threads are clients of \<open>SpscConcurrent\<close>.
\<close>

section \<open>The program\<close>

definition quick_size :: size_t where
  "quick_size = 1024"

record quick_run =
  qs :: "int spsc_sys"
  q_i :: nat            \<comment> \<open>the loop variable of the producer\<close>
  q_stopped :: bool     \<comment> \<open>it has called \<open>stop\<close>\<close>
  q_got :: "int list"   \<comment> \<open>printed, in order\<close>
  q_over :: bool        \<comment> \<open>the consumer has left its loop\<close>

datatype quick_action =
    PushNext
  | StopQueue
  | ProdAccess nat
  | PopNext
  | ConsAccess nat

definition with_queue :: "int spsc_sys option \<Rightarrow> quick_run \<Rightarrow> quick_run option" where
  "with_queue so r = map_option (\<lambda>s. r\<lparr>qs := s\<rparr>) so"

text \<open>
  \<open>for (int i = 1; i <= 10; ++i) q.try_push(i); q.stop();\<close> and
  \<open>while (auto v = q.blocking_pop()) cout << *v;\<close>
\<close>

fun quick_do :: "int elem_type \<Rightarrow> quick_action \<Rightarrow> quick_run \<Rightarrow> quick_run option" where
  "quick_do ty PushNext r =
     (if prod (qs r) = P_Idle \<and> q_i r \<le> 10
      then with_queue (spsc_act quick_size ty (CallPush (int (q_i r)) False) (qs r)) (r\<lparr>q_i := q_i r + 1\<rparr>)
      else None)"
| "quick_do ty StopQueue r =
     (if prod (qs r) = P_Idle \<and> \<not> q_i r \<le> 10 \<and> \<not> q_stopped r
      then with_queue (spsc_act quick_size ty CallStop (qs r)) (r\<lparr>q_stopped := True\<rparr>)
      else None)"
| "quick_do ty (ProdAccess c) r = with_queue (spsc_act quick_size ty (ProdStep c) (qs r)) r"
| "quick_do ty PopNext r =
     (if cons (qs r) = C_Idle \<and> \<not> q_over r then
        (case cons_ret (qs r) of
           None \<Rightarrow> with_queue (spsc_act quick_size ty (CallPop True) (qs r)) r
         | Some (Some v) \<Rightarrow> with_queue (spsc_act quick_size ty (CallPop True) (qs r)) (r\<lparr>q_got := q_got r @ [v]\<rparr>)
         | Some None \<Rightarrow> Some (r\<lparr>q_over := True\<rparr>))
      else None)"
| "quick_do ty (ConsAccess c) r = with_queue (spsc_act quick_size ty (ConsStep c) (qs r)) r"

inductive quick_step :: "int elem_type \<Rightarrow> quick_run \<Rightarrow> quick_run \<Rightarrow> bool"
  for ty :: "int elem_type" where
  "quick_do ty a r = Some r' \<Longrightarrow> quick_step ty r r'"

inductive_simps quick_step_iff: "quick_step ty r r'"

definition quick_init :: "quick_run" where
  "quick_init = \<lparr>qs = spsc_sys_init quick_size, q_i = 1, q_stopped = False, q_got = [], q_over = False\<rparr>"

abbreviation quick_reach :: "int elem_type \<Rightarrow> quick_run \<Rightarrow> bool" where
  "quick_reach ty \<equiv> reach (\<lambda>r. r = quick_init) (quick_step ty)"

section \<open>The invariant\<close>

definition quick_inv :: "quick_run \<Rightarrow> bool" where
  "quick_inv r \<longleftrightarrow>
     spsc_sys_inv quick_size (qs r) \<and> \<not> prod_blocking (prod (qs r)) \<and> prod_ret (qs r) \<noteq> Some False \<and>
     q_i r \<le> 11 \<and> pushed (qs r) @ pending (prod (qs r)) = map int [1..<q_i r] \<and>
     (if q_stopped r then stats (qs r) = [Running, Stopped] \<and> prod (qs r) = P_Idle \<and> q_i r = 11
      else stats (qs r) = [Running]) \<and>
     q_got r @ last_got (cons_ret (qs r)) = popped (qs r) \<and> (cons (qs r) \<noteq> C_Idle \<longrightarrow> cons_ret (qs r) = None) \<and>
     1 \<le> q_i r"

lemma quick_size_facts: "pow2_size quick_size" "unat quick_size = 1024"
proof -
  have "quick_size = 2 ^ 10" by (simp add: quick_size_def)
  then show "pow2_size quick_size" unfolding pow2_size_def by (intro exI [of _ 10]) simp
  show "unat quick_size = 1024" by (simp add: quick_size_def)
qed

lemma quick_init_inv: "quick_inv quick_init"
  using spsc_sys_inv_init [OF quick_size_facts(1)]
  by (simp add: quick_inv_def quick_init_def spsc_sys_init_def)

lemma quick_invD:
  assumes "quick_inv r"
  shows "spsc_sys_inv quick_size (qs r)" "\<not> prod_blocking (prod (qs r))" "prod_ret (qs r) \<noteq> Some False"
    "q_i r \<le> 11" "pushed (qs r) @ pending (prod (qs r)) = map int [1..<q_i r]"
    "if q_stopped r then stats (qs r) = [Running, Stopped] \<and> prod (qs r) = P_Idle \<and> q_i r = 11
      else stats (qs r) = [Running]"
    "q_got r @ last_got (cons_ret (qs r)) = popped (qs r)" "cons (qs r) \<noteq> C_Idle \<longrightarrow> cons_ret (qs r) = None"
    "1 \<le> q_i r"
  using assms unfolding quick_inv_def by blast+

lemma quick_prod_inv:
  assumes inv: "quick_inv r" and act: "spsc_act quick_size ty (ProdStep c) (qs r) = Some t"
  shows "quick_inv (r\<lparr>qs := t\<rparr>)"
proof -
  note i = quick_invD [OF inv]
  have busy: "prod (qs r) \<noteq> P_Idle" using act
    by (auto simp: spsc_act_def spsc_push_step_def split: if_splits)
  have st: "\<not> q_stopped r" "stats (qs r) = [Running]" using i(6) busy by (auto split: if_splits)
  have short: "length (pushed (qs r)) \<le> 10" using arg_cong [OF i(5), of length] i(4) by simp
  have "\<not> (prod t = P_Idle \<and> prod_ret t = Some False)"
  proof
    assume rej: "prod t = P_Idle \<and> prod_ret t = Some False"
    with spsc_push_rejected [OF i(1) act] st(2) short quick_size_facts(2) show False by auto
  qed
  with try_push_access [OF i(1,2) act] spsc_act_inv [OF i(1) act] i st show ?thesis
    unfolding quick_inv_def by auto
qed

lemma quick_cons_inv:
  assumes inv: "quick_inv r" and act: "spsc_act quick_size ty (ConsStep c) (qs r) = Some t"
  shows "quick_inv (r\<lparr>qs := t\<rparr>)"
proof -
  note i = quick_invD [OF inv] and p = pop_access [OF quick_invD(1) [OF inv] act]
  from p(2) i(8) have "cons_ret (qs r) = None" by simp
  with i(7) have "q_got r = popped (qs r)" by simp
  with p(3) \<open>cons_ret (qs r) = None\<close> have "q_got r @ last_got (cons_ret t) = popped t"
    "cons t \<noteq> C_Idle \<longrightarrow> cons_ret t = None" by auto
  with p(1) i spsc_act_inv [OF i(1) act] show ?thesis unfolding quick_inv_def by auto
qed

lemma quick_step_inv:
  assumes inv: "quick_inv r" and step: "quick_step ty r r'"
  shows "quick_inv r'"
proof -
  note i = quick_invD [OF inv]
  from step obtain a where do: "quick_do ty a r = Some r'" by (auto simp: quick_step_iff)
  show ?thesis
  proof (cases a)
    case PushNext
    with do obtain t where idle: "prod (qs r) = P_Idle" "q_i r \<le> 10"
      and act: "spsc_act quick_size ty (CallPush (int (q_i r)) False) (qs r) = Some t"
      and r': "r' = r\<lparr>q_i := q_i r + 1, qs := t\<rparr>" by (auto simp: with_queue_def split: if_splits)
    have t: "t = (qs r)\<lparr>prod := P_Status (int (q_i r)) False, prod_ret := None\<rparr>"
      using act idle by (auto simp: spsc_act_def split: if_splits)
    have "pushed (qs r) @ [int (q_i r)] = map int [1..<Suc (q_i r)]"
      using i(5,9) idle by simp
    with i idle spsc_act_inv [OF i(1) act] show ?thesis unfolding quick_inv_def r' by (auto simp: t split: if_splits)
  next
    case StopQueue
    with do obtain t where c: "prod (qs r) = P_Idle" "\<not> q_i r \<le> 10" "\<not> q_stopped r"
      and act: "spsc_act quick_size ty CallStop (qs r) = Some t"
      and r': "r' = r\<lparr>q_stopped := True, qs := t\<rparr>" by (auto simp: with_queue_def split: if_splits)
    have t: "t = (qs r)\<lparr>sq := spsc_stop (sq (qs r)), stats := stats (qs r) @ [Stopped]\<rparr>"
      using act by (auto simp: spsc_act_def split: if_splits)
    from i c spsc_act_inv [OF i(1) act] show ?thesis unfolding quick_inv_def r' by (auto simp: t)
  next
    case (ProdAccess c)
    with do obtain t where "spsc_act quick_size ty (ProdStep c) (qs r) = Some t" "r' = r\<lparr>qs := t\<rparr>"
      by (auto simp: with_queue_def)
    with quick_prod_inv [OF inv] show ?thesis by simp
  next
    case (ConsAccess c)
    with do obtain t where "spsc_act quick_size ty (ConsStep c) (qs r) = Some t" "r' = r\<lparr>qs := t\<rparr>"
      by (auto simp: with_queue_def)
    with quick_cons_inv [OF inv] show ?thesis by simp
  next
    case PopNext
    with do have idle: "cons (qs r) = C_Idle" by (simp split: if_splits)
    show ?thesis
    proof (cases "cons_ret (qs r) = Some None")
      case True
      with PopNext do have "r' = r\<lparr>q_over := True\<rparr>" by (simp split: if_splits)
      with inv show ?thesis by (simp add: quick_inv_def)
    next
      case False
      with PopNext do obtain t where act: "spsc_act quick_size ty (CallPop True) (qs r) = Some t"
        and r': "r' = r\<lparr>q_got := q_got r @ last_got (cons_ret (qs r)), qs := t\<rparr>"
        by (auto simp: with_queue_def split: if_splits option.splits)
      have t: "t = (qs r)\<lparr>cons := C_Tail True, cons_ret := None\<rparr>"
        using act idle by (auto simp: spsc_act_def split: if_splits)
      from i spsc_act_inv [OF i(1) act] show ?thesis unfolding quick_inv_def r' by (auto simp: t)
    qed
  qed
qed

interpretation quick_run: invariant_system "\<lambda>r. r = quick_init" "quick_step ty" quick_inv
  using quick_init_inv quick_step_inv by unfold_locales blast+

fun quick_sched :: "int elem_type \<Rightarrow> quick_action list \<Rightarrow> quick_run \<Rightarrow> quick_run option" where
  "quick_sched ty [] r = Some r"
| "quick_sched ty (a # as) r = (case quick_do ty a r of None \<Rightarrow> None | Some r' \<Rightarrow> quick_sched ty as r')"

lemma quick_sched_reach: "quick_reach ty r \<Longrightarrow> quick_sched ty as r = Some t \<Longrightarrow> quick_reach ty t"
proof (induction as arbitrary: r)
  case (Cons a as)
  from Cons.prems(2) obtain u where u: "quick_do ty a r = Some u" "quick_sched ty as u = Some t"
    by (auto split: option.splits)
  from reach.reach_step [OF Cons.prems(1) quick_step.intros [OF u(1)]] u(2) show ?case by (rule Cons.IH)
qed simp

lemma quick_init_reach: "quick_reach ty quick_init"
  by (rule reach.reach_init) simp

text \<open>The consumer looks into the empty queue, the producer does all its work, the consumer goes on.\<close>

definition one_push :: "quick_action list" where
  "one_push = [PushNext, ProdAccess 0, ProdAccess 0, ProdAccess 0, ProdAccess 0, ProdAccess 0]"

definition silent_run :: "quick_action list" where
  "silent_run = [PopNext, ConsAccess 0, ConsAccess 0] @
     one_push @ one_push @ one_push @ one_push @ one_push @
     one_push @ one_push @ one_push @ one_push @ one_push @
     [StopQueue, ConsAccess 1, ConsAccess 1, PopNext]"

lemma silent_run_end:
  "\<exists>r. quick_sched ty silent_run quick_init = Some r \<and> q_over r \<and> q_got r = [] \<and> q_stopped r \<and>
     pushed (qs r) = map int [1..<11]"
  by (simp add: silent_run_def one_push_def quick_init_def quick_size_def with_queue_def spsc_eval upt_rec)

text \<open>What is printed are the first numbers.\<close>

lemma quick_prefix:
  assumes "quick_inv r"
  shows "q_got r = take (length (q_got r)) (map int [1..<11])"
proof -
  note i = quick_invD [OF assms]
  have "popped (qs r) = take (length (popped (qs r))) (pushed (qs r))"
    using spsc_sys_inv_parts(3) [OF i(1)] by (simp add: views_ok_def)
  moreover have "map int [1..<11] = map int [1..<q_i r] @ map int [q_i r..<11]"
    using i(4,9) by (metis map_append upt_add_eq_append le_add_diff_inverse)
  ultimately have "\<exists>ys. map int [1..<11] = popped (qs r) @ ys"
    using i(5) by (metis append.assoc append_take_drop_id)
  then obtain ys where "map int [1..<11] = q_got r @ ys" using i(7) by (metis append.assoc)
  then show ?thesis by (metis append_eq_conv_conj)
qed

definition any_int :: "int elem_type" where
  "any_int = \<lparr>move_constructible = True, move_assignable = True, moved_from = id\<rparr>"

section \<open>Properties\<close>

text \<open>
  C39: In every state of the program no access is a fault, every \<open>try_push\<close> that has returned has
  returned true, and what the consumer has printed are the first of the numbers 1 to 10 in
  order; when the producer stops the queue it has put all ten into it.
\<close>

theorem quick_start_in_order:
  assumes "quick_reach ty r"
  shows "spsc_fault (qs r) = None \<and> prod_ret (qs r) \<noteq> Some False \<and>
    q_got r = take (length (q_got r)) (map int [1..<11]) \<and>
    (q_stopped r \<longrightarrow> pushed (qs r) = map int [1..<11])"
proof -
  note inv = quick_run.reach_inv [OF assms]
  note i = quick_invD [OF inv]
  have "pushed (qs r) = map int [1..<11]" if "q_stopped r" using i(5,6) that by simp
  with quick_prefix [OF inv] i(3) spsc_sys_inv_parts(2) [OF i(1)] show ?thesis by (simp add: shape_ok_def)
qed

theorem quick_start_in_order_witness:
  "\<exists>r. quick_reach any_int r \<and> q_stopped r \<and> pushed (qs r) = map int [1..<11]"
proof -
  obtain r where r: "quick_sched any_int silent_run quick_init = Some r" "q_stopped r" using silent_run_end by blast
  note reach = quick_sched_reach [OF quick_init_reach r(1)]
  from quick_start_in_order [OF reach] r(2) reach show ?thesis by blast
qed

text \<open>
  The program may print nothing at all, against what the README says: the consumer looks
  into the queue before the producer starts, the producer pushes its ten numbers and stops the
  queue, and the consumer, which now looks at the status only, leaves its loop. All loads in
  this run return the latest value.
\<close>

lemma quick_start_silent:
  "\<exists>r. quick_reach ty r \<and> q_over r \<and> q_got r = [] \<and> q_stopped r \<and> pushed (qs r) = map int [1..<11]"
proof -
  obtain r where "quick_sched ty silent_run quick_init = Some r" "q_over r" "q_got r = []" "q_stopped r"
    "pushed (qs r) = map int [1..<11]" using silent_run_end by blast
  with quick_sched_reach [OF quick_init_reach] show ?thesis by blast
qed

end
