(* ===== verification/Fairness.thy ===== *)
theory Fairness
  imports Prelude
begin

text \<open>
  Progress, once for any system of threads. A call is wait-free if its thread is done after a
  fixed number of its own steps, whatever the others do. A system under a fair scheduler
  reaches a goal if in every state some thread helps, its next step brings the system nearer to
  the goal, and until it takes that step nothing the others do takes its help away; the
  clients supply the threads that help and the well-founded measure.
\<close>

section \<open>Schedules\<close>

text \<open>\<open>sched\<close> executes a schedule of actions one after the other.\<close>

locale scheduler =
  fixes act :: "'a \<Rightarrow> 's \<Rightarrow> 's option"
    and sched :: "'a list \<Rightarrow> 's \<Rightarrow> 's option"
  assumes sched_Nil: "sched [] s = Some s"
    and sched_Cons: "sched (a # as) s = (case act a s of None \<Rightarrow> None | Some t \<Rightarrow> sched as t)"

text \<open>
  A call of a thread: \<open>own\<close> are the actions of the thread, \<open>inside\<close> says that it is in the call
  and \<open>left\<close> how many steps it has left at most.
\<close>

locale wait_free_call = scheduler act sched
  for act :: "'a \<Rightarrow> 's \<Rightarrow> 's option"
    and sched :: "'a list \<Rightarrow> 's \<Rightarrow> 's option" +
  fixes own :: "'a \<Rightarrow> bool"
    and inv :: "'s \<Rightarrow> bool"
    and inside :: "'s \<Rightarrow> bool"
    and left :: "'s \<Rightarrow> nat"
  assumes inside_inv: "inv s \<Longrightarrow> inside s \<Longrightarrow> act a s = Some t \<Longrightarrow> inv t"
    and left_pos: "inv s \<Longrightarrow> inside s \<Longrightarrow> 0 < left s"
    and own_step: "inv s \<Longrightarrow> inside s \<Longrightarrow> own a \<Longrightarrow> act a s = Some t \<Longrightarrow> inside t \<Longrightarrow> left t < left s"
    and other_step: "inv s \<Longrightarrow> inside s \<Longrightarrow> \<not> own a \<Longrightarrow> act a s = Some t \<Longrightarrow> left t = left s"
begin

lemma returns:
  assumes "inv s" and "inside s" and "sched as s = Some t" and "left s \<le> length (filter own as)"
  shows "\<exists>as1 as2 u. as = as1 @ as2 \<and> sched as1 s = Some u \<and> inv u \<and> \<not> inside u"
  using assms
proof (induction as arbitrary: s)
  case Nil
  with left_pos [OF Nil.prems(1,2)] show ?case by simp
next
  case (Cons a as)
  from Cons.prems(3) obtain u where u: "act a s = Some u" "sched as u = Some t"
    by (auto simp: sched_Cons split: option.splits)
  note inv = inside_inv [OF Cons.prems(1,2) u(1)]
  have first: "sched (a # xs) s = sched xs u" for xs by (simp add: sched_Cons u(1))
  show ?case
  proof (cases "inside u")
    case False
    with inv first [of "[]"] show ?thesis
      by (intro exI [of _ "[a]"] exI [of _ as] exI [of _ u]) (simp add: sched_Nil)
  next
    case True
    have "left u \<le> length (filter own as)"
      using own_step [OF Cons.prems(1,2) _ u(1) True] other_step [OF Cons.prems(1,2) _ u(1)] Cons.prems(4)
      by (cases "own a") auto
    from Cons.IH [OF inv True u(2) this] obtain as1 as2 w where
      "as = as1 @ as2" "sched as1 u = Some w" "inv w" "\<not> inside w" by blast
    with first [of as1] show ?thesis by (intro exI [of _ "a # as1"] exI [of _ as2] exI [of _ w]) simp
  qed
qed

end

section \<open>Runs\<close>

text \<open>
  The moment \<open>i\<close> of a run leads from the state \<open>rs i\<close> to the state \<open>rs (i + 1)\<close>, by the action
  \<open>as i\<close> or by nothing.
\<close>

definition is_run :: "('a \<Rightarrow> 's \<Rightarrow> 's option) \<Rightarrow> (nat \<Rightarrow> 'a option) \<Rightarrow> (nat \<Rightarrow> 's) \<Rightarrow> bool" where
  "is_run act as rs \<longleftrightarrow>
     (\<forall>i. case as i of None \<Rightarrow> rs (Suc i) = rs i | Some a \<Rightarrow> act a (rs i) = Some (rs (Suc i)))"

text \<open>Weak fairness: no thread that can go on for ever is passed over for ever.\<close>

definition can_go :: "('a \<Rightarrow> 's \<Rightarrow> 's option) \<Rightarrow> ('a \<Rightarrow> 't option) \<Rightarrow> 't \<Rightarrow> 's \<Rightarrow> bool" where
  "can_go act agent t s \<longleftrightarrow> (\<exists>a s'. agent a = Some t \<and> act a s = Some s')"

definition is_fair ::
  "('a \<Rightarrow> 's \<Rightarrow> 's option) \<Rightarrow> ('a \<Rightarrow> 't option) \<Rightarrow> (nat \<Rightarrow> 'a option) \<Rightarrow> (nat \<Rightarrow> 's) \<Rightarrow> bool" where
  "is_fair act agent as rs \<longleftrightarrow>
     (\<forall>t i. \<exists>j\<ge>i. (\<exists>a. as j = Some a \<and> agent a = Some t) \<or> \<not> can_go act agent t (rs j))"

text \<open>
  Threads may look at old values. Where \<open>sees s0 a s\<close> says that the action \<open>a\<close> in \<open>s\<close> looks at
  nothing older than what was stored in \<open>s0\<close>: what is stored at a moment is seen by all loads
  from some later moment on.
\<close>

definition stores_visible ::
  "('s \<Rightarrow> 'a \<Rightarrow> 's \<Rightarrow> bool) \<Rightarrow> (nat \<Rightarrow> 'a option) \<Rightarrow> (nat \<Rightarrow> 's) \<Rightarrow> bool" where
  "stores_visible sees as rs \<longleftrightarrow> (\<forall>n. \<exists>m\<ge>n. \<forall>i\<ge>m. \<forall>a. as i = Some a \<longrightarrow> sees (rs n) a (rs i))"

lemma is_runD:
  assumes "is_run act as rs"
  shows "as i = None \<Longrightarrow> rs (Suc i) = rs i" "as i = Some a \<Longrightarrow> act a (rs i) = Some (rs (Suc i))"
  using assms by (auto simp: is_run_def split: option.splits dest: spec [of _ i])

lemma run_reach:
  assumes "is_run act as rs" and "init (rs 0)" and "\<And>a s s'. act a s = Some s' \<Longrightarrow> step s s'"
  shows "reach init step (rs i)"
proof (induction i)
  case (Suc i)
  then show ?case
    using is_runD [OF assms(1), of i] assms(3) by (cases "as i") (auto intro: reach.reach_step)
qed (use assms(2) in \<open>rule reach.reach_init\<close>)

text \<open>The rest of a run is a run, of a system with fewer actions too if it takes none of the others.\<close>

lemma run_rest:
  assumes "is_run act as rs" and "\<And>i a. k \<le> i \<Longrightarrow> as i = Some a \<Longrightarrow> act' a (rs i) = act a (rs i)"
  shows "is_run act' (\<lambda>i. as (k + i)) (\<lambda>i. rs (k + i))"
  using is_runD [OF assms(1)] assms(2) by (auto simp: is_run_def split: option.split)

lemma fair_rest:
  assumes "is_fair act agent as rs" and "\<And>t s. can_go act' agent t s \<Longrightarrow> can_go act agent t s"
  shows "is_fair act' agent (\<lambda>i. as (k + i)) (\<lambda>i. rs (k + i))"
  unfolding is_fair_def
proof (intro allI)
  fix t i
  from assms(1) obtain j where j: "k + i \<le> j" "(\<exists>a. as j = Some a \<and> agent a = Some t) \<or> \<not> can_go act agent t (rs j)"
    unfolding is_fair_def by blast
  then obtain d where d: "j = k + (i + d)" by (metis add.assoc le_Suc_ex)
  from j(2) assms(2) show "\<exists>j\<ge>i. (\<exists>a. as (k + j) = Some a \<and> agent a = Some t) \<or> \<not> can_go act' agent t (rs (k + j))"
    unfolding d by (intro exI [of _ "i + d"]) auto
qed

text \<open>Every reachable state is on a run that then stands still.\<close>

lemma reach_run:
  assumes "reach init step s" and "\<And>s s'. step s s' \<Longrightarrow> \<exists>a. act a s = Some s'"
  shows "\<exists>as rs n. is_run act as rs \<and> init (rs 0) \<and> (\<forall>i\<ge>n. as i = None \<and> rs i = s)"
  using assms(1)
proof (induction rule: reach.induct)
  case (reach_init s)
  then show ?case by (intro exI [of _ "\<lambda>_. None"] exI [of _ "\<lambda>_. s"]) (simp add: is_run_def)
next
  case (reach_step s s')
  then obtain as rs n where run: "is_run act as rs" "init (rs 0)" "\<forall>i\<ge>n. as i = None \<and> rs i = s" by blast
  from assms(2) [OF reach_step.hyps(2)] obtain a where a: "act a s = Some s'" by blast
  let ?as = "as(n := Some a)" and ?rs = "\<lambda>i. if i \<le> n then rs i else s'"
  have "case ?as i of None \<Rightarrow> ?rs (Suc i) = ?rs i | Some b \<Rightarrow> act b (?rs i) = Some (?rs (Suc i))" for i
    using is_runD [OF run(1), of i] run(3) a
    by (cases i n rule: linorder_cases) (auto split: option.splits)
  then have "is_run act ?as ?rs" by (simp add: is_run_def)
  moreover have "\<forall>i\<ge>Suc n. ?as i = None \<and> ?rs i = s'" using run(3) by simp
  moreover have "init (?rs 0)" using run(2) by simp
  ultimately show ?case by blast
qed

text \<open>A schedule is a run that then stands still.\<close>

context scheduler
begin

lemma sched_run:
  assumes "sched acts s = Some t"
  shows "\<exists>as rs. is_run act as rs \<and> (\<forall>i. as i = (if i < length acts then Some (acts ! i) else None)) \<and>
    (\<forall>i\<le>length acts. sched (take i acts) s = Some (rs i)) \<and> (\<forall>i\<ge>length acts. rs i = t)"
  using assms
proof (induction acts arbitrary: s)
  case Nil
  then show ?case
    by (intro exI [of _ "\<lambda>_. None"] exI [of _ "\<lambda>_. s"]) (simp add: sched_Nil is_run_def)
next
  case (Cons a acts)
  from Cons.prems obtain u where u: "act a s = Some u" "sched acts u = Some t"
    by (auto simp: sched_Cons split: option.splits)
  from Cons.IH [OF u(2)] obtain as rs where IH: "is_run act as rs"
    "\<forall>i. as i = (if i < length acts then Some (acts ! i) else None)"
    "\<forall>i\<le>length acts. sched (take i acts) u = Some (rs i)" "\<forall>i\<ge>length acts. rs i = t" by blast
  let ?as = "case_nat (Some a) as" and ?rs = "case_nat s rs"
  from IH(3) [rule_format, of 0] have "rs 0 = u" by (simp add: sched_Nil)
  then have "is_run act ?as ?rs"
    using IH(1) u(1) unfolding is_run_def by (auto split: nat.split)
  moreover have "\<forall>i. ?as i = (if i < length (a # acts) then Some ((a # acts) ! i) else None)"
    using IH(2) by (auto split: nat.split)
  moreover have "\<forall>i\<le>length (a # acts). sched (take i (a # acts)) s = Some (?rs i)"
    using IH(3) u(1) by (auto simp: sched_Nil sched_Cons split: nat.split)
  moreover have "\<forall>i\<ge>length (a # acts). ?rs i = t" using IH(4) by (auto split: nat.split)
  ultimately show ?case by blast
qed

end

text \<open>It is fair if there is nothing left to do.\<close>

lemma standstill_fair:
  assumes "\<forall>i\<ge>n. rs i = s" and "\<And>t. \<not> can_go act agent t s"
  shows "is_fair act agent as rs"
  unfolding is_fair_def
proof (intro allI)
  fix t i
  have "rs (max i n) = s" using assms(1) by simp
  with assms(2) [of t] show "\<exists>j\<ge>i. (\<exists>a. as j = Some a \<and> agent a = Some t) \<or> \<not> can_go act agent t (rs j)"
    by (intro exI [of _ "max i n"]) simp
qed

text \<open>And all that is stored is seen if there is nothing left to look.\<close>

lemma standstill_visible:
  assumes "\<forall>i\<ge>n. as i = None"
  shows "stores_visible sees as rs"
  unfolding stores_visible_def
proof
  fix k
  show "\<exists>m\<ge>k. \<forall>i\<ge>m. \<forall>a. as i = Some a \<longrightarrow> sees (rs k) a (rs i)"
    using assms by (intro exI [of _ "max k n"]) auto
qed

text \<open>A run of two actions.\<close>

lemma two_actions_run:
  assumes "act a s0 = Some s1" and "act b s1 = Some s2"
  shows "is_run act (\<lambda>i. if i = 0 then Some a else if i = 1 then Some b else None)
    (\<lambda>i. if i = 0 then s0 else if i = 1 then s1 else s2)"
  using assms by (simp add: is_run_def)

section \<open>Progress\<close>

locale fair_progress =
  fixes act :: "'a \<Rightarrow> 's \<Rightarrow> 's option"
    and agent :: "'a \<Rightarrow> 't option"
    and inv :: "'s \<Rightarrow> bool"
    and goal :: "'s \<Rightarrow> bool"
    and helps :: "'t \<Rightarrow> 's \<Rightarrow> bool"
    and rank :: "'s \<Rightarrow> 'w"
    and less :: "('w \<times> 'w) set"
  assumes act_inv: "inv s \<Longrightarrow> \<not> goal s \<Longrightarrow> act a s = Some s' \<Longrightarrow> \<not> goal s' \<Longrightarrow> inv s'"
    and wf_less: "wf less"
    and helper: "inv s \<Longrightarrow> \<not> goal s \<Longrightarrow> \<exists>t. helps t s"
    and helper_goes: "inv s \<Longrightarrow> \<not> goal s \<Longrightarrow> helps t s \<Longrightarrow> can_go act agent t s"
    and progress: "inv s \<Longrightarrow> \<not> goal s \<Longrightarrow> helps t s \<Longrightarrow> act a s = Some s' \<Longrightarrow>
      goal s' \<or> (rank s', rank s) \<in> less \<or> agent a \<noteq> Some t \<and> rank s' = rank s \<and> helps t s'"
begin

text \<open>While nothing has been gained, the thread still helps.\<close>

lemma help_lasts:
  assumes run: "is_run act as rs" and inv: "\<And>m. i \<le> m \<Longrightarrow> inv (rs m) \<and> \<not> goal (rs m)"
    and h: "helps t (rs i)"
    and idle: "\<And>m. i \<le> m \<Longrightarrow> m \<le> i + k \<Longrightarrow> (rank (rs m), rank (rs i)) \<notin> less"
  shows "helps t (rs (i + k)) \<and> rank (rs (i + k)) = rank (rs i) \<and>
    (\<forall>m a. i \<le> m \<and> m < i + k \<and> as m = Some a \<longrightarrow> agent a \<noteq> Some t)"
  using idle
proof (induction k)
  case (Suc k)
  let ?m = "i + k"
  from Suc have IH: "helps t (rs ?m)" "rank (rs ?m) = rank (rs i)"
    "\<forall>m a. i \<le> m \<and> m < ?m \<and> as m = Some a \<longrightarrow> agent a \<noteq> Some t" by simp_all
  have m: "inv (rs ?m)" "\<not> goal (rs ?m)" "\<not> goal (rs (Suc ?m))" "(rank (rs (Suc ?m)), rank (rs i)) \<notin> less"
    using inv [of ?m] inv [of "Suc ?m"] Suc.prems [of "Suc ?m"] by simp_all
  show ?case
  proof (cases "as ?m")
    case None
    with is_runD(1) [OF run None] IH show ?thesis by (auto simp: less_Suc_eq)
  next
    case (Some a)
    from progress [OF m(1,2) IH(1) is_runD(2) [OF run Some]] m(3,4) IH(2)
    have "agent a \<noteq> Some t" "rank (rs (Suc ?m)) = rank (rs ?m)" "helps t (rs (Suc ?m))" by auto
    with IH Some show ?thesis by (auto simp: less_Suc_eq)
  qed
qed (use h in auto)

text \<open>So a fair run that stays away from the goal gains something, \<dots>\<close>

lemma gains:
  assumes run: "is_run act as rs" and fair: "is_fair act agent as rs"
    and inv: "\<And>m. i \<le> m \<Longrightarrow> inv (rs m) \<and> \<not> goal (rs m)"
  shows "\<exists>m\<ge>i. (rank (rs m), rank (rs i)) \<in> less"
proof (rule ccontr)
  assume "\<not> ?thesis"
  then have idle: "(rank (rs m), rank (rs i)) \<notin> less" if "i \<le> m" for m
    using that by blast
  from helper inv [of i] obtain t where t: "helps t (rs i)" by blast
  from fair obtain j where j: "i \<le> j"
    "(\<exists>a. as j = Some a \<and> agent a = Some t) \<or> \<not> can_go act agent t (rs j)"
    unfolding is_fair_def by blast
  have "helps t (rs j)"
    using help_lasts [OF run inv t, of "j - i"] idle j(1) by simp
  with helper_goes inv [OF j(1)] j(2) obtain a where a: "as j = Some a" "agent a = Some t" by blast
  with help_lasts [OF run inv t, of "Suc j - i"] idle j(1) show False by auto
qed

text \<open>\<dots> and as it cannot gain for ever it reaches the goal.\<close>

lemma fair_goal:
  assumes run: "is_run act as rs" and fair: "is_fair act agent as rs" and start: "inv (rs i)"
  shows "\<exists>m\<ge>i. goal (rs m)"
proof (rule ccontr)
  assume "\<not> ?thesis"
  then have away: "\<not> goal (rs m)" if "i \<le> m" for m using that by blast
  have inv: "inv (rs m)" if "i \<le> m" for m
    using that
  proof (induction m rule: dec_induct)
    case (step m)
    have "\<not> goal (rs m)" "\<not> goal (rs (Suc m))" using away step.hyps by simp_all
    with is_runD [OF run, of m] act_inv [OF step.IH] show ?case by (cases "as m") (auto simp: step.IH)
  qed (rule start)
  have False if "w = rank (rs k)" "i \<le> k" for w k
    using wf_less that
  proof (induction w arbitrary: k rule: wf_induct_rule)
    case (less w)
    then have "inv (rs m) \<and> \<not> goal (rs m)" if "k \<le> m" for m using that inv away by simp
    from gains [OF run fair this] obtain m where m: "k \<le> m" "(rank (rs m), rank (rs k)) \<in> less" by blast
    from less.IH [OF m(2) [folded less.prems(1)] refl] less.prems(2) m(1) show False by simp
  qed
  then show False by blast
qed

end

end
