(* ===== verification/SpscProgress.thy ===== *)
theory SpscProgress
  imports SpscConcurrent Fairness
begin

text \<open>
  Progress of the calls of \<open>BoundedSPSCQueue\<close> (include/sync_tools/spsc_queue.hpp): the \<open>try_\<close> calls
  are wait-free, and \<open>stop()\<close> ends the blocking ones, under a weakly fair scheduler and if stores
  become visible after a while.
\<close>

section \<open>Wait-free calls\<close>

interpretation spsc_schedules: scheduler "spsc_act sz ty" "spsc_sched sz ty"
  for sz :: size_t and ty :: "'a elem_type"
  by unfold_locales simp_all



section \<open>Fair runs\<close>

datatype spsc_side = Producer | Consumer

text \<open>A call that has begun is owed its steps; calls, \<open>stop()\<close> and \<open>run()\<close> are not owed.\<close>

fun side_of :: "'a spsc_action \<Rightarrow> spsc_side option" where
  "side_of (ProdStep c) = Some Producer"
| "side_of (ConsStep c) = Some Consumer"
| "side_of _ = None"

text \<open>
  The load that the action \<open>a\<close> makes in \<open>s\<close>, if it makes one, returns nothing older than
  what was stored in \<open>s0\<close>.
\<close>

fun sees :: "'a spsc_sys \<Rightarrow> 'a spsc_action \<Rightarrow> 'a spsc_sys \<Rightarrow> bool" where
  "sees s0 (ProdStep c) s \<longleftrightarrow>
     (case prod s of
        P_Status v b \<Rightarrow> length (stats s0) \<le> Suc c
      | P_Check1 v \<Rightarrow> length (stats s0) \<le> Suc c
      | P_Check2 v \<Rightarrow> length (stats s0) \<le> Suc c
      | P_Tail v b head nxt \<Rightarrow> length (popped s0) \<le> c
      | _ \<Rightarrow> True)"
| "sees s0 (ConsStep c) s \<longleftrightarrow>
     (case cons s of
        C_Head b tail \<Rightarrow> length (pushed s0) \<le> c
      | C_Check1 \<Rightarrow> length (stats s0) \<le> Suc c
      | C_Check2 \<Rightarrow> length (stats s0) \<le> Suc c
      | _ \<Rightarrow> True)"
| "sees s0 _ s \<longleftrightarrow> True"

section \<open>After the stop\<close>

text \<open>The steps that do not look back to before the stop.\<close>

fun knows_stop :: "'a spsc_action \<Rightarrow> 'a spsc_sys \<Rightarrow> bool" where
  "knows_stop (ProdStep c) s \<longleftrightarrow>
     (case prod s of
        P_Status v b \<Rightarrow> stats s ! c = Stopped
      | P_Check1 v \<Rightarrow> stats s ! c = Stopped
      | P_Check2 v \<Rightarrow> stats s ! c = Stopped
      | _ \<Rightarrow> True)"
| "knows_stop (ConsStep c) s \<longleftrightarrow>
     (case cons s of
        C_Check1 \<Rightarrow> stats s ! c = Stopped
      | C_Check2 \<Rightarrow> stats s ! c = Stopped
      | _ \<Rightarrow> True)"
| "knows_stop CallRun s \<longleftrightarrow> False"
| "knows_stop _ s \<longleftrightarrow> True"

definition stopped_act :: "size_t \<Rightarrow> 'a elem_type \<Rightarrow> 'a spsc_action \<Rightarrow> 'a spsc_sys \<Rightarrow> 'a spsc_sys option" where
  "stopped_act sz ty a s = (if knows_stop a s then spsc_act sz ty a s else None)"

definition stopped_inv :: "size_t \<Rightarrow> 'a spsc_sys \<Rightarrow> bool" where
  "stopped_inv sz s \<longleftrightarrow> spsc_sys_inv sz s \<and> last (stats s) = Stopped"

fun push_left :: "'a prod_pc \<Rightarrow> nat" where
  "push_left (P_Status v b) = 7"
| "push_left (P_Head v b) = 6"
| "push_left (P_Tail v b head nxt) = 5"
| "push_left (P_Build v b head nxt) = 4"
| "push_left (P_Publish v b nxt) = 3"
| "push_left (P_Check1 v) = 2"
| "push_left (P_Check2 v) = 1"
| "push_left P_Idle = 0"

fun pop_left :: "'a cons_pc \<Rightarrow> nat" where
  "pop_left (C_Tail b) = 7"
| "pop_left (C_Head b tail) = 6"
| "pop_left (C_Read b tail) = 5"
| "pop_left (C_Destroy b tail v) = 4"
| "pop_left (C_Publish b tail v) = 3"
| "pop_left C_Check1 = 2"
| "pop_left C_Check2 = 1"
| "pop_left C_Idle = 0"

lemma stopped_act_inv:
  assumes "stopped_inv sz s" and act: "stopped_act sz ty a s = Some t"
  shows "stopped_inv sz t"
proof -
  from act have do: "spsc_act sz ty a s = Some t" and a: "knows_stop a s" by (simp_all add: stopped_act_def split: if_splits)
  have inv: "spsc_sys_inv sz s" "last (stats s) = Stopped" using assms(1) by (simp_all add: stopped_inv_def)
  have "last (stats t) = Stopped"
  proof (cases a)
    case (ProdStep c)
    with do inv(2) show ?thesis
      by (cases "prod s") (auto simp: spsc_act_def spsc_push_step_def spsc_push_check_step_def prod_failed_def
          prod_return_def Let_def split: if_splits sum.splits)
  next
    case (ConsStep c)
    with do inv(2) show ?thesis
      by (cases "cons s") (auto simp: spsc_act_def spsc_pop_step_def spsc_pop_check_step_def cons_return_def
          split: if_splits sum.splits)
  qed (use do a inv(2) in \<open>auto simp: spsc_act_def split: if_splits\<close>)
  with spsc_act_inv [OF inv(1) do] show ?thesis by (simp add: stopped_inv_def)
qed

lemma last_status:
  assumes "stopped_inv sz s"
  shows "prod_stat s \<le> length (stats s) - 1" "cons_stat s \<le> length (stats s) - 1"
    "length (stats s) - 1 < length (stats s)" "stats s ! (length (stats s) - 1) = Stopped" "spsc_fault s = None"
  using assms by (auto simp: stopped_inv_def spsc_sys_inv_def shape_ok_def last_conv_nth)

lemma push_goes:
  assumes inv: "stopped_inv sz s" and busy: "prod s \<noteq> P_Idle"
  shows "can_go (stopped_act sz ty) side_of Producer s"
proof -
  note l = last_status [OF inv]
  have "\<exists>c t. stopped_act sz ty (ProdStep c) s = Some t"
  proof (cases "push_left (prod s) \<in> {7, 2, 1}")
    case True
    with l busy show ?thesis
      by (intro exI [of _ "length (stats s) - 1"])
        (cases "prod s"; simp add: stopped_act_def spsc_act_def spsc_push_step_def spsc_push_check_step_def)
  next
    case False
    from inv have "spsc_sys_inv sz s" by (simp add: stopped_inv_def)
    from spsc_prod_enabled [OF this busy, of ty] obtain c t where "spsc_act sz ty (ProdStep c) s = Some t" by blast
    with False have "stopped_act sz ty (ProdStep c) s = Some t" by (cases "prod s") (simp_all add: stopped_act_def)
    then show ?thesis by blast
  qed
  then show ?thesis unfolding can_go_def by (metis side_of.simps(1))
qed

lemma pop_goes:
  assumes inv: "stopped_inv sz s" and busy: "cons s \<noteq> C_Idle"
  shows "can_go (stopped_act sz ty) side_of Consumer s"
proof -
  note l = last_status [OF inv]
  have "\<exists>c t. stopped_act sz ty (ConsStep c) s = Some t"
  proof (cases "pop_left (cons s) \<in> {2, 1}")
    case True
    with l busy show ?thesis
      by (intro exI [of _ "length (stats s) - 1"])
        (cases "cons s"; simp add: stopped_act_def spsc_act_def spsc_pop_step_def spsc_pop_check_step_def)
  next
    case False
    from inv have "spsc_sys_inv sz s" by (simp add: stopped_inv_def)
    from spsc_cons_enabled [OF this busy, of ty] obtain c t where "spsc_act sz ty (ConsStep c) s = Some t" by blast
    with False have "stopped_act sz ty (ConsStep c) s = Some t" by (cases "cons s") (simp_all add: stopped_act_def)
    then show ?thesis by blast
  qed
  then show ?thesis unfolding can_go_def by (metis side_of.simps(2))
qed

lemma push_nears_return:
  assumes inv: "stopped_inv sz s" and busy: "prod s \<noteq> P_Idle" and act: "stopped_act sz ty a s = Some t"
  shows "push_left (prod t) < push_left (prod s) \<or> side_of a \<noteq> Some Producer \<and> prod t = prod s"
proof (cases "is_prod_step a")
  case True
  then obtain c where a: "a = ProdStep c" by (cases a) auto
  have "spsc_fault t = None" by (rule last_status(5) [OF stopped_act_inv [OF inv act]])
  with act a busy show ?thesis
    by (cases "prod s") (auto simp: stopped_act_def spsc_act_def spsc_push_step_def spsc_push_check_step_def
        prod_failed_def prod_return_def Let_def split: if_splits sum.splits)
next
  case False
  from act have do: "spsc_act sz ty a s = Some t" by (simp add: stopped_act_def split: if_splits)
  from other_step_prod [OF do _ busy] False show ?thesis by (cases a) auto
qed

lemma pop_nears_return:
  assumes inv: "stopped_inv sz s" and busy: "cons s \<noteq> C_Idle" and act: "stopped_act sz ty a s = Some t"
  shows "pop_left (cons t) < pop_left (cons s) \<or> side_of a \<noteq> Some Consumer \<and> cons t = cons s"
proof (cases "is_cons_step a")
  case True
  then obtain c where a: "a = ConsStep c" by (cases a) auto
  have "spsc_fault t = None" by (rule last_status(5) [OF stopped_act_inv [OF inv act]])
  with act a busy show ?thesis
    by (cases "cons s") (auto simp: stopped_act_def spsc_act_def spsc_pop_step_def spsc_pop_check_step_def
        cons_return_def split: if_splits sum.splits)
next
  case False
  from act have do: "spsc_act sz ty a s = Some t" by (simp add: stopped_act_def split: if_splits)
  from other_step_cons [OF do False busy] False show ?thesis by (cases a) auto
qed

interpretation push_returns: fair_progress "stopped_act sz ty" side_of "stopped_inv sz" "\<lambda>s. prod s = P_Idle"
    "\<lambda>t s. t = Producer" "\<lambda>s. push_left (prod s)" less_than
  for sz :: size_t and ty :: "'a elem_type"
proof unfold_locales
  fix s s' :: "'a spsc_sys" and a t
  assume inv: "stopped_inv sz s"
  show "stopped_inv sz s'" if "stopped_act sz ty a s = Some s'" by (rule stopped_act_inv [OF inv that])
  assume busy: "prod s \<noteq> P_Idle"
  show "can_go (stopped_act sz ty) side_of t s" if "t = Producer" unfolding that by (rule push_goes [OF inv busy])
  show "prod s' = P_Idle \<or> (push_left (prod s'), push_left (prod s)) \<in> less_than \<or>
      side_of a \<noteq> Some t \<and> push_left (prod s') = push_left (prod s) \<and> t = Producer"
    if "t = Producer" "stopped_act sz ty a s = Some s'" using push_nears_return [OF inv busy that(2)] that(1) by auto
qed simp_all

interpretation pop_returns: fair_progress "stopped_act sz ty" side_of "stopped_inv sz" "\<lambda>s. cons s = C_Idle"
    "\<lambda>t s. t = Consumer" "\<lambda>s. pop_left (cons s)" less_than
  for sz :: size_t and ty :: "'a elem_type"
proof unfold_locales
  fix s s' :: "'a spsc_sys" and a t
  assume inv: "stopped_inv sz s"
  show "stopped_inv sz s'" if "stopped_act sz ty a s = Some s'" by (rule stopped_act_inv [OF inv that])
  assume busy: "cons s \<noteq> C_Idle"
  show "can_go (stopped_act sz ty) side_of t s" if "t = Consumer" unfolding that by (rule pop_goes [OF inv busy])
  show "cons s' = C_Idle \<or> (pop_left (cons s'), pop_left (cons s)) \<in> less_than \<or>
      side_of a \<noteq> Some t \<and> pop_left (cons s') = pop_left (cons s) \<and> t = Consumer"
    if "t = Consumer" "stopped_act sz ty a s = Some s'" using pop_nears_return [OF inv busy that(2)] that(1) by auto
qed simp_all

text \<open>From the stop on the history of the status only grows by stops.\<close>

lemma stats_grow:
  assumes "spsc_act sz ty a s = Some t" and "a \<noteq> CallRun"
  shows "stats t = stats s \<or> stats t = stats s @ [Stopped]"
proof (cases a)
  case (ProdStep c)
  with assms show ?thesis
    by (cases "prod s") (auto simp: spsc_act_def spsc_push_step_def spsc_push_check_step_def prod_failed_def
        prod_return_def Let_def split: if_splits sum.splits)
next
  case (ConsStep c)
  with assms show ?thesis
    by (cases "cons s") (auto simp: spsc_act_def spsc_pop_step_def spsc_pop_check_step_def cons_return_def
        split: if_splits sum.splits)
qed (use assms in \<open>auto simp: spsc_act_def split: if_splits\<close>)

lemma stats_after_stop:
  assumes run: "is_run (spsc_act sz ty) as rs" and stop: "as k = Some CallStop"
    and never: "\<forall>i\<ge>k. as i \<noteq> Some CallRun" and i: "Suc k \<le> i"
  shows "\<exists>e. stats (rs i) = stats (rs k) @ replicate (Suc e) Stopped"
  using i
proof (induction i rule: dec_induct)
  case base
  from is_runD(2) [OF run stop] have "stats (rs (Suc k)) = stats (rs k) @ replicate (Suc 0) Stopped"
    by (auto simp: spsc_act_def split: if_splits dest!: sym [of _ "rs (Suc k)"])
  then show ?case ..
next
  case (step i)
  then obtain e where e: "stats (rs i) = stats (rs k) @ replicate (Suc e) Stopped" by blast
  show ?case
  proof (cases "as i")
    case None
    with is_runD(1) [OF run] e show ?thesis by auto
  next
    case (Some a)
    with never step.hyps(1) have "a \<noteq> CallRun" by auto
    from stats_grow [OF is_runD(2) [OF run Some] this] e
    have "stats (rs (Suc i)) = stats (rs k) @ replicate (Suc e) Stopped \<or>
        stats (rs (Suc i)) = stats (rs k) @ replicate (Suc (Suc e)) Stopped"
      by (auto simp: replicate_append_same [symmetric])
    then show ?thesis by blast
  qed
qed

lemma sees_stop:
  assumes act: "spsc_act sz ty a s = Some t" and run: "a \<noteq> CallRun" and sees: "sees s0 a s"
    and s0: "stats s0 = xs @ [Stopped]" and s: "stats s = xs @ replicate (Suc e) Stopped"
  shows "knows_stop a s"
proof -
  have "stats s ! c = Stopped" if "length (stats s0) \<le> Suc c" "c < length (stats s)" for c
  proof -
    have "c - length xs < Suc e" "length xs \<le> c" using that s0 s by simp_all
    then show ?thesis unfolding s by (simp only: nth_append nth_replicate not_less [symmetric] if_False)
  qed
  with act run sees show ?thesis
    by (cases a)
      (auto simp: spsc_act_def spsc_push_step_def spsc_push_check_step_def spsc_pop_step_def spsc_pop_check_step_def
        split: prod_pc.splits cons_pc.splits if_splits)
qed

section \<open>Properties\<close>



text \<open>
  C14: \<open>stop()\<close> lets nobody wait: under any scheduler that passes over neither the producer nor the
  consumer for ever, and if what is stored becomes visible after a while, every call, blocking
  or not, returns once the queue has been stopped for good, whether it is full or empty and
  whatever values its loads have seen so far.
\<close>

theorem spsc_stop_releases:
  assumes "pow2_size sz" and "is_run (spsc_act sz ty) as rs" and "rs 0 = spsc_sys_init sz"
    and "is_fair (spsc_act sz ty) side_of as rs" and "stores_visible sees as rs"
    and "as k = Some CallStop" and "\<forall>i\<ge>k. as i \<noteq> Some CallRun"
  shows "(\<exists>m\<ge>i. prod (rs m) = P_Idle) \<and> (\<exists>m\<ge>i. cons (rs m) = C_Idle)"
proof -
  have reach: "spsc_reach sz ty (rs i)" for i
    by (rule run_reach [where act = "spsc_act sz ty" and as = as]) (use assms(2,3) spsc_step.intros in blast)+
  note inv = spsc_reach_inv [OF assms(1) reach] and hist = stats_after_stop [OF assms(2,6,7)]
  from is_runD(2) [OF assms(2,6)] have first: "stats (rs (Suc k)) = stats (rs k) @ [Stopped]"
    by (auto simp: spsc_act_def split: if_splits dest!: sym [of _ "rs (Suc k)"])
  from assms(5) obtain n where n: "Suc k \<le> n" "\<forall>i\<ge>n. \<forall>a. as i = Some a \<longrightarrow> sees (rs (Suc k)) a (rs i)"
    unfolding stores_visible_def by blast
  let ?n = "max i n"
  have knows: "stopped_act sz ty a (rs j) = spsc_act sz ty a (rs j)" if j: "?n \<le> j" "as j = Some a" for j a
  proof -
    from hist [of j] n(1) j(1) obtain e where "stats (rs j) = stats (rs k) @ replicate (Suc e) Stopped" by auto
    moreover have "a \<noteq> CallRun" using assms(7) n(1) j by auto
    ultimately have "knows_stop a (rs j)"
      using sees_stop [OF is_runD(2) [OF assms(2) j(2)] _ _ first] n(2) j by auto
    then show ?thesis by (simp add: stopped_act_def)
  qed
  have sub: "can_go (spsc_act sz ty) side_of t s" if "can_go (stopped_act sz ty) side_of t s" for t s
    using that by (auto simp: can_go_def stopped_act_def split: if_splits)
  note run' = run_rest [OF assms(2) knows] and fair' = fair_rest [OF assms(4) sub]
  have "Suc k \<le> ?n" using n(1) by simp
  from hist [OF this] obtain e where "stats (rs ?n) = stats (rs k) @ replicate (Suc e) Stopped" ..
  then have "last (stats (rs ?n)) = Stopped" by simp
  with inv have start: "stopped_inv sz (rs (?n + 0))" by (simp add: stopped_inv_def)
  from push_returns.fair_goal [OF run' fair' start] pop_returns.fair_goal [OF run' fair' start]
  obtain a b where "prod (rs (?n + a)) = P_Idle" "cons (rs (?n + b)) = C_Idle" by blast
  then show ?thesis by (meson le_add1 le_trans max.cobounded1)
qed

text \<open>A consumer that waits at the empty queue when it is stopped.\<close>

theorem spsc_stop_releases_witness:
  "\<exists>as rs. is_run (spsc_act 2 nat_elem) as rs \<and> rs 0 = spsc_sys_init 2 \<and>
     is_fair (spsc_act 2 nat_elem) side_of as rs \<and> stores_visible sees as rs \<and> as 1 = Some CallStop \<and>
     (\<forall>i\<ge>1. as i \<noteq> Some CallRun) \<and> cons (rs 1) = C_Tail True \<and> (\<exists>m\<ge>1. cons (rs m) = C_Idle)"
proof -
  let ?acts = "[CallPop True, CallStop, ConsStep 0, ConsStep 0, ConsStep 1, ConsStep 1] :: nat spsc_action list"
  let ?s = "(spsc_sys_init 2 :: nat spsc_sys)"
  let ?w = "?s\<lparr>cons := C_Tail True, cons_ret := None\<rparr>"
  obtain t where t: "spsc_sched 2 nat_elem ?acts ?s = Some t" "prod t = P_Idle" "cons t = C_Idle"
    by (simp add: spsc_eval)
  from spsc_schedules.sched_run [OF t(1)] obtain as rs where run: "is_run (spsc_act 2 nat_elem) as rs"
    "\<forall>i. as i = (if i < 6 then Some (?acts ! i) else None)"
    "\<forall>i\<le>6. spsc_sched 2 nat_elem (take i ?acts) ?s = Some (rs i)" "\<forall>i\<ge>6. rs i = t" by auto
  have rs0: "rs 0 = ?s" using run(3) [rule_format, of 0] by simp
  have "spsc_act 2 nat_elem (CallPop True) ?s = Some ?w" by (simp add: spsc_eval)
  with run(3) [rule_format, of 1] have rs: "rs 0 = ?s" "rs 1 = ?w" by (simp_all add: rs0)
  have "spsc_act 2 nat_elem a t = None" if "side_of a = Some side" for a side
    using that t(2,3) by (cases a)
      (auto simp: spsc_act_def spsc_push_step_def spsc_pop_step_def)
  then have "\<not> can_go (spsc_act 2 nat_elem) side_of side t" for side by (auto simp: can_go_def)
  from standstill_fair [OF run(4) this] have fair: "is_fair (spsc_act 2 nat_elem) side_of as rs" .
  have vis: "stores_visible sees as rs" using run(2) by (intro standstill_visible [of 6]) simp
  have stop: "as 1 = Some CallStop" "\<forall>i\<ge>1. as i \<noteq> Some CallRun"
    using run(2) by (auto simp: less_Suc_eq numeral_eq_Suc)
  from spsc_stop_releases [OF pow2_size_2 run(1) rs(1) fair vis stop, of 1] fair vis stop run(1) rs
  show ?thesis by (intro exI [of _ as] exI [of _ rs]) simp
qed

end
