(* ===== verification/QuickProgress.thy ===== *)
theory QuickProgress
  imports QuickStart SpscProgress
begin

text \<open>
  examples/quick_start.cpp ends: under a weakly fair scheduler, and if stores become visible
  after a while, the producer stops the queue and the consumer leaves its loop. The consumer
  spins while the queue looks empty and running, so without the second condition it could look
  at old values for ever.
\<close>

section \<open>The program as a system of two threads\<close>

fun quick_agent :: "quick_action \<Rightarrow> spsc_side option" where
  "quick_agent PushNext = Some Producer"
| "quick_agent StopQueue = Some Producer"
| "quick_agent (ProdAccess c) = Some Producer"
| "quick_agent PopNext = Some Consumer"
| "quick_agent (ConsAccess c) = Some Consumer"

fun quick_sees :: "quick_run \<Rightarrow> quick_action \<Rightarrow> quick_run \<Rightarrow> bool" where
  "quick_sees r0 (ProdAccess c) r \<longleftrightarrow> sees (qs r0) (ProdStep c) (qs r)"
| "quick_sees r0 (ConsAccess c) r \<longleftrightarrow> sees (qs r0) (ConsStep c) (qs r)"
| "quick_sees r0 _ r \<longleftrightarrow> True"

lemma quick_doD:
  assumes "quick_do ty a r = Some r'"
  shows "quick_agent a = Some Producer \<Longrightarrow> cons (qs r') = cons (qs r) \<and> cons_ret (qs r') = cons_ret (qs r) \<and>
      popped (qs r') = popped (qs r) \<and> q_over r' = q_over r"
    "quick_agent a = Some Consumer \<Longrightarrow> prod (qs r') = prod (qs r) \<and> q_i r' = q_i r \<and> q_stopped r' = q_stopped r \<and>
      pushed (qs r') = pushed (qs r) \<and> stats (qs r') = stats (qs r)"
proof -
  show "cons (qs r') = cons (qs r) \<and> cons_ret (qs r') = cons_ret (qs r) \<and>
      popped (qs r') = popped (qs r) \<and> q_over r' = q_over r" if "quick_agent a = Some Producer"
    using assms that
    by (cases a; cases "prod (qs r)")
      (auto simp: with_queue_def spsc_act_def spsc_push_step_def spsc_push_check_step_def prod_failed_def
        prod_return_def Let_def split: if_splits sum.splits)
  show "prod (qs r') = prod (qs r) \<and> q_i r' = q_i r \<and> q_stopped r' = q_stopped r \<and>
      pushed (qs r') = pushed (qs r) \<and> stats (qs r') = stats (qs r)" if "quick_agent a = Some Consumer"
    using assms that
    by (cases a; cases "cons (qs r)")
      (auto simp: with_queue_def spsc_act_def spsc_pop_step_def spsc_pop_check_step_def cons_return_def
        split: if_splits sum.splits option.splits)
qed

section \<open>The producer stops the queue\<close>

definition prod_work :: "quick_run \<Rightarrow> nat" where
  "prod_work r = 6 * (11 - q_i r) + prod_rank (prod (qs r))"

lemma prod_can_go:
  assumes inv: "quick_inv r" and run: "\<not> q_stopped r"
  shows "can_go (quick_do ty) quick_agent Producer r"
proof -
  note i = quick_invD [OF inv]
  have nf: "spsc_fault (qs r) = None" using i(1) by (simp add: spsc_sys_inv_def shape_ok_def)
  show ?thesis
  proof (cases "prod (qs r) = P_Idle")
    case True
    with nf run have "quick_do ty PushNext r \<noteq> None \<or> quick_do ty StopQueue r \<noteq> None"
      by (cases "q_i r \<le> 10") (simp_all add: with_queue_def spsc_act_def)
    then show ?thesis unfolding can_go_def by (metis not_None_eq quick_agent.simps(1,2))
  next
    case False
    from spsc_prod_enabled [OF i(1) this, of ty] obtain c t where
      "spsc_act quick_size ty (ProdStep c) (qs r) = Some t" by blast
    then have "quick_do ty (ProdAccess c) r = Some (r\<lparr>qs := t\<rparr>)" by (simp add: with_queue_def)
    then show ?thesis unfolding can_go_def by (metis quick_agent.simps(3))
  qed
qed

lemma prod_progress:
  assumes inv: "quick_inv r" and run: "\<not> q_stopped r" and act: "quick_do ty a r = Some r'"
  shows "q_stopped r' \<or> prod_work r' < prod_work r \<or> quick_agent a \<noteq> Some Producer \<and> prod_work r' = prod_work r"
proof (cases "quick_agent a = Some Producer")
  case False
  then have "quick_agent a = Some Consumer" by (cases a) auto
  from quick_doD(2) [OF act this] False show ?thesis by (simp add: prod_work_def)
next
  case True
  note i = quick_invD [OF inv]
  show ?thesis
  proof (cases a)
    case (ProdAccess c)
    with act obtain t where t: "spsc_act quick_size ty (ProdStep c) (qs r) = Some t" "r' = r\<lparr>qs := t\<rparr>"
      by (auto simp: with_queue_def)
    have busy: "prod (qs r) \<noteq> P_Idle" using t(1) by (auto simp: spsc_act_def spsc_push_step_def split: if_splits)
    with i(2) have pos: "0 < prod_rank (prod (qs r))" by (cases "prod (qs r)") auto
    from try_push_step_rank [OF i(1,2) busy t(1)] pos show ?thesis by (auto simp: prod_work_def t(2))
  qed (use act True in \<open>auto simp: with_queue_def spsc_act_def prod_work_def split: if_splits\<close>)
qed

interpretation quick_stops: fair_progress "quick_do ty" quick_agent quick_inv q_stopped "\<lambda>t r. t = Producer"
    prod_work less_than
  for ty :: "int elem_type"
proof unfold_locales
  fix r r' :: quick_run and a and t
  assume inv: "quick_inv r"
  show "quick_inv r'" if "quick_do ty a r = Some r'" using quick_step_inv [OF inv quick_step.intros [OF that]] .
  assume run: "\<not> q_stopped r"
  show "can_go (quick_do ty) quick_agent t r" if "t = Producer" using prod_can_go [OF inv run] that by simp
  show "q_stopped r' \<or> (prod_work r', prod_work r) \<in> less_than \<or>
      quick_agent a \<noteq> Some t \<and> prod_work r' = prod_work r \<and> t = Producer"
    if "t = Producer" "quick_do ty a r = Some r'" using prod_progress [OF inv run that(2)] that(1) by auto
qed simp_all

section \<open>The consumer leaves its loop\<close>

text \<open>After the stop, once all loads see it.\<close>

definition fresh_act :: "int elem_type \<Rightarrow> quick_action \<Rightarrow> quick_run \<Rightarrow> quick_run option" where
  "fresh_act ty a r = (if quick_sees r a r then quick_do ty a r else None)"

fun cons_stage :: "int cons_pc \<Rightarrow> int option option \<Rightarrow> nat" where
  "cons_stage C_Idle res = (if res = Some None then 1 else 9)"
| "cons_stage (C_Tail b) res = 8"
| "cons_stage (C_Head b tail) res = 7"
| "cons_stage (C_Read b tail) res = 6"
| "cons_stage (C_Destroy b tail v) res = 5"
| "cons_stage (C_Publish b tail v) res = 4"
| "cons_stage C_Check1 res = 3"
| "cons_stage C_Check2 res = 2"

definition cons_work :: "quick_run \<Rightarrow> nat \<times> nat" where
  "cons_work r = (10 - length (popped (qs r)), cons_stage (cons (qs r)) (cons_ret (qs r)))"

lemma stopped_facts:
  assumes "quick_inv r" and "q_stopped r"
  shows "stats (qs r) = [Running, Stopped]" "prod (qs r) = P_Idle" "q_i r = 11" "length (pushed (qs r)) = 10"
    "length (popped (qs r)) \<le> 10"
proof -
  note i = quick_invD [OF assms(1)]
  from i(6) assms(2) show "stats (qs r) = [Running, Stopped]" "prod (qs r) = P_Idle" "q_i r = 11" by simp_all
  with i(5) show "length (pushed (qs r)) = 10" by simp
  with spsc_sys_inv_parts [OF i(1)] show "length (popped (qs r)) \<le> 10" by (simp add: views_ok_def)
qed

lemma stopped_consumer:
  assumes inv: "quick_inv r" and st: "q_stopped r" and act: "quick_do ty a r = Some r'"
  shows "quick_agent a = Some Consumer" "q_stopped r'"
proof -
  note i = stopped_facts [OF inv st]
  show "quick_agent a = Some Consumer"
    using act i(2,3) st by (cases a) (auto simp: with_queue_def spsc_act_def spsc_push_step_def split: if_splits)
  from quick_doD(2) [OF act this] st show "q_stopped r'" by simp
qed

lemma cons_can_go:
  assumes inv: "quick_inv r" and st: "q_stopped r" and go: "\<not> q_over r"
  shows "can_go (fresh_act ty) quick_agent Consumer r"
proof -
  note i = quick_invD [OF inv] and sf = stopped_facts [OF inv st]
  have parts: "spsc_fault (qs r) = None" "cons_head (qs r) \<le> length (pushed (qs r))" "cons_stat (qs r) < 2"
    using spsc_sys_inv_parts [OF i(1)] sf(1) by (simp_all add: shape_ok_def views_ok_def)
  obtain a where "quick_agent a = Some Consumer" "fresh_act ty a r \<noteq> None"
  proof (cases "cons (qs r)")
    case C_Idle
    with parts(1) go that [of PopNext] show ?thesis
      by (simp add: fresh_act_def with_queue_def spsc_act_def split: option.split)
  next
    case (C_Head b tail)
    with parts that [of "ConsAccess (length (pushed (qs r)))"] show ?thesis
      by (simp add: fresh_act_def with_queue_def spsc_act_def spsc_pop_step_def)
  next
    case C_Check1
    with parts sf(1) that [of "ConsAccess 1"] show ?thesis
      by (simp add: fresh_act_def with_queue_def spsc_act_def spsc_pop_check_step_def)
  next
    case C_Check2
    with parts sf(1) that [of "ConsAccess 1"] show ?thesis
      by (simp add: fresh_act_def with_queue_def spsc_act_def spsc_pop_check_step_def)
  next
    case (C_Tail b)
    with parts that [of "ConsAccess 0"] show ?thesis
      by (simp add: fresh_act_def with_queue_def spsc_act_def spsc_pop_step_def)
  next
    case (C_Read b tail)
    with parts that [of "ConsAccess 0"] show ?thesis
      by (simp add: fresh_act_def with_queue_def spsc_act_def spsc_pop_step_def split: sum.split)
  next
    case (C_Destroy b tail v)
    with parts that [of "ConsAccess 0"] show ?thesis
      by (simp add: fresh_act_def with_queue_def spsc_act_def spsc_pop_step_def split: sum.split)
  next
    case (C_Publish b tail v)
    with parts that [of "ConsAccess 0"] show ?thesis
      by (simp add: fresh_act_def with_queue_def spsc_act_def spsc_pop_step_def)
  qed
  then show ?thesis by (auto simp: can_go_def)
qed

lemma cons_progress:
  assumes inv: "quick_inv r" and st: "q_stopped r" and go: "\<not> q_over r" and act: "fresh_act ty a r = Some r'"
  shows "q_over r' \<or> (cons_work r', cons_work r) \<in> less_than <*lex*> less_than"
proof -
  from act have do: "quick_do ty a r = Some r'" and fresh: "quick_sees r a r" by (simp_all add: fresh_act_def split: if_splits)
  note sf = stopped_facts [OF inv st] and ag = stopped_consumer [OF inv st do]
  have inv': "quick_inv r'" by (rule quick_step_inv [OF inv quick_step.intros [OF do]])
  have le: "length (popped (qs r')) \<le> 10" by (rule stopped_facts(5) [OF inv' ag(2)])
  show ?thesis
  proof (cases a)
    case PopNext
    with do show ?thesis
      by (auto simp: with_queue_def spsc_act_def cons_work_def split: if_splits option.splits)
  next
    case (ConsAccess c)
    with do obtain t where t: "spsc_act quick_size ty (ConsStep c) (qs r) = Some t" "r' = r\<lparr>qs := t\<rparr>"
      by (auto simp: with_queue_def)
    have nf: "spsc_fault t = None" using quick_invD(1) [OF inv'] t(2) by (simp add: spsc_sys_inv_def shape_ok_def)
    have c: "c < 2 \<Longrightarrow> 2 \<le> Suc c \<Longrightarrow> c = 1" by simp
    from t(1) nf fresh le sf(1) ConsAccess show ?thesis
      by (cases "cons (qs r)")
        (auto simp: cons_work_def t(2) spsc_act_def spsc_pop_step_def spsc_pop_check_step_def cons_return_def
          split: if_splits sum.splits dest: c)
  qed (use ag(1) in simp_all)
qed

interpretation quick_leaves: fair_progress "fresh_act ty" quick_agent "\<lambda>r. quick_inv r \<and> q_stopped r" q_over
    "\<lambda>t r. t = Consumer" cons_work "less_than <*lex*> less_than"
  for ty :: "int elem_type"
proof unfold_locales
  fix r r' :: quick_run and a and t
  assume inv: "quick_inv r \<and> q_stopped r"
  show "quick_inv r' \<and> q_stopped r'" if "fresh_act ty a r = Some r'"
  proof -
    from that have do: "quick_do ty a r = Some r'" by (simp add: fresh_act_def split: if_splits)
    with quick_step_inv [OF _ quick_step.intros [OF do]] stopped_consumer(2) inv show ?thesis by blast
  qed
  assume go: "\<not> q_over r"
  show "can_go (fresh_act ty) quick_agent t r" if "t = Consumer" using cons_can_go inv go that by simp
  show "q_over r' \<or> (cons_work r', cons_work r) \<in> less_than <*lex*> less_than \<or>
      quick_agent a \<noteq> Some t \<and> cons_work r' = cons_work r \<and> t = Consumer"
    if "t = Consumer" "fresh_act ty a r = Some r'" using cons_progress inv go that(2) by blast
qed (auto intro: wf_lex_prod)

section \<open>Property\<close>

lemma quick_run_inv:
  assumes "is_run (quick_do ty) as rs" and "rs 0 = quick_init"
  shows "quick_inv (rs i)"
proof -
  have "quick_reach ty (rs i)"
    by (rule run_reach [where act = "quick_do ty" and as = as]) (use assms quick_step.intros in blast)+
  then show ?thesis by (rule quick_run.reach_inv)
qed

lemma quick_over_stays: "quick_do ty a r = Some r' \<Longrightarrow> q_over r \<Longrightarrow> q_over r'"
  by (cases a) (auto simp: with_queue_def split: if_splits)

lemma quick_end_stays:
  assumes run: "is_run (quick_do ty) as rs" and start: "rs 0 = quick_init"
    and n: "q_stopped (rs n)" and m: "n \<le> m"
  shows "q_stopped (rs m)" "q_over (rs n) \<Longrightarrow> q_over (rs m)"
proof -
  have "q_stopped (rs m) \<and> (q_over (rs n) \<longrightarrow> q_over (rs m))"
    using m
  proof (induction m rule: dec_induct)
    case (step m)
    show ?case
    proof (cases "as m")
      case None
      with is_runD(1) [OF run] step.IH show ?thesis by simp
    next
      case (Some a)
      note do = is_runD(2) [OF run Some]
      from stopped_consumer(2) [OF quick_run_inv [OF run start] _ do] quick_over_stays [OF do] step.IH
      show ?thesis by blast
    qed
  qed (use n in simp)
  then show "q_stopped (rs m)" "q_over (rs n) \<Longrightarrow> q_over (rs m)" by blast+
qed

text \<open>After the stop, what sees the stop and the last push sees everything.\<close>

lemma sees_everything:
  assumes "quick_inv r0" "q_stopped r0" "quick_inv r" "q_stopped r" and "quick_sees r0 a r"
  shows "quick_sees r a r"
  using assms(5) stopped_facts [OF assms(1,2)] stopped_facts [OF assms(3,4)]
  by (cases a) (auto split: cons_pc.splits)

text \<open>
  C40: The quick start ends: under any scheduler that passes over neither thread for ever, and if what
  is stored becomes visible after a while, a time comes from which on the producer has
  stopped the queue and the consumer has left its loop. What it has printed are then the first
  of the numbers 1 to 10.
\<close>

theorem quick_start_ends:
  assumes "is_run (quick_do ty) as rs" and "rs 0 = quick_init" and "is_fair (quick_do ty) quick_agent as rs"
    and "stores_visible quick_sees as rs"
  shows "\<exists>n. \<forall>m\<ge>n. q_stopped (rs m) \<and> q_over (rs m) \<and>
    q_got (rs m) = take (length (q_got (rs m))) (map int [1..<11])"
proof -
  note inv = quick_run_inv [OF assms(1,2)] and stays = quick_end_stays [OF assms(1,2)]
  from quick_stops.fair_goal [OF assms(1,3) inv, of 0] obtain n where n: "q_stopped (rs n)" by blast
  from assms(4) obtain k where k: "n \<le> k" "\<forall>i\<ge>k. \<forall>a. as i = Some a \<longrightarrow> quick_sees (rs n) a (rs i)"
    unfolding stores_visible_def by blast
  have fresh: "fresh_act ty a (rs i) = quick_do ty a (rs i)" if "k \<le> i" "as i = Some a" for i a
    using sees_everything [OF inv n inv stays(1) [OF n]] k that by (simp add: fresh_act_def)
  have sub: "can_go (quick_do ty) quick_agent t r" if "can_go (fresh_act ty) quick_agent t r" for t r
    using that by (auto simp: can_go_def fresh_act_def split: if_splits)
  note run' = run_rest [OF assms(1) fresh] and fair' = fair_rest [OF assms(3) sub]
  have "quick_inv (rs (k + 0)) \<and> q_stopped (rs (k + 0))" using inv stays(1) [OF n k(1)] by simp
  from quick_leaves.fair_goal [OF run' fair' this] obtain j where j: "q_over (rs (k + j))" by blast
  have st: "q_stopped (rs (k + j))" by (rule stays(1) [OF n]) (use k(1) in simp)
  have "q_got (rs m) = take (length (q_got (rs m))) (map int [1..<11])" for m
    by (rule quick_prefix [OF inv])
  with stays [OF st] j show ?thesis by blast
qed

theorem quick_start_ends_witness:
  "\<exists>as rs n. is_run (quick_do any_int) as rs \<and> rs 0 = quick_init \<and>
     is_fair (quick_do any_int) quick_agent as rs \<and> stores_visible quick_sees as rs \<and> q_over (rs n)"
proof -
  have "\<exists>r. quick_sched any_int silent_run quick_init = Some r \<and> q_over r \<and> q_stopped r \<and> cons (qs r) = C_Idle"
    by (simp add: silent_run_def one_push_def quick_init_def quick_size_def with_queue_def spsc_eval upt_rec any_int_def)
  then obtain r where r: "quick_sched any_int silent_run quick_init = Some r" "q_over r" "q_stopped r"
    "cons (qs r) = C_Idle" by blast
  note reach = quick_sched_reach [OF quick_init_reach r(1)]
  have "\<exists>as rs n. is_run (quick_do any_int) as rs \<and> rs 0 = quick_init \<and> (\<forall>i\<ge>n. as i = None \<and> rs i = r)"
    by (rule reach_run [OF reach]) (auto elim: quick_step.cases)
  then obtain as rs n where run: "is_run (quick_do any_int) as rs" "rs 0 = quick_init"
    "\<forall>i\<ge>n. as i = None \<and> rs i = r" by blast
  have "quick_do any_int a r = None" for a
  proof (rule ccontr)
    assume "quick_do any_int a r \<noteq> None"
    then obtain r' where do: "quick_do any_int a r = Some r'" by blast
    from stopped_consumer(1) [OF quick_run.reach_inv [OF reach] r(3) do] do r(2,4) show False
      by (cases a) (auto simp: with_queue_def spsc_act_def spsc_pop_step_def split: if_splits)
  qed
  then have "\<not> can_go (quick_do any_int) quick_agent t r" for t by (simp add: can_go_def)
  then have fair: "is_fair (quick_do any_int) quick_agent as rs" using run(3) by (intro standstill_fair [of n]) auto
  have vis: "stores_visible quick_sees as rs" using run(3) by (intro standstill_visible [of n]) simp
  from quick_start_ends [OF run(1,2) fair vis] run(1,2) fair vis show ?thesis by blast
qed

end
