(* ===== verification/Audio.thy ===== *)
theory Audio
  imports SpscClient
begin

text \<open>
  examples/spsc_queue.cpp: a producer computes samples and pushes them with \<open>blocking_push\<close>, a
  consumer prints what \<open>blocking_pop\<close> gives it, both while the flag \<open>running\<close> is set; after a
  second the main thread clears the flag and stops the queue. The threads are clients of
  \<open>SpscConcurrent\<close>. The floating-point operations are parameters: \<open>adv\<close> is the addition of
  \<open>0.01f\<close> and \<open>wave\<close> is \<open>std::sin\<close>.
\<close>

section \<open>The program\<close>

definition audio_cap :: size_t where
  "audio_cap = 1024"

text \<open>
  Loads and stores of \<open>running\<close> are sequentially consistent, so a load has the value of the last
  store.
\<close>

record ('f, 'a) audio_run =
  aq :: "'a spsc_sys"
  a_running :: bool
  a_stopped :: bool          \<comment> \<open>\<open>main\<close> has called \<open>stop\<close>\<close>
  a_phase :: 'f
  a_made :: nat              \<comment> \<open>samples computed, auxiliary\<close>
  a_prod_over :: bool        \<comment> \<open>the producer has left its loop\<close>
  a_printed :: "'a list"
  a_cons_over :: bool        \<comment> \<open>the consumer has left its loop\<close>

datatype audio_action =
    AuProduce        \<comment> \<open>load \<open>running\<close>, compute a sample and call \<open>blocking_push\<close>, or leave the loop\<close>
  | AuProd nat
  | AuConsume        \<comment> \<open>print, load \<open>running\<close> and call \<open>blocking_pop\<close>, or leave the loop\<close>
  | AuCons nat
  | AuClear          \<comment> \<open>\<open>running.store(false)\<close>\<close>
  | AuStop

definition with_samples :: "'a spsc_sys option \<Rightarrow> ('f, 'a) audio_run \<Rightarrow> ('f, 'a) audio_run option" where
  "with_samples so r = map_option (\<lambda>s. r\<lparr>aq := s\<rparr>) so"

text \<open>What the body of the consumer's loop prints.\<close>

definition audio_print :: "('f, 'a) audio_run \<Rightarrow> ('f, 'a) audio_run" where
  "audio_print r = r\<lparr>a_printed := a_printed r @ last_got (cons_ret (aq r))\<rparr>"

fun audio_do ::
  "('f \<Rightarrow> 'f) \<Rightarrow> ('f \<Rightarrow> 'a) \<Rightarrow> 'a elem_type \<Rightarrow> audio_action \<Rightarrow> ('f, 'a) audio_run \<Rightarrow> ('f, 'a) audio_run option" where
  "audio_do adv wave ty AuProduce r =
     (if prod (aq r) = P_Idle \<and> \<not> a_prod_over r then
        (if a_running r
         then with_samples (spsc_act audio_cap ty (CallPush (wave (a_phase r)) True) (aq r))
                (r\<lparr>a_phase := adv (a_phase r), a_made := a_made r + 1\<rparr>)
         else Some (r\<lparr>a_prod_over := True\<rparr>))
      else None)"
| "audio_do adv wave ty (AuProd c) r = with_samples (spsc_act audio_cap ty (ProdStep c) (aq r)) r"
| "audio_do adv wave ty AuConsume r =
     (if cons (aq r) = C_Idle \<and> \<not> a_cons_over r then
        (if a_running r
         then with_samples (spsc_act audio_cap ty (CallPop True) (aq r)) (audio_print r)
         else Some (audio_print r\<lparr>a_cons_over := True\<rparr>))
      else None)"
| "audio_do adv wave ty (AuCons c) r = with_samples (spsc_act audio_cap ty (ConsStep c) (aq r)) r"
| "audio_do adv wave ty AuClear r = (if a_running r then Some (r\<lparr>a_running := False\<rparr>) else None)"
| "audio_do adv wave ty AuStop r =
     (if \<not> a_running r \<and> \<not> a_stopped r
      then with_samples (spsc_act audio_cap ty CallStop (aq r)) (r\<lparr>a_stopped := True\<rparr>) else None)"

inductive audio_step ::
  "('f \<Rightarrow> 'f) \<Rightarrow> ('f \<Rightarrow> 'a) \<Rightarrow> 'a elem_type \<Rightarrow> ('f, 'a) audio_run \<Rightarrow> ('f, 'a) audio_run \<Rightarrow> bool"
  for adv :: "'f \<Rightarrow> 'f" and wave :: "'f \<Rightarrow> 'a" and ty :: "'a elem_type" where
  "audio_do adv wave ty a r = Some r' \<Longrightarrow> audio_step adv wave ty r r'"

inductive_simps audio_step_iff: "audio_step adv wave ty r r'"

definition audio_init :: "'f \<Rightarrow> ('f, 'a) audio_run" where
  "audio_init x =
     \<lparr>aq = spsc_sys_init audio_cap, a_running = True, a_stopped = False, a_phase = x, a_made = 0,
      a_prod_over = False, a_printed = [], a_cons_over = False\<rparr>"

abbreviation audio_reach ::
  "('f \<Rightarrow> 'f) \<Rightarrow> ('f \<Rightarrow> 'a) \<Rightarrow> 'f \<Rightarrow> 'a elem_type \<Rightarrow> ('f, 'a) audio_run \<Rightarrow> bool" where
  "audio_reach adv wave x ty \<equiv> reach (\<lambda>r. r = audio_init x) (audio_step adv wave ty)"

lemma audio_cap_facts: "pow2_size audio_cap" "unat audio_cap = 1024"
proof -
  have "audio_cap = 2 ^ 10" by (simp add: audio_cap_def)
  then show "pow2_size audio_cap" unfolding pow2_size_def by (intro exI [of _ 10]) simp
  show "unat audio_cap = 1024" by (simp add: audio_cap_def)
qed

section \<open>The invariant\<close>

text \<open>The sample number \<open>k\<close>: the sine of the phase after \<open>k\<close> additions.\<close>

definition audio_samples :: "('f \<Rightarrow> 'f) \<Rightarrow> ('f \<Rightarrow> 'a) \<Rightarrow> 'f \<Rightarrow> nat \<Rightarrow> 'a list" where
  "audio_samples adv wave x n = map (\<lambda>k. wave ((adv ^^ k) x)) [0..<n]"

text \<open>A push that the stop has cut short is the last one, and its sample is lost.\<close>

definition audio_made_ok :: "('f \<Rightarrow> 'f) \<Rightarrow> ('f \<Rightarrow> 'a) \<Rightarrow> 'f \<Rightarrow> ('f, 'a) audio_run \<Rightarrow> bool" where
  "audio_made_ok adv wave x r \<longleftrightarrow>
     (if prod (aq r) = P_Idle \<and> prod_ret (aq r) = Some False
      then a_stopped r \<and> pushed (aq r) = audio_samples adv wave x (a_made r - 1) \<and> 0 < a_made r
      else pushed (aq r) @ pending (prod (aq r)) = audio_samples adv wave x (a_made r))"

definition audio_inv :: "('f \<Rightarrow> 'f) \<Rightarrow> ('f \<Rightarrow> 'a) \<Rightarrow> 'f \<Rightarrow> ('f, 'a) audio_run \<Rightarrow> bool" where
  "audio_inv adv wave x r \<longleftrightarrow>
     spsc_sys_inv audio_cap (aq r) \<and> (prod (aq r) = P_Idle \<or> prod_blocking (prod (aq r))) \<and>
     a_phase r = (adv ^^ a_made r) x \<and> audio_made_ok adv wave x r \<and>
     (prod (aq r) \<noteq> P_Idle \<longrightarrow> prod_ret (aq r) = None) \<and>
     (a_stopped r \<longrightarrow> \<not> a_running r) \<and> (\<not> a_stopped r \<longrightarrow> stats (aq r) = [Running]) \<and>
     (if a_cons_over r then cons (aq r) = C_Idle \<and> a_printed r = popped (aq r)
      else a_printed r @ last_got (cons_ret (aq r)) = popped (aq r) \<and>
        (cons (aq r) \<noteq> C_Idle \<longrightarrow> cons_ret (aq r) = None))"

lemma audio_invD:
  assumes "audio_inv adv wave x r"
  shows "spsc_sys_inv audio_cap (aq r)" "prod (aq r) = P_Idle \<or> prod_blocking (prod (aq r))"
    "a_phase r = (adv ^^ a_made r) x" "audio_made_ok adv wave x r"
    "prod (aq r) \<noteq> P_Idle \<longrightarrow> prod_ret (aq r) = None"
    "a_stopped r \<longrightarrow> \<not> a_running r" "\<not> a_stopped r \<longrightarrow> stats (aq r) = [Running]"
    "if a_cons_over r then cons (aq r) = C_Idle \<and> a_printed r = popped (aq r)
      else a_printed r @ last_got (cons_ret (aq r)) = popped (aq r) \<and>
        (cons (aq r) \<noteq> C_Idle \<longrightarrow> cons_ret (aq r) = None)"
  using assms unfolding audio_inv_def by blast+

lemma audio_init_inv: "audio_inv adv wave x (audio_init x)"
  using spsc_sys_inv_init [OF audio_cap_facts(1)]
  by (simp add: audio_inv_def audio_init_def audio_made_ok_def audio_samples_def spsc_sys_init_def)

lemma audio_samples_Suc:
  "audio_samples adv wave x (Suc n) = audio_samples adv wave x n @ [wave ((adv ^^ n) x)]"
  by (simp add: audio_samples_def)

lemma audio_push_inv:
  assumes inv: "audio_inv adv wave x r" and idle: "prod (aq r) = P_Idle" and run: "a_running r"
    and act: "spsc_act audio_cap ty (CallPush (wave (a_phase r)) True) (aq r) = Some s"
  shows "audio_inv adv wave x (r\<lparr>a_phase := adv (a_phase r), a_made := a_made r + 1, aq := s\<rparr>)"
proof -
  note i = audio_invD [OF inv]
  have s: "s = (aq r)\<lparr>prod := P_Status (wave (a_phase r)) True, prod_ret := None\<rparr>"
    using act idle by (auto simp: spsc_act_def split: if_splits)
  have "pushed (aq r) = audio_samples adv wave x (a_made r)"
    using i(4,6) idle run by (auto simp: audio_made_ok_def split: if_splits)
  with i idle run spsc_act_inv [OF i(1) act] show ?thesis
    unfolding audio_inv_def by (simp add: s audio_made_ok_def audio_samples_Suc)
qed

lemma audio_prod_inv:
  assumes inv: "audio_inv adv wave x r" and act: "spsc_act audio_cap ty (ProdStep c) (aq r) = Some s"
  shows "audio_inv adv wave x (r\<lparr>aq := s\<rparr>)"
proof -
  note i = audio_invD [OF inv]
  have busy: "prod (aq r) \<noteq> P_Idle" using act
    by (auto simp: spsc_act_def spsc_push_step_def split: if_splits)
  with i(2) have "prod_blocking (prod (aq r))" by simp
  note b = spsc_wait_push_access [OF i(1) this act]
  have made: "pushed (aq r) @ pending (prod (aq r)) = audio_samples adv wave x (a_made r)"
    using i(4) busy by (simp add: audio_made_ok_def)
  have one: "\<exists>v. pending (prod (aq r)) = [v]" using busy by (cases "prod (aq r)") auto
  have "audio_made_ok adv wave x (r\<lparr>aq := s\<rparr>)"
    using b(2)
  proof (elim disjE conjE)
    assume rej: "prod s = P_Idle" "prod_ret s = Some False" "Stopped \<in> set (stats (aq r))" "pushed s = pushed (aq r)"
    from rej(3) i(7) have "a_stopped r" by auto
    moreover from made one have "0 < a_made r" by (cases "a_made r") (auto simp: audio_samples_def)
    moreover from made one this have "pushed (aq r) = audio_samples adv wave x (a_made r - 1)"
      by (cases "a_made r") (auto simp: audio_samples_Suc)
    ultimately show ?thesis using rej by (simp add: audio_made_ok_def)
  next
    assume "pushed s @ pending (prod s) = pushed (aq r) @ pending (prod (aq r))"
      "prod s = P_Idle \<longrightarrow> prod_ret s = Some True"
    with made show ?thesis by (auto simp: audio_made_ok_def)
  qed
  with b i busy spsc_act_inv [OF i(1) act] show ?thesis unfolding audio_inv_def by auto
qed

lemma audio_cons_inv:
  assumes inv: "audio_inv adv wave x r" and act: "spsc_act audio_cap ty (ConsStep c) (aq r) = Some s"
  shows "audio_inv adv wave x (r\<lparr>aq := s\<rparr>)"
proof -
  note i = audio_invD [OF inv] and p = pop_access [OF audio_invD(1) [OF inv] act]
  from p(2) i(8) have open': "\<not> a_cons_over r" "cons_ret (aq r) = None" by (auto split: if_splits)
  with i(8) have "a_printed r = popped (aq r)" by simp
  with p(3) open' have "a_printed r @ last_got (cons_ret s) = popped s" "cons s \<noteq> C_Idle \<longrightarrow> cons_ret s = None"
    by auto
  with p(1) i open' spsc_act_inv [OF i(1) act] show ?thesis
    unfolding audio_inv_def by (simp add: audio_made_ok_def)
qed

lemma audio_pop_inv:
  assumes inv: "audio_inv adv wave x r" and open': "cons (aq r) = C_Idle" "\<not> a_cons_over r"
  shows "spsc_act audio_cap ty (CallPop True) (aq r) = Some s \<Longrightarrow> audio_inv adv wave x ((audio_print r)\<lparr>aq := s\<rparr>)"
    "audio_inv adv wave x (audio_print r\<lparr>a_cons_over := True\<rparr>)"
proof -
  note i = audio_invD [OF inv]
  assume act: "spsc_act audio_cap ty (CallPop True) (aq r) = Some s"
  then have "s = (aq r)\<lparr>cons := C_Tail True, cons_ret := None\<rparr>"
    using open' by (auto simp: spsc_act_def split: if_splits)
  with i open' spsc_act_inv [OF i(1) act] show "audio_inv adv wave x ((audio_print r)\<lparr>aq := s\<rparr>)"
    unfolding audio_inv_def by (simp add: audio_made_ok_def audio_print_def)
next
  from audio_invD [OF inv] open' show "audio_inv adv wave x (audio_print r\<lparr>a_cons_over := True\<rparr>)"
    unfolding audio_inv_def by (simp add: audio_made_ok_def audio_print_def)
qed

lemma audio_stop_inv:
  assumes inv: "audio_inv adv wave x r" and "\<not> a_running r"
    and act: "spsc_act audio_cap ty CallStop (aq r) = Some s"
  shows "audio_inv adv wave x (r\<lparr>a_stopped := True, aq := s\<rparr>)"
proof -
  note i = audio_invD [OF inv]
  have "s = (aq r)\<lparr>sq := spsc_stop (sq (aq r)), stats := stats (aq r) @ [Stopped]\<rparr>"
    using act by (auto simp: spsc_act_def split: if_splits)
  with i assms(2) spsc_act_inv [OF i(1) act] show ?thesis
    unfolding audio_inv_def by (auto simp: audio_made_ok_def split: if_splits)
qed

lemma audio_flag_inv:
  assumes "audio_inv adv wave x r"
  shows "audio_inv adv wave x (r\<lparr>a_running := False\<rparr>)" "audio_inv adv wave x (r\<lparr>a_prod_over := True\<rparr>)"
  using audio_invD [OF assms] unfolding audio_inv_def by (simp_all add: audio_made_ok_def)

lemma audio_step_inv:
  assumes inv: "audio_inv adv wave x r" and step: "audio_step adv wave ty r r'"
  shows "audio_inv adv wave x r'"
proof -
  from step obtain a where do: "audio_do adv wave ty a r = Some r'" by (auto simp: audio_step_iff)
  show ?thesis
  proof (cases a)
    case AuProduce
    with do audio_push_inv [OF inv] audio_flag_inv [OF inv] show ?thesis
      by (auto simp: with_samples_def split: if_splits)
  qed (use do audio_prod_inv [OF inv] audio_pop_inv [OF inv] audio_cons_inv [OF inv] audio_flag_inv [OF inv]
        audio_stop_inv [OF inv] in \<open>auto simp: with_samples_def split: if_splits\<close>)
qed

interpretation audio_run: invariant_system "\<lambda>r. r = audio_init x" "audio_step adv wave ty" "audio_inv adv wave x"
  by unfold_locales (auto intro: audio_init_inv audio_step_inv)

section \<open>A run\<close>

fun audio_sched ::
  "('f \<Rightarrow> 'f) \<Rightarrow> ('f \<Rightarrow> 'a) \<Rightarrow> 'a elem_type \<Rightarrow> audio_action list \<Rightarrow> ('f, 'a) audio_run \<Rightarrow> ('f, 'a) audio_run option" where
  "audio_sched adv wave ty [] r = Some r"
| "audio_sched adv wave ty (a # as) r =
     (case audio_do adv wave ty a r of None \<Rightarrow> None | Some r' \<Rightarrow> audio_sched adv wave ty as r')"

lemma audio_sched_reach:
  "audio_reach adv wave x ty r \<Longrightarrow> audio_sched adv wave ty as r = Some r' \<Longrightarrow> audio_reach adv wave x ty r'"
proof (induction as arbitrary: r)
  case (Cons a as)
  from Cons.prems(2) obtain u where u: "audio_do adv wave ty a r = Some u" "audio_sched adv wave ty as u = Some r'"
    by (auto split: option.splits)
  from reach.reach_step [OF Cons.prems(1) audio_step.intros [OF u(1)]] u(2) show ?case by (rule Cons.IH)
qed simp

text \<open>Two samples pushed, one of them printed, and a third that the stop cuts short.\<close>

definition int_type :: "int elem_type" where
  "int_type = \<lparr>move_constructible = True, move_assignable = True, moved_from = id\<rparr>"

definition audio_demo :: "audio_action list" where
  "audio_demo =
     [AuProduce, AuProd 0, AuProd 0, AuProd 0, AuProd 0, AuProd 0,
      AuProduce, AuProd 0, AuProd 0, AuProd 0, AuProd 0, AuProd 0,
      AuConsume, AuCons 0, AuCons 2, AuCons 0, AuCons 0, AuCons 0,
      AuProduce, AuClear, AuStop, AuConsume, AuProd 1, AuProd 1, AuProd 1, AuProduce]"

lemma audio_demo_state:
  obtains r where "audio_reach (\<lambda>x. x + 1) (\<lambda>x. 10 * x) (3 :: int) int_type r" "a_made r = 3"
    "a_printed r = [30]" "pushed (aq r) = [30, 40]" "a_prod_over r" "a_cons_over r"
proof -
  have "\<exists>r. audio_sched (\<lambda>x. x + 1) (\<lambda>x. 10 * x) int_type audio_demo (audio_init (3 :: int)) = Some r \<and>
    a_made r = 3 \<and> a_printed r = [30] \<and> pushed (aq r) = [30, 40] \<and> a_prod_over r \<and> a_cons_over r"
    by (simp add: audio_demo_def audio_init_def with_samples_def int_type_def spsc_eval audio_cap_def audio_print_def)
  moreover have "audio_reach (\<lambda>x. x + 1) (\<lambda>x. 10 * x) (3 :: int) int_type (audio_init 3)"
    by (rule reach.reach_init) simp
  ultimately show ?thesis by (elim exE conjE) (rule that [OF audio_sched_reach])
qed

section \<open>Properties\<close>

text \<open>
  C38: In every state of the program no access is a fault. The samples computed are pushed in
  their order and without a gap, save at most one, the last, if the stop has cut its push
  short; what is printed are the first of them, in order, and at most 1023 are in the queue.
\<close>

theorem audio_in_order:
  assumes "audio_reach adv wave x ty r"
  shows "spsc_fault (aq r) = None \<and>
    (\<exists>n. pushed (aq r) = audio_samples adv wave x n \<and> n \<le> a_made r \<and> a_made r \<le> n + 1 \<and>
       a_printed r = audio_samples adv wave x (length (a_printed r)) \<and> length (a_printed r) \<le> n) \<and>
    (prod (aq r) = P_Idle \<and> prod_ret (aq r) = Some False \<longrightarrow> a_stopped r) \<and>
    length (pushed (aq r)) - length (popped (aq r)) \<le> 1023"
proof -
  note i = audio_invD [OF audio_run.reach_inv [OF assms]]
  note parts = spsc_sys_inv_parts [OF i(1)]
  have len: "length (audio_samples adv wave x n) = n" for n by (simp add: audio_samples_def)
  have tk: "take m (audio_samples adv wave x n) = audio_samples adv wave x (min m n)" for m n
    by (simp add: audio_samples_def take_map min_def)
  have "\<exists>n. pushed (aq r) = audio_samples adv wave x n \<and> n \<le> a_made r \<and> a_made r \<le> n + 1"
  proof (cases "prod (aq r) = P_Idle \<and> prod_ret (aq r) = Some False")
    case True
    with i(4) show ?thesis by (intro exI [of _ "a_made r - 1"]) (simp add: audio_made_ok_def)
  next
    case False
    then have made: "pushed (aq r) @ pending (prod (aq r)) = audio_samples adv wave x (a_made r)"
      using i(4) by (simp add: audio_made_ok_def)
    then have "pushed (aq r) = take (length (pushed (aq r))) (audio_samples adv wave x (a_made r))"
      by (metis append_eq_conv_conj)
    then have eq: "pushed (aq r) = audio_samples adv wave x (min (length (pushed (aq r))) (a_made r))"
      unfolding tk .
    have "length (pending (prod (aq r))) \<le> 1" by (cases "prod (aq r)") simp_all
    with arg_cong [OF made, of length] len [of "a_made r"]
    have "length (pushed (aq r)) \<le> a_made r" "a_made r \<le> length (pushed (aq r)) + 1" by simp_all
    with eq show ?thesis by (metis min.absorb1)
  qed
  then obtain n where n: "pushed (aq r) = audio_samples adv wave x n" "n \<le> a_made r" "a_made r \<le> n + 1"
    by blast
  have "popped (aq r) = take (length (popped (aq r))) (pushed (aq r))" using parts(3) by (simp add: views_ok_def)
  moreover have "\<exists>ys. popped (aq r) = a_printed r @ ys" using i(8) by (cases "a_cons_over r") (simp_all, metis)
  ultimately have "\<exists>ys. pushed (aq r) = a_printed r @ ys" by (metis append.assoc append_take_drop_id)
  then have le: "length (a_printed r) \<le> n" and "a_printed r = take (length (a_printed r)) (pushed (aq r))"
    using n(1) len by (metis le_add1 length_append, metis append_eq_conv_conj)
  then have "a_printed r = audio_samples adv wave x (length (a_printed r))"
    unfolding n(1) tk by (simp add: min_def)
  moreover have "length (pushed (aq r)) - length (popped (aq r)) \<le> 1023"
    using views_okD [OF parts(3)] audio_cap_facts(2) by simp
  moreover have "prod (aq r) = P_Idle \<and> prod_ret (aq r) = Some False \<longrightarrow> a_stopped r"
    using i(4) by (simp add: audio_made_ok_def split: if_splits)
  ultimately show ?thesis using n le parts(2) by (auto simp: shape_ok_def)
qed

theorem audio_in_order_witness:
  "\<exists>r. audio_reach (\<lambda>x. x + 1) (\<lambda>x. 10 * x) (3 :: int) int_type r \<and> a_made r = 3 \<and> a_prod_over r \<and>
     a_printed r = [30] \<and> a_printed r = audio_samples (\<lambda>x. x + 1) (\<lambda>x. 10 * x) 3 (length (a_printed r))"
proof -
  obtain r where r: "audio_reach (\<lambda>x. x + 1) (\<lambda>x. 10 * x) (3 :: int) int_type r" "a_made r = 3"
    "a_printed r = [30]" "a_prod_over r" by (rule audio_demo_state)
  from audio_in_order [OF r(1)] r show ?thesis by blast
qed

end
