(* ===== verification/MpscQueue.thy ===== *)
theory MpscQueue
  imports QueueSpec
begin

text \<open>
  \<open>BoundedMPSCQueue\<close> of include/sync_tools/mpsc_queue.hpp, one call at a time: cells with
  sequence numbers, positions that only grow, signed comparisons, the compare-and-swap
  loop. On a size of at least two, and as long as the positions fit into 63 bits, it is
  a bounded first-in first-out list of capacity \<open>_size\<close>. The interleaving of its threads
  is in \<open>MpscConcurrent\<close>.
\<close>

section \<open>State\<close>

record 'a mpsc_cell =
  cell_seq :: size_t
  cell_storage :: "'a option"

record 'a mpsc =
  mp_cells :: "'a mpsc_cell list"
  mp_head :: size_t
  mp_tail :: size_t
  mp_status :: queue_status

definition mpsc_mask :: "size_t \<Rightarrow> size_t" where
  "mpsc_mask sz = sz - 1"

definition mpsc_init :: "size_t \<Rightarrow> 'a mpsc" where
  "mpsc_init sz =
     \<lparr>mp_cells = map (\<lambda>i. \<lparr>cell_seq = of_nat i, cell_storage = None\<rparr>) [0..<unat sz],
      mp_head = 0, mp_tail = 0, mp_status = Running\<rparr>"

definition mpsc_run :: "'a mpsc \<Rightarrow> 'a mpsc" where
  "mpsc_run q = q\<lparr>mp_status := Running\<rparr>"

definition mpsc_stop :: "'a mpsc \<Rightarrow> 'a mpsc" where
  "mpsc_stop q = q\<lparr>mp_status := Stopped\<rparr>"

abbreviation mpsc_stopped :: "'a mpsc \<Rightarrow> bool" where
  "mpsc_stopped q \<equiv> mp_status q = Stopped"

section \<open>Cells\<close>

text \<open>\<open>_cells[pos & _mask]\<close>\<close>

definition cell_at :: "size_t \<Rightarrow> size_t \<Rightarrow> 'a mpsc_cell list \<Rightarrow> fault + 'a mpsc_cell" where
  "cell_at sz pos cells =
     (if unat (pos AND mpsc_mask sz) < length cells
      then Inr (cells ! unat (pos AND mpsc_mask sz)) else Inl OutOfBounds)"

definition set_cell :: "size_t \<Rightarrow> size_t \<Rightarrow> 'a mpsc_cell \<Rightarrow> 'a mpsc_cell list \<Rightarrow> 'a mpsc_cell list" where
  "set_cell sz pos c cells = cells[unat (pos AND mpsc_mask sz) := c]"

text \<open>\<open>static_cast<intptr_t>(seq) - static_cast<intptr_t>(pos)\<close>\<close>

definition seq_diff :: "size_t \<Rightarrow> size_t \<Rightarrow> fault + int" where
  "seq_diff x y =
     (if - (2 ^ 63) \<le> sint x - sint y \<and> sint x - sint y < 2 ^ 63
      then Inr (sint x - sint y) else Inl SignedOverflow)"

definition build_cell :: "'a \<Rightarrow> 'a mpsc_cell \<Rightarrow> fault + 'a mpsc_cell" where
  "build_cell v c =
     (case cell_storage c of
        None \<Rightarrow> Inr (c\<lparr>cell_storage := Some v\<rparr>)
      | Some _ \<Rightarrow> Inl LiveOverwrite)"

text \<open>Move (or copy) the object out, leaving it alive; and destroy it.\<close>

definition read_cell :: "bool \<Rightarrow> 'a elem_type \<Rightarrow> 'a mpsc_cell \<Rightarrow> fault + 'a \<times> 'a mpsc_cell" where
  "read_cell mv ty c =
     (case cell_storage c of
        None \<Rightarrow> Inl RawRead
      | Some v \<Rightarrow> Inr (v, if mv then c\<lparr>cell_storage := Some (moved_from ty v)\<rparr> else c))"

definition clear_cell :: "'a mpsc_cell \<Rightarrow> fault + 'a mpsc_cell" where
  "clear_cell c =
     (case cell_storage c of
        None \<Rightarrow> Inl RawRead
      | Some _ \<Rightarrow> Inr (c\<lparr>cell_storage := None\<rparr>))"

section \<open>Operations\<close>

text \<open>
  What a producer does once its compare-and-swap of \<open>pos\<close> to \<open>pos + 1\<close> has succeeded.
  \<open>after\<close> is the value construction leaves in the argument.
\<close>

definition mpsc_fill ::
  "size_t \<Rightarrow> ('a \<Rightarrow> 'a) \<Rightarrow> 'a \<Rightarrow> size_t \<Rightarrow> 'a mpsc \<Rightarrow> fault + (bool \<times> 'a) \<times> 'a mpsc" where
  "mpsc_fill sz after v pos q =
     res_bind (cell_at sz pos (mp_cells q)) (\<lambda>cell.
     res_bind (build_cell v cell) (\<lambda>cell'.
       Inr ((True, after v),
            q\<lparr>mp_head := pos + 1,
              mp_cells := set_cell sz pos (cell'\<lparr>cell_seq := pos + 1\<rparr>) (mp_cells q)\<rparr>)))"

text \<open>
  The loop of \<open>try_push\<close>. \<open>compare_exchange_weak\<close> may fail although the head equals
  \<open>pos\<close>: \<open>spur\<close> is the number of times it still does. A failure loads the head into
  \<open>pos\<close>.
\<close>

partial_function (option) mpsc_push_loop ::
  "size_t \<Rightarrow> ('a \<Rightarrow> 'a) \<Rightarrow> nat \<Rightarrow> 'a \<Rightarrow> size_t \<Rightarrow> 'a mpsc \<Rightarrow> ('a mpsc, bool \<times> 'a) op_result" where
  "mpsc_push_loop sz after spur v pos q =
     (case cell_at sz pos (mp_cells q) of
        Inl e \<Rightarrow> Some (Inl e)
      | Inr cell \<Rightarrow>
          (case seq_diff (cell_seq cell) pos of
             Inl e \<Rightarrow> Some (Inl e)
           | Inr diff \<Rightarrow>
               (if diff = 0 then
                  (if mp_head q = pos \<and> spur = 0 then Some (mpsc_fill sz after v pos q)
                   else mpsc_push_loop sz after (spur - 1) v (mp_head q) q)
                else if diff < 0 then Some (Inr ((False, v), q))
                else mpsc_push_loop sz after spur v (mp_head q) q)))"

text \<open>\<open>try_push(T&& v)\<close>: the caller's object is part of the result.\<close>

definition mpsc_try_push_move ::
  "size_t \<Rightarrow> 'a elem_type \<Rightarrow> nat \<Rightarrow> 'a \<Rightarrow> 'a mpsc \<Rightarrow> ('a mpsc, bool \<times> 'a) op_result" where
  "mpsc_try_push_move sz ty spur v q =
     (if mp_status q = Stopped then Some (Inr ((False, v), q))
      else mpsc_push_loop sz (if move_constructible ty then moved_from ty else (\<lambda>x. x)) spur v (mp_head q) q)"

text \<open>\<open>try_push(const T& v)\<close>\<close>

fun drop_argument :: "fault + (bool \<times> 'a) \<times> 'q \<Rightarrow> fault + bool \<times> 'q" where
  "drop_argument (Inl e) = Inl e"
| "drop_argument (Inr ((ok, v), q)) = Inr (ok, q)"

definition mpsc_try_push :: "size_t \<Rightarrow> nat \<Rightarrow> 'a \<Rightarrow> 'a mpsc \<Rightarrow> ('a mpsc, bool) op_result" where
  "mpsc_try_push sz spur v q =
     (if mp_status q = Stopped then Some (Inr (False, q))
      else map_option drop_argument (mpsc_push_loop sz (\<lambda>x. x) spur v (mp_head q) q))"

text \<open>
  The blocking pushes look at the status before every attempt. The other threads act on
  the queue before each access (\<open>env k\<close> before access \<open>k\<close>), and \<open>spur k\<close> is the number
  of spurious failures in the attempt made at access \<open>k\<close>.
\<close>

partial_function (option) mpsc_blocking_push ::
  "size_t \<Rightarrow> (nat \<Rightarrow> nat) \<Rightarrow> 'a \<Rightarrow> (nat \<Rightarrow> 'a mpsc \<Rightarrow> 'a mpsc) \<Rightarrow> nat \<Rightarrow> 'a mpsc \<Rightarrow>
   ('a mpsc, bool) op_result" where
  "mpsc_blocking_push sz spur v env k q =
     (if mp_status (env k q) = Stopped \<and> mp_status (env (k + 1) (env k q)) = Stopped
      then Some (Inr (False, env (k + 1) (env k q)))
      else
        (case mpsc_try_push sz (spur (k + 2)) v (env (k + 2) (if mp_status (env k q) = Stopped
                then env (k + 1) (env k q) else env k q)) of
           None \<Rightarrow> None
         | Some (Inl e) \<Rightarrow> Some (Inl e)
         | Some (Inr (ok, q')) \<Rightarrow>
             (if ok then Some (Inr (True, q')) else mpsc_blocking_push sz spur v env (k + 3) q')))"

partial_function (option) mpsc_blocking_push_move ::
  "size_t \<Rightarrow> 'a elem_type \<Rightarrow> (nat \<Rightarrow> nat) \<Rightarrow> 'a \<Rightarrow> (nat \<Rightarrow> 'a mpsc \<Rightarrow> 'a mpsc) \<Rightarrow> nat \<Rightarrow> 'a mpsc \<Rightarrow>
   ('a mpsc, bool \<times> 'a) op_result" where
  "mpsc_blocking_push_move sz ty spur v env k q =
     (if mp_status (env k q) = Stopped \<and> mp_status (env (k + 1) (env k q)) = Stopped
      then Some (Inr ((False, v), env (k + 1) (env k q)))
      else
        (case mpsc_try_push_move sz ty (spur (k + 2)) v (env (k + 2) (if mp_status (env k q) = Stopped
                then env (k + 1) (env k q) else env k q)) of
           None \<Rightarrow> None
         | Some (Inl e) \<Rightarrow> Some (Inl e)
         | Some (Inr ((ok, v'), q')) \<Rightarrow>
             (if ok then Some (Inr ((True, v'), q'))
              else mpsc_blocking_push_move sz ty spur v' env (k + 3) q')))"

text \<open>\<open>try_pop()\<close>\<close>

definition mpsc_try_pop ::
  "size_t \<Rightarrow> 'a elem_type \<Rightarrow> 'a mpsc \<Rightarrow> fault + 'a option \<times> 'a mpsc" where
  "mpsc_try_pop sz ty q =
     res_bind (cell_at sz (mp_tail q) (mp_cells q)) (\<lambda>cell.
     res_bind (seq_diff (cell_seq cell) (mp_tail q + 1)) (\<lambda>diff.
       if diff = 0 then
         res_bind (read_cell (move_constructible ty) ty cell) (\<lambda>(v, cell').
         res_bind (clear_cell cell') (\<lambda>cell''.
           Inr (Some v,
                q\<lparr>mp_tail := mp_tail q + 1,
                  mp_cells := set_cell sz (mp_tail q)
                    (cell''\<lparr>cell_seq := mp_tail q + sz\<rparr>) (mp_cells q)\<rparr>)))
       else Inr (None, q)))"

text \<open>\<open>try_pop(T& out)\<close>: the object behind the reference is part of the result.\<close>

definition mpsc_try_pop_into ::
  "size_t \<Rightarrow> 'a elem_type \<Rightarrow> 'a \<Rightarrow> 'a mpsc \<Rightarrow> fault + (bool \<times> 'a) \<times> 'a mpsc" where
  "mpsc_try_pop_into sz ty out q =
     res_bind (cell_at sz (mp_tail q) (mp_cells q)) (\<lambda>cell.
     res_bind (seq_diff (cell_seq cell) (mp_tail q + 1)) (\<lambda>diff.
       if diff = 0 then
         res_bind (read_cell (move_assignable ty) ty cell) (\<lambda>(v, cell').
         res_bind (clear_cell cell') (\<lambda>cell''.
           Inr ((True, v),
                q\<lparr>mp_tail := mp_tail q + 1,
                  mp_cells := set_cell sz (mp_tail q)
                    (cell''\<lparr>cell_seq := mp_tail q + sz\<rparr>) (mp_cells q)\<rparr>)))
       else Inr ((False, out), q)))"

definition mpsc_blocking_pop ::
  "size_t \<Rightarrow> 'a elem_type \<Rightarrow> (nat \<Rightarrow> 'a mpsc \<Rightarrow> 'a mpsc) \<Rightarrow> 'a mpsc \<Rightarrow> ('a mpsc, 'a option) op_result"
  where "mpsc_blocking_pop sz ty env q =
    pop_loop (\<lambda>q. Some (mpsc_try_pop sz ty q)) mpsc_stopped env 0 q"

definition mpsc_blocking_pop_into ::
  "size_t \<Rightarrow> 'a elem_type \<Rightarrow> (nat \<Rightarrow> 'a mpsc \<Rightarrow> 'a mpsc) \<Rightarrow> 'a \<Rightarrow> 'a mpsc \<Rightarrow>
   ('a mpsc, bool \<times> 'a) op_result" where
  "mpsc_blocking_pop_into sz ty env out q =
     (case pop_loop (\<lambda>q. Some (case mpsc_try_pop_into sz ty out q of
                Inl e \<Rightarrow> Inl e
              | Inr ((ok, v), q') \<Rightarrow> Inr (if ok then Some v else None, q')))
              mpsc_stopped env 0 q of
        None \<Rightarrow> None
      | Some (Inl e) \<Rightarrow> Some (Inl e)
      | Some (Inr (None, q')) \<Rightarrow> Some (Inr ((False, out), q'))
      | Some (Inr (Some v, q')) \<Rightarrow> Some (Inr ((True, v), q')))"

definition mpsc_size :: "'a mpsc \<Rightarrow> size_t" where
  "mpsc_size q = mp_head q - mp_tail q"

definition mpsc_empty :: "'a mpsc \<Rightarrow> bool" where
  "mpsc_empty q \<longleftrightarrow> mpsc_size q = 0"

definition mpsc_full :: "size_t \<Rightarrow> 'a mpsc \<Rightarrow> bool" where
  "mpsc_full sz q \<longleftrightarrow> sz \<le> mpsc_size q"

text \<open>The destructor: stop, then pop until empty.\<close>

definition mpsc_destroy :: "size_t \<Rightarrow> 'a elem_type \<Rightarrow> 'a mpsc \<Rightarrow> (fault + 'a mpsc) option" where
  "mpsc_destroy sz ty q = drain (\<lambda>q. Some (mpsc_try_pop sz ty q)) (mpsc_stop q)"

section \<open>The invariant and the list in the queue\<close>

text \<open>
  The cell of position \<open>p\<close> in the window of \<open>_size\<close> positions from the tail on: its
  sequence number is \<open>p\<close> while it is free and \<open>p + 1\<close> while it holds an element.
\<close>

definition cell_holds :: "nat \<Rightarrow> nat \<Rightarrow> 'a mpsc_cell \<Rightarrow> bool" where
  "cell_holds h p c \<longleftrightarrow>
     cell_seq c = of_nat (if p < h then Suc p else p) \<and> (cell_storage c \<noteq> None \<longleftrightarrow> p < h)"

definition mpsc_cells_ok :: "nat \<Rightarrow> nat \<Rightarrow> nat \<Rightarrow> 'a mpsc_cell list \<Rightarrow> bool" where
  "mpsc_cells_ok n t h cells \<longleftrightarrow>
     (\<forall>p. t \<le> p \<and> p < t + n \<longrightarrow> cell_holds h p (cells ! (p mod n)))"

text \<open>\<open>mpsc_inv sz n q\<close>: well formed, with positions left for \<open>n\<close> more pushes.\<close>

definition mpsc_inv :: "size_t \<Rightarrow> nat \<Rightarrow> 'a mpsc \<Rightarrow> bool" where
  "mpsc_inv sz n q \<longleftrightarrow>
     pow2_size sz \<and> 2 \<le> unat sz \<and> length (mp_cells q) = unat sz \<and>
     unat (mp_tail q) \<le> unat (mp_head q) \<and> unat (mp_head q) \<le> unat (mp_tail q) + unat sz \<and>
     unat (mp_head q) + n + unat sz < 2 ^ 63 \<and>
     mpsc_cells_ok (unat sz) (unat (mp_tail q)) (unat (mp_head q)) (mp_cells q)"

definition mpsc_items :: "size_t \<Rightarrow> 'a mpsc \<Rightarrow> 'a list" where
  "mpsc_items sz q =
     map (\<lambda>p. the (cell_storage (mp_cells q ! (p mod unat sz)))) [unat (mp_tail q)..<unat (mp_head q)]"

lemma length_mpsc_items [simp]:
  "length (mpsc_items sz q) = unat (mp_head q) - unat (mp_tail q)"
  by (simp add: mpsc_items_def)

section \<open>Positions and cells\<close>

lemma sint_of_nat: "x < 2 ^ 63 \<Longrightarrow> sint (of_nat x :: size_t) = int x"
proof -
  assume "x < 2 ^ 63"
  then have "int x < 2 ^ 63" by simp
  then have "signed_take_bit 63 (int x) = int x" by (intro signed_take_bit_int_eq_self) simp_all
  then show ?thesis by (simp add: signed_of_nat)
qed

lemma seq_diff_of_nat:
  assumes "x < 2 ^ 63" and "y < 2 ^ 63"
  shows "seq_diff (of_nat x) (of_nat y) = Inr (int x - int y)"
proof -
  have "int x < 2 ^ 63" "int y < 2 ^ 63" using assms by simp_all
  then show ?thesis using assms by (simp add: seq_diff_def sint_of_nat)
qed

lemma cell_at_eq:
  assumes "pow2_size sz" and "length cells = unat sz"
  shows "cell_at sz pos cells = Inr (cells ! (unat pos mod unat sz))"
  using assms pow2_size_pos [OF assms(1)]
  by (simp add: cell_at_def mpsc_mask_def unat_and_mask)

lemma set_cell_eq: "pow2_size sz \<Longrightarrow> set_cell sz pos c cells = cells[unat pos mod unat sz := c]"
  by (simp add: set_cell_def mpsc_mask_def unat_and_mask)

lemma unat_Suc_pos: "unat (x :: size_t) < 2 ^ 63 \<Longrightarrow> unat (x + 1) = Suc (unat x)"
  by (subst unat_plus_bounded) simp_all

lemma unat_of_nat_pos: "x < 2 ^ 63 \<Longrightarrow> unat (of_nat x :: size_t) = x"
  by (simp add: unat_of_nat)

lemma seq_diff_words:
  assumes "unat x < 2 ^ 63" and "unat y < 2 ^ 63"
  shows "seq_diff x y = Inr (int (unat x) - int (unat y))"
  using seq_diff_of_nat [OF assms] by simp

text \<open>Filling the cell of the head, and emptying the cell of the tail.\<close>

lemma mpsc_cells_ok_fill:
  assumes "mpsc_cells_ok n t h cells" and "length cells = n" and "t \<le> h" and "h < t + n"
    and "cell_holds (Suc h) h c"
  shows "mpsc_cells_ok n t (Suc h) (cells[h mod n := c])"
  unfolding mpsc_cells_ok_def
proof (intro allI impI)
  fix p assume p: "t \<le> p \<and> p < t + n"
  have hn: "h mod n < n" using assms(3,4) by (intro mod_less_divisor) linarith
  show "cell_holds (Suc h) p (cells[h mod n := c] ! (p mod n))"
  proof (cases "p = h")
    case True
    with hn assms(2,5) show ?thesis by simp
  next
    case False
    with p assms(3,4) have "h mod n \<noteq> p mod n" using window_mod_inj [of h n p t] by auto
    moreover have "cell_holds h p (cells ! (p mod n))"
      using assms(1) p by (simp add: mpsc_cells_ok_def)
    ultimately show ?thesis using False by (simp add: cell_holds_def less_Suc_eq)
  qed
qed

lemma mpsc_cells_ok_clear:
  assumes "mpsc_cells_ok n t h cells" and "length cells = n" and "t < h" and "h \<le> t + n"
    and "cell_holds h (t + n) c"
  shows "mpsc_cells_ok n (Suc t) h (cells[t mod n := c])"
  unfolding mpsc_cells_ok_def
proof (intro allI impI)
  fix p assume p: "Suc t \<le> p \<and> p < Suc t + n"
  have tn: "t mod n < n" using assms(3,4) by (intro mod_less_divisor) linarith
  show "cell_holds h p (cells[t mod n := c] ! (p mod n))"
  proof (cases "p = t + n")
    case True
    with tn assms(2,5) show ?thesis by simp
  next
    case False
    with p have lt: "p < t + n" by simp
    with p have "t mod n \<noteq> p mod n" using window_mod_inj [of t n p t] by auto
    moreover have "cell_holds h p (cells ! (p mod n))"
      using assms(1) p lt by (simp add: mpsc_cells_ok_def)
    ultimately show ?thesis by simp
  qed
qed

section \<open>Each operation on a well-formed queue\<close>

lemma mpsc_invD:
  assumes "mpsc_inv sz n q"
  shows "pow2_size sz" "2 \<le> unat sz" "length (mp_cells q) = unat sz"
    "unat (mp_tail q) \<le> unat (mp_head q)" "unat (mp_head q) \<le> unat (mp_tail q) + unat sz"
    "unat (mp_head q) + n + unat sz < 2 ^ 63"
    "mpsc_cells_ok (unat sz) (unat (mp_tail q)) (unat (mp_head q)) (mp_cells q)"
  using assms by (simp_all add: mpsc_inv_def)

lemma mpsc_inv_init:
  assumes "pow2_size sz" and "2 \<le> unat sz" and "n + unat sz < 2 ^ 63"
  shows "mpsc_inv sz n (mpsc_init sz)"
  using assms by (simp add: mpsc_inv_def mpsc_init_def mpsc_cells_ok_def cell_holds_def)

lemma mpsc_items_init: "mpsc_items sz (mpsc_init sz) = []"
  by (simp add: mpsc_items_def mpsc_init_def)

text \<open>The cell at the head is free, or it still holds the element one round older.\<close>

lemma mpsc_head_cell:
  assumes "mpsc_inv sz n q"
  defines "t \<equiv> unat (mp_tail q)" and "h \<equiv> unat (mp_head q)"
  defines "c \<equiv> mp_cells q ! (h mod unat sz)"
  shows "h < t + unat sz \<Longrightarrow> cell_seq c = of_nat h \<and> cell_storage c = None"
    and "h = t + unat sz \<Longrightarrow> cell_seq c = of_nat (Suc t)"
proof -
  note inv = mpsc_invD [OF assms(1)]
  have ok: "cell_holds h p (mp_cells q ! (p mod unat sz))" if "t \<le> p" "p < t + unat sz" for p
    using inv(7) that by (simp add: mpsc_cells_ok_def t_def h_def)
  show "cell_seq c = of_nat h \<and> cell_storage c = None" if "h < t + unat sz"
    using ok [of h] that inv(4) by (simp add: cell_holds_def c_def t_def h_def)
  show "cell_seq c = of_nat (Suc t)" if "h = t + unat sz"
    using ok [of t] that inv(2) by (simp add: cell_holds_def c_def)
qed

text \<open>The state a successful push leaves.\<close>

definition mpsc_pushed :: "size_t \<Rightarrow> 'a \<Rightarrow> 'a mpsc \<Rightarrow> 'a mpsc" where
  "mpsc_pushed sz v q = q\<lparr>mp_head := mp_head q + 1,
     mp_cells := (mp_cells q)[unat (mp_head q) mod unat sz :=
       \<lparr>cell_seq = mp_head q + 1, cell_storage = Some v\<rparr>]\<rparr>"

lemma mpsc_cell_full [simp]:
  "c\<lparr>cell_storage := x, cell_seq := y\<rparr> = \<lparr>cell_seq = y, cell_storage = x\<rparr>"
  by (cases c) simp

lemma mpsc_fill_eq:
  assumes "mpsc_inv sz n q" and "unat (mp_head q) < unat (mp_tail q) + unat sz"
  shows "mpsc_fill sz after v (mp_head q) q = Inr ((True, after v), mpsc_pushed sz v q)"
  using mpsc_invD [OF assms(1)] mpsc_head_cell(1) [OF assms]
  by (simp add: mpsc_fill_def cell_at_eq set_cell_eq build_cell_def mpsc_pushed_def)

lemma mpsc_head_diff:
  assumes "mpsc_inv sz n q"
  obtains d where
    "seq_diff (cell_seq (mp_cells q ! (unat (mp_head q) mod unat sz))) (mp_head q) = Inr d"
    "unat (mp_head q) < unat (mp_tail q) + unat sz \<Longrightarrow> d = 0"
    "\<not> unat (mp_head q) < unat (mp_tail q) + unat sz \<Longrightarrow> d < 0"
proof (cases "unat (mp_head q) < unat (mp_tail q) + unat sz")
  case True
  with mpsc_head_cell(1) [OF assms] mpsc_invD [OF assms] that [of 0] show ?thesis
    by (simp add: seq_diff_words)
next
  case False
  note inv = mpsc_invD [OF assms]
  from False inv(5) have h: "unat (mp_head q) = unat (mp_tail q) + unat sz" by simp
  have t: "Suc (unat (mp_tail q)) < 2 ^ 63" using inv(2,4,6) by simp
  have "seq_diff (cell_seq (mp_cells q ! (unat (mp_head q) mod unat sz))) (mp_head q) =
      Inr (int (Suc (unat (mp_tail q))) - int (unat (mp_head q)))"
    using mpsc_head_cell(2) [OF assms h] seq_diff_of_nat [OF t, of "unat (mp_head q)"] inv(6)
    by simp
  moreover have "int (Suc (unat (mp_tail q))) - int (unat (mp_head q)) < 0"
    using h inv(2) by linarith
  ultimately show ?thesis using False that by blast
qed

lemma mpsc_push_loop_spec:
  assumes "mpsc_inv sz n q"
  shows "mpsc_push_loop sz after spur v (mp_head q) q =
    Some (Inr (if unat (mp_head q) < unat (mp_tail q) + unat sz
      then ((True, after v), mpsc_pushed sz v q) else ((False, v), q)))"
proof (induction spur)
  case 0
  obtain d where "seq_diff (cell_seq (mp_cells q ! (unat (mp_head q) mod unat sz))) (mp_head q) = Inr d"
    "unat (mp_head q) < unat (mp_tail q) + unat sz \<Longrightarrow> d = 0"
    "\<not> unat (mp_head q) < unat (mp_tail q) + unat sz \<Longrightarrow> d < 0"
    using mpsc_head_diff [OF assms] by blast
  then show ?case using mpsc_fill_eq [OF assms, of after v] mpsc_invD(1,3) [OF assms]
    by (subst mpsc_push_loop.simps) (auto simp: cell_at_eq)
next
  case (Suc spur)
  obtain d where "seq_diff (cell_seq (mp_cells q ! (unat (mp_head q) mod unat sz))) (mp_head q) = Inr d"
    "unat (mp_head q) < unat (mp_tail q) + unat sz \<Longrightarrow> d = 0"
    "\<not> unat (mp_head q) < unat (mp_tail q) + unat sz \<Longrightarrow> d < 0"
    using mpsc_head_diff [OF assms] by blast
  with Suc show ?case using mpsc_invD(1,3) [OF assms]
    by (subst mpsc_push_loop.simps) (auto simp: cell_at_eq)
qed

lemma mpsc_pushed_spec:
  assumes "mpsc_inv sz (Suc n) q" and "unat (mp_head q) < unat (mp_tail q) + unat sz"
  shows "mpsc_inv sz n (mpsc_pushed sz v q)"
    and "mpsc_items sz (mpsc_pushed sz v q) = mpsc_items sz q @ [v]"
proof -
  note inv = mpsc_invD [OF assms(1)]
  let ?h = "unat (mp_head q)" and ?t = "unat (mp_tail q)" and ?n = "unat sz"
  have h1: "unat (mp_head q + 1) = Suc ?h" using inv(6) by (intro unat_Suc_pos) simp
  have "cell_holds (Suc ?h) ?h \<lparr>cell_seq = mp_head q + 1, cell_storage = Some v\<rparr>"
    by (simp add: cell_holds_def add.commute)
  with mpsc_cells_ok_fill [OF inv(7,3,4) assms(2)] inv assms(2) h1
  show "mpsc_inv sz n (mpsc_pushed sz v q)"
    by (simp add: mpsc_inv_def mpsc_pushed_def)
  have "?h mod ?n < ?n" using inv(2) by (intro mod_less_divisor) linarith
  moreover have "?h mod ?n \<noteq> p mod ?n" if "?t \<le> p" "p < ?h" for p
    using window_mod_inj [of p ?n ?h ?t] that assms(2) by auto
  ultimately show "mpsc_items sz (mpsc_pushed sz v q) = mpsc_items sz q @ [v]"
    using inv(3,4) h1 by (auto simp: mpsc_items_def mpsc_pushed_def)
qed

lemma mpsc_pushed_simps [simp]:
  "mp_status (mpsc_pushed sz v q) = mp_status q"
  "mp_tail (mpsc_pushed sz v q) = mp_tail q"
  by (simp_all add: mpsc_pushed_def)

lemma mpsc_try_push_spec:
  assumes "mpsc_inv sz n q"
  shows "mpsc_try_push sz spur v q =
    Some (Inr (if mp_status q = Running \<and> length (mpsc_items sz q) < unat sz
      then (True, mpsc_pushed sz v q) else (False, q)))"
  using mpsc_push_loop_spec [OF assms, of "\<lambda>x. x" spur v] mpsc_invD(2,4) [OF assms]
  by (cases "mp_status q") (auto simp: mpsc_try_push_def)

text \<open>The cell at the tail, and the state a successful pop leaves.\<close>

lemma mpsc_tail_cell:
  assumes "mpsc_inv sz n q"
  defines "t \<equiv> unat (mp_tail q)" and "h \<equiv> unat (mp_head q)"
  defines "c \<equiv> mp_cells q ! (t mod unat sz)"
  shows "t < h \<Longrightarrow> cell_seq c = of_nat (Suc t) \<and> cell_storage c = Some (hd (mpsc_items sz q))"
    and "t = h \<Longrightarrow> cell_seq c = of_nat t"
proof -
  note inv = mpsc_invD [OF assms(1)]
  have ok: "cell_holds h t c"
    using inv(2,7) by (simp add: mpsc_cells_ok_def t_def h_def c_def)
  show "cell_seq c = of_nat (Suc t) \<and> cell_storage c = Some (hd (mpsc_items sz q))" if "t < h"
  proof -
    have "hd (mpsc_items sz q) = the (cell_storage c)"
      using that by (simp add: mpsc_items_def hd_map c_def t_def h_def)
    with ok that show ?thesis by (auto simp: cell_holds_def)
  qed
  show "cell_seq c = of_nat t" if "t = h"
    using ok that by (simp add: cell_holds_def)
qed

definition mpsc_popped :: "size_t \<Rightarrow> 'a mpsc \<Rightarrow> 'a mpsc" where
  "mpsc_popped sz q = q\<lparr>mp_tail := mp_tail q + 1,
     mp_cells := (mp_cells q)[unat (mp_tail q) mod unat sz :=
       \<lparr>cell_seq = mp_tail q + sz, cell_storage = None\<rparr>]\<rparr>"

lemma mpsc_popped_simps [simp]:
  "mp_status (mpsc_popped sz q) = mp_status q"
  "mp_head (mpsc_popped sz q) = mp_head q"
  by (simp_all add: mpsc_popped_def)

lemma mpsc_tail_diff:
  assumes "mpsc_inv sz n q"
  shows "seq_diff (cell_seq (mp_cells q ! (unat (mp_tail q) mod unat sz))) (mp_tail q + 1) =
    Inr (if unat (mp_tail q) < unat (mp_head q) then 0 else - 1)"
proof -
  note inv = mpsc_invD [OF assms]
  have t1: "Suc (unat (mp_tail q)) < 2 ^ 63" using inv(2,4,6) by simp
  then have t2: "unat (mp_tail q + 1) = Suc (unat (mp_tail q))" by (intro unat_Suc_pos) simp
  show ?thesis
  proof (cases "unat (mp_tail q) < unat (mp_head q)")
    case True
    with mpsc_tail_cell(1) [OF assms] t1 t2 unat_of_nat_pos [OF t1] show ?thesis
      by (simp add: seq_diff_words)
  next
    case False
    with inv(4) mpsc_tail_cell(2) [OF assms] t1 t2 show ?thesis
      by (simp add: seq_diff_words)
  qed
qed

lemma mpsc_try_pop_spec:
  assumes "mpsc_inv sz n q"
  shows "mpsc_try_pop sz ty q =
    Inr (if mpsc_items sz q = [] then (None, q) else (Some (hd (mpsc_items sz q)), mpsc_popped sz q))"
proof -
  note inv = mpsc_invD [OF assms]
  have ne: "mpsc_items sz q = [] \<longleftrightarrow> \<not> unat (mp_tail q) < unat (mp_head q)"
    by (auto simp: mpsc_items_def)
  show ?thesis
  proof (cases "unat (mp_tail q) < unat (mp_head q)")
    case True
    with mpsc_tail_cell(1) [OF assms] mpsc_tail_diff [OF assms] inv ne show ?thesis
      by (simp add: mpsc_try_pop_def cell_at_eq set_cell_eq read_cell_def clear_cell_def
          mpsc_popped_def)
  next
    case False
    with mpsc_tail_diff [OF assms] inv ne show ?thesis
      by (simp add: mpsc_try_pop_def cell_at_eq)
  qed
qed

lemma mpsc_try_pop_into_eq:
  assumes "mpsc_inv sz n q"
  shows "mpsc_try_pop_into sz ty out q =
     (case mpsc_try_pop sz ty q of
        Inl e \<Rightarrow> Inl e
      | Inr (None, q') \<Rightarrow> Inr ((False, out), q')
      | Inr (Some v, q') \<Rightarrow> Inr ((True, v), q'))"
proof -
  note inv = mpsc_invD [OF assms]
  have ne: "mpsc_items sz q = [] \<longleftrightarrow> \<not> unat (mp_tail q) < unat (mp_head q)"
    by (auto simp: mpsc_items_def)
  show ?thesis
  proof (cases "unat (mp_tail q) < unat (mp_head q)")
    case True
    with mpsc_tail_cell(1) [OF assms] mpsc_tail_diff [OF assms] inv ne show ?thesis
      by (simp add: mpsc_try_pop_into_def mpsc_try_pop_spec [OF assms] cell_at_eq set_cell_eq
          read_cell_def clear_cell_def mpsc_popped_def)
  next
    case False
    with mpsc_tail_diff [OF assms] inv ne show ?thesis
      by (simp add: mpsc_try_pop_into_def mpsc_try_pop_spec [OF assms] cell_at_eq)
  qed
qed

lemma mpsc_popped_spec:
  assumes "mpsc_inv sz n q" and "mpsc_items sz q \<noteq> []"
  shows "mpsc_inv sz n (mpsc_popped sz q)"
    and "mpsc_items sz (mpsc_popped sz q) = tl (mpsc_items sz q)"
proof -
  note inv = mpsc_invD [OF assms(1)]
  let ?h = "unat (mp_head q)" and ?t = "unat (mp_tail q)" and ?n = "unat sz"
  have lt: "?t < ?h" using assms(2) by (simp add: mpsc_items_def)
  have t1: "unat (mp_tail q + 1) = Suc ?t" using inv(4,6) by (intro unat_Suc_pos) simp
  have "cell_holds ?h (?t + ?n) \<lparr>cell_seq = mp_tail q + sz, cell_storage = None\<rparr>"
    using inv(5) by (simp add: cell_holds_def)
  with mpsc_cells_ok_clear [OF inv(7,3) lt inv(5)] inv lt t1
  show "mpsc_inv sz n (mpsc_popped sz q)"
    by (simp add: mpsc_inv_def mpsc_popped_def)
  have "?t mod ?n \<noteq> p mod ?n" if "Suc ?t \<le> p" "p < ?h" for p
    using window_mod_inj [of p ?n ?t ?t] that inv(5) by auto
  then show "mpsc_items sz (mpsc_popped sz q) = tl (mpsc_items sz q)"
    using t1 lt by (auto simp: mpsc_items_def mpsc_popped_def map_tl [symmetric] upt_conv_Cons)
qed

lemma mpsc_inv_weaken: "mpsc_inv sz (Suc n) q \<Longrightarrow> mpsc_inv sz n q"
  by (simp add: mpsc_inv_def)

lemma mpsc_status_ops [simp]:
  "mpsc_inv sz n (mpsc_stop q) = mpsc_inv sz n q" "mpsc_items sz (mpsc_stop q) = mpsc_items sz q"
  "mpsc_inv sz n (mpsc_run q) = mpsc_inv sz n q" "mpsc_items sz (mpsc_run q) = mpsc_items sz q"
  "mp_status (mpsc_stop q) = Stopped" "mp_status (mpsc_run q) = Running"
  by (simp_all add: mpsc_inv_def mpsc_items_def mpsc_stop_def mpsc_run_def)

text \<open>The queue meets the contract, with room for \<open>_size\<close> elements.\<close>

interpretation mp: bounded_queue "unat sz" "mpsc_inv sz" "mpsc_items sz" mpsc_stopped
    "mpsc_try_push sz spur" "\<lambda>q. Some (mpsc_try_pop sz ty q)" mpsc_stop mpsc_run
  for sz :: size_t and spur :: nat and ty :: "'a elem_type"
proof unfold_locales
  fix n v and q :: "'a mpsc"
  assume inv: "mpsc_inv sz (Suc n) q"
  show "\<exists>q'. mpsc_try_push sz spur v q =
      Some (Inr (\<not> mpsc_stopped q \<and> length (mpsc_items sz q) < unat sz, q')) \<and>
      mpsc_inv sz n q' \<and> mpsc_stopped q' = mpsc_stopped q \<and>
      mpsc_items sz q' = (if \<not> mpsc_stopped q \<and> length (mpsc_items sz q) < unat sz
        then mpsc_items sz q @ [v] else mpsc_items sz q)"
  proof (cases "mp_status q = Running \<and> length (mpsc_items sz q) < unat sz")
    case True
    then have "unat (mp_head q) < unat (mp_tail q) + unat sz"
      using mpsc_invD(4) [OF inv] by (simp only: length_mpsc_items) linarith
    with True mpsc_try_push_spec [OF inv, of spur v] mpsc_pushed_spec [OF inv] show ?thesis
      by simp
  next
    case False
    then have "\<not> (\<not> mpsc_stopped q \<and> length (mpsc_items sz q) < unat sz)"
      by (cases "mp_status q") auto
    moreover from False mpsc_try_push_spec [OF inv, of spur v]
    have "mpsc_try_push sz spur v q = Some (Inr (False, q))" by auto
    ultimately show ?thesis using mpsc_inv_weaken [OF inv] by simp
  qed
next
  fix n and q :: "'a mpsc"
  assume inv: "mpsc_inv sz n q"
  then show "\<exists>q'. Some (mpsc_try_pop sz ty q) =
      Some (Inr (if mpsc_items sz q = [] then None else Some (hd (mpsc_items sz q)), q')) \<and>
      mpsc_inv sz n q' \<and> mpsc_stopped q' = mpsc_stopped q \<and> mpsc_items sz q' = tl (mpsc_items sz q)"
    using mpsc_try_pop_spec [OF inv, of ty] mpsc_popped_spec [OF inv] by auto
qed (simp_all add: mpsc_inv_weaken)

section \<open>Lemmas for the properties\<close>

lemma mpsc_no_objects:
  assumes "mpsc_inv sz n q" and "mpsc_items sz q = []"
  shows "\<forall>c\<in>set (mp_cells q). cell_storage c = None"
proof
  note inv = mpsc_invD [OF assms(1)]
  let ?t = "unat (mp_tail q)"
  have th: "unat (mp_head q) \<le> ?t" using assms(2) by (auto simp: mpsc_items_def)
  fix c assume "c \<in> set (mp_cells q)"
  then obtain i where i: "i < unat sz" "c = mp_cells q ! i"
    using inv(3) by (auto simp: in_set_conv_nth)
  obtain j where j: "j < unat sz" "(?t + j) mod unat sz = i" using ring_index_surj [OF i(1)] by blast
  with inv(7) have "cell_holds (unat (mp_head q)) (?t + j) (mp_cells q ! i)"
    by (auto simp: mpsc_cells_ok_def)
  with th i(2) show "cell_storage c = None" by (auto simp: cell_holds_def)
qed

lemma mpsc_try_push_move_spec:
  assumes "mpsc_inv sz n q"
  shows "mpsc_try_push_move sz ty spur v q =
    (case mpsc_try_push sz spur v q of
       Some (Inr (ok, q')) \<Rightarrow>
         Some (Inr ((ok, if ok \<and> move_constructible ty then moved_from ty v else v), q'))
     | Some (Inl e) \<Rightarrow> Some (Inl e)
     | None \<Rightarrow> None)"
  by (simp add: mpsc_try_push_move_def mpsc_try_push_def mpsc_push_loop_spec [OF assms])

text \<open>A blocking push on a queue that stays stopped returns at once.\<close>

lemma mpsc_blocking_push_stopped:
  assumes "mpsc_stopped (env k q)" and "mpsc_stopped (env (k + 1) (env k q))"
  shows "mpsc_blocking_push sz spur v env k q = Some (Inr (False, env (k + 1) (env k q)))"
  using assms by (subst mpsc_blocking_push.simps) simp

lemma mpsc_blocking_push_try:
  assumes "\<not> (mpsc_stopped (env k q) \<and> mpsc_stopped (env (k + 1) (env k q)))"
    and "mpsc_try_push sz (spur (k + 2)) v (env (k + 2) (if mpsc_stopped (env k q)
      then env (k + 1) (env k q) else env k q)) = Some (Inr (ok, q'))"
  shows "mpsc_blocking_push sz spur v env k q =
    (if ok then Some (Inr (True, q')) else mpsc_blocking_push sz spur v env (k + 3) q')"
  using assms by (subst mpsc_blocking_push.simps) (simp only: if_False option.case sum.case prod.case)

text \<open>One round: it returns, or goes on with a queue that was stopped or full.\<close>

lemma mpsc_blocking_push_round:
  assumes inv: "\<forall>j q. mpsc_inv sz (Suc n) q \<longrightarrow> mpsc_inv sz (Suc n) (env j q)" and q: "mpsc_inv sz (Suc n) q"
    and q2_def: "q2 = env (k + 2) (if mpsc_stopped (env k q) then env (k + 1) (env k q) else env k q)"
  shows "(\<exists>ok q'. mpsc_blocking_push sz spur v env k q = Some (Inr (ok, q')) \<and> mpsc_inv sz n q') \<or>
    mpsc_inv sz (Suc n) q2 \<and> (mpsc_stopped q2 \<or> \<not> length (mpsc_items sz q2) < unat sz) \<and>
    mpsc_blocking_push sz spur v env k q = mpsc_blocking_push sz spur v env (k + 3) q2"
proof (cases "mpsc_stopped (env k q) \<and> mpsc_stopped (env (k + 1) (env k q))")
  case True
  with mpsc_blocking_push_stopped [of env k q sz spur v] mpsc_inv_weaken [of sz n "env (k + 1) (env k q)"] inv q
  show ?thesis by auto
next
  case go: False
  have i2: "mpsc_inv sz (Suc n) q2" using q inv by (auto simp: q2_def)
  show ?thesis
  proof (cases "mpsc_stopped q2 \<or> \<not> length (mpsc_items sz q2) < unat sz")
    case False
    with mpsc_try_push_spec [OF i2, of "spur (k + 2)" v]
    have "mpsc_try_push sz (spur (k + 2)) v q2 = Some (Inr (True, mpsc_pushed sz v q2))"
      by (cases "mp_status q2") auto
    from mpsc_blocking_push_try [of env k q sz spur v, OF go this [unfolded q2_def]]
    have "mpsc_blocking_push sz spur v env k q = Some (Inr (True, mpsc_pushed sz v q2))" by (simp add: q2_def)
    moreover from False mpsc_invD(4) [OF i2] have "unat (mp_head q2) < unat (mp_tail q2) + unat sz"
      by (simp only: length_mpsc_items) linarith
    then have "mpsc_inv sz n (mpsc_pushed sz v q2)" using mpsc_pushed_spec(1) [OF i2] by blast
    ultimately show ?thesis by blast
  next
    case True
    with mpsc_try_push_spec [OF i2, of "spur (k + 2)" v]
    have "mpsc_try_push sz (spur (k + 2)) v q2 = Some (Inr (False, q2))" by auto
    from mpsc_blocking_push_try [of env k q sz spur v, OF go this [unfolded q2_def]] i2 True
    show ?thesis by (simp add: q2_def)
  qed
qed

lemma mpsc_blocking_push_returns_aux:
  assumes env: "\<And>j q. mpsc_inv sz (Suc n) q \<Longrightarrow> mpsc_inv sz (Suc n) (env j q)"
    and prog: "\<And>j q. m \<le> j \<Longrightarrow> mpsc_inv sz (Suc n) q \<Longrightarrow>
      mpsc_stopped (env j q) \<or> length (mpsc_items sz (env j q)) < unat sz"
    and final: "\<And>j q. m \<le> j \<Longrightarrow> mpsc_inv sz (Suc n) q \<Longrightarrow> mpsc_stopped q \<Longrightarrow>
      mpsc_stopped (env j q)"
    and q: "mpsc_inv sz (Suc n) q"
  shows "\<exists>ok q'. mpsc_blocking_push sz spur v env k q = Some (Inr (ok, q')) \<and> mpsc_inv sz n q'"
  using q
proof (induction "m - k" arbitrary: k q rule: less_induct)
  case less
  let ?q1 = "if mpsc_stopped (env k q) then env (k + 1) (env k q) else env k q"
  let ?q2 = "env (k + 2) ?q1"
  have "\<forall>j q. mpsc_inv sz (Suc n) q \<longrightarrow> mpsc_inv sz (Suc n) (env j q)" using env by blast
  from mpsc_blocking_push_round [where spur = spur and v = v and k = k, OF this less.prems refl] show ?case
  proof (rule disjE; (elim conjE)?)
    assume i2: "mpsc_inv sz (Suc n) ?q2" and full: "mpsc_stopped ?q2 \<or> \<not> length (mpsc_items sz ?q2) < unat sz"
      and unf: "mpsc_blocking_push sz spur v env k q = mpsc_blocking_push sz spur v env (k + 3) ?q2"
    show ?thesis
    proof (cases "m \<le> k")
      case True
      then have k: "m \<le> k + 2" "m \<le> k + 3" "m \<le> k + 3 + 1" by simp_all
      have "mpsc_inv sz (Suc n) ?q1" using env less.prems by simp
      from prog [OF k(1) this] full have s2: "mpsc_stopped ?q2" by blast
      have i3: "mpsc_inv sz (Suc n) (env (k + 3) ?q2)" using i2 by (rule env)
      have s3: "mpsc_stopped (env (k + 3) ?q2)" using k(2) i2 s2 by (rule final)
      have s4: "mpsc_stopped (env (k + 3 + 1) (env (k + 3) ?q2))" using k(3) i3 s3 by (rule final)
      from mpsc_blocking_push_stopped [OF s3 s4, of sz spur v] unf mpsc_inv_weaken [OF env [OF i3]]
      show ?thesis by auto
    next
      case False
      then have "m - (k + 3) < m - k" by simp
      from less.hyps [OF this i2] unf show ?thesis by simp
    qed
  qed assumption
qed

lemma pow2_size_4: "pow2_size 4"
  unfolding pow2_size_def by (rule exI [of _ 2]) simp

section \<open>Properties\<close>

text \<open>
  C7: Any sequence of calls of \<open>try_push\<close>, \<open>try_pop\<close>, \<open>stop\<close> and \<open>run\<close> on a new queue
  of two or more cells returns without a fault, however often the weak compare-and-swap
  fails spuriously, and has the outcome of a first-in first-out list of capacity \<open>_size\<close>
  that rejects pushes while it is stopped, as long as the positions fit into 63 bits.
\<close>

theorem mpsc_implements_fifo:
  fixes ops :: "'a queue_op list"
  assumes "pow2_size sz" and "2 \<le> unat sz" and "length ops + unat sz < 2 ^ 63"
  shows "\<exists>ins outs q'.
    queue_exec (mpsc_try_push sz spur) (\<lambda>q. Some (mpsc_try_pop sz ty q))
      mpsc_stop mpsc_run ops (mpsc_init sz) = Some (Inr ((ins, outs), q')) \<and>
    fifo_exec (unat sz) ops ([], False) = ((ins, outs), (mpsc_items sz q', mpsc_stopped q')) \<and>
    ins = outs @ mpsc_items sz q'"
proof -
  have ok: "mpsc_inv sz (length ops) (mpsc_init sz :: 'a mpsc)" using assms by (rule mpsc_inv_init)
  from mp.exec_refines [OF ok length_filter_le, where spur = spur and ty = ty] obtain ins outs q' where r:
    "queue_exec (mpsc_try_push sz spur) (\<lambda>q. Some (mpsc_try_pop sz ty q))
       mpsc_stop mpsc_run ops (mpsc_init sz) = Some (Inr ((ins, outs), q'))"
    "fifo_exec (unat sz) ops (mpsc_items sz (mpsc_init sz), mpsc_stopped (mpsc_init sz :: 'a mpsc)) =
       ((ins, outs), (mpsc_items sz q', mpsc_stopped q'))"
    by (elim exE conjE) (rule that)
  have "\<not> mpsc_stopped (mpsc_init sz :: 'a mpsc)" by (simp add: mpsc_init_def)
  with r fifo_exec_conserves [OF r(2)] show ?thesis by (simp add: mpsc_items_init)
qed

theorem mpsc_implements_fifo_witness:
  "\<exists>ins outs q'.
    queue_exec (mpsc_try_push 2 3) (\<lambda>q. Some (mpsc_try_pop 2 nat_elem q))
      mpsc_stop mpsc_run [Push 1, Push 2, Push 3, Pop, Halt, Push 4] (mpsc_init 2) =
        Some (Inr ((ins, outs), q')) \<and>
    ins = [1, 2] \<and> outs = [1] \<and> ins = outs @ mpsc_items 2 q'"
proof -
  have "pow2_size 2" unfolding pow2_size_def by (rule exI [of _ 1]) simp
  from mpsc_implements_fifo [OF this, where ops = "[Push 1, Push 2, Push 3, Pop, Halt, Push 4]"
      and ty = nat_elem and spur = 3]
  show ?thesis by auto
qed

text \<open>
  \<open>size()\<close>, \<open>empty()\<close> and \<open>full()\<close> of a queue at rest report the number of elements
  exactly; the queue is full at \<open>_size\<close> elements.
\<close>

lemma mpsc_observers_exact:
  assumes "mpsc_inv sz n q"
  shows "unat (mpsc_size q) = length (mpsc_items sz q) \<and>
    (mpsc_empty q \<longleftrightarrow> mpsc_items sz q = []) \<and>
    (mpsc_full sz q \<longleftrightarrow> length (mpsc_items sz q) = unat sz)"
proof -
  note inv = mpsc_invD [OF assms]
  have size: "unat (mpsc_size q) = unat (mp_head q) - unat (mp_tail q)"
    unfolding mpsc_size_def using inv(4) by (rule unat_minus_bounded)
  moreover have "mpsc_empty q \<longleftrightarrow> unat (mpsc_size q) = 0"
    by (simp add: mpsc_empty_def unat_eq_0)
  moreover have "mpsc_full sz q \<longleftrightarrow> unat sz \<le> unat (mpsc_size q)"
    by (simp add: mpsc_full_def word_le_nat_alt)
  moreover have "mpsc_items sz q = [] \<longleftrightarrow> unat (mp_head q) - unat (mp_tail q) = 0"
    by (metis length_mpsc_items length_0_conv)
  moreover have "unat (mp_head q) - unat (mp_tail q) \<le> unat sz" using inv(5) by linarith
  ultimately show ?thesis by auto
qed

lemma mpsc_observers_exact_example:
  "mpsc_empty (mpsc_init 4 :: nat mpsc) \<and> \<not> mpsc_full 4 (mpsc_init 4 :: nat mpsc)"
proof -
  have "mpsc_inv 4 0 (mpsc_init 4 :: nat mpsc)"
    by (rule mpsc_inv_init) (simp_all add: pow2_size_4)
  from mpsc_observers_exact [OF this] show ?thesis by (simp add: mpsc_items_init)
qed

text \<open>
  The overloads agree. The move overload of \<open>try_push\<close> changes the queue as the copying
  one does and moves from the caller's object exactly if it succeeds; \<open>try_pop(out)\<close> takes
  what \<open>try_pop()\<close> takes and leaves \<open>out\<close> alone if there is nothing.
\<close>

lemma mpsc_overloads_agree:
  assumes "mpsc_inv sz n q"
  shows "mpsc_try_push_move sz ty spur v q =
      (case mpsc_try_push sz spur v q of
         Some (Inr (ok, q')) \<Rightarrow>
           Some (Inr ((ok, if ok \<and> move_constructible ty then moved_from ty v else v), q'))
       | Some (Inl e) \<Rightarrow> Some (Inl e)
       | None \<Rightarrow> None) \<and>
    mpsc_try_pop_into sz ty out q =
      (case mpsc_try_pop sz ty q of
         Inl e \<Rightarrow> Inl e
       | Inr (None, q') \<Rightarrow> Inr ((False, out), q')
       | Inr (Some w, q') \<Rightarrow> Inr ((True, w), q'))"
  using mpsc_try_push_move_spec [OF assms] mpsc_try_pop_into_eq [OF assms] by blast

lemma mpsc_overloads_agree_example:
  "mpsc_try_pop_into 4 nat_elem 9 (mpsc_init 4) = Inr ((False, 9), mpsc_init 4)"
proof -
  have inv: "mpsc_inv 4 0 (mpsc_init 4 :: nat mpsc)"
    by (rule mpsc_inv_init) (simp_all add: pow2_size_4)
  from mpsc_overloads_agree [OF this, of nat_elem 0 0 9] mpsc_try_pop_spec [OF inv, of nat_elem]
  show ?thesis by (simp add: mpsc_items_init)
qed

text \<open>
  C8: A blocking push on a well-formed queue returns, without a fault, once the other
  threads from some access on leave room or have stopped the queue for good.
\<close>

theorem mpsc_blocking_push_returns:
  assumes "mpsc_inv sz (Suc n) q"
    and "\<And>j q. mpsc_inv sz (Suc n) q \<Longrightarrow> mpsc_inv sz (Suc n) (env j q)"
    and "\<And>j q. m \<le> j \<Longrightarrow> mpsc_inv sz (Suc n) q \<Longrightarrow>
      mpsc_stopped (env j q) \<or> length (mpsc_items sz (env j q)) < unat sz"
    and "\<And>j q. m \<le> j \<Longrightarrow> mpsc_inv sz (Suc n) q \<Longrightarrow> mpsc_stopped q \<Longrightarrow>
      mpsc_stopped (env j q)"
  shows "\<exists>ok q'. mpsc_blocking_push sz spur v env 0 q = Some (Inr (ok, q')) \<and> mpsc_inv sz n q'"
  using assms(2-4,1) by (rule mpsc_blocking_push_returns_aux)

text \<open>Another thread stops the queue before the push's second access.\<close>

theorem mpsc_blocking_push_returns_witness:
  "\<exists>ok q'. mpsc_blocking_push 4 (\<lambda>_. 1) (5::nat) (\<lambda>j q. if 1 \<le> j then mpsc_stop q else q) 0
     (mpsc_init 4) = Some (Inr (ok, q')) \<and> mpsc_inv 4 0 q'"
proof (rule mpsc_blocking_push_returns [where m = 1])
  show "mpsc_inv 4 (Suc 0) (mpsc_init 4 :: nat mpsc)"
    by (rule mpsc_inv_init) (simp_all add: pow2_size_4)
qed simp_all

text \<open>
  The destructor ends, without a fault, and leaves no live object in any cell.
\<close>

lemma mpsc_destroy_frees_all:
  assumes "mpsc_inv sz n q"
  shows "\<exists>q'. mpsc_destroy sz ty q = Some (Inr q') \<and>
    (\<forall>c\<in>set (mp_cells q'). cell_storage c = None)"
proof -
  have "mpsc_inv sz n (mpsc_stop q)" using assms by simp
  from mp.drain_empties [OF this, where ty = ty] obtain q' where
    "mpsc_destroy sz ty q = Some (Inr q')" "mpsc_inv sz n q'" "mpsc_items sz q' = []"
    unfolding mpsc_destroy_def by blast
  with mpsc_no_objects show ?thesis by blast
qed

lemma mpsc_destroy_frees_all_example:
  "\<exists>q'. mpsc_destroy 4 nat_elem (mpsc_init 4) = Some (Inr q') \<and>
     (\<forall>c\<in>set (mp_cells q'). cell_storage c = None)"
proof -
  have "mpsc_inv 4 0 (mpsc_init 4 :: nat mpsc)"
    by (rule mpsc_inv_init) (simp_all add: pow2_size_4)
  then show ?thesis by (rule mpsc_destroy_frees_all)
qed

text \<open>
  The compile-time check accepts a queue of one cell, and there the scheme breaks: the
  sequence number of the cell after a push is the position of the next one, so a second
  push finds the cell free and builds its object over the first.
\<close>

lemma mpsc_size_one_overwrites:
  "(1 :: size_t) AND (1 - 1) = 0 \<and>
   queue_exec (mpsc_try_push 1 0) (\<lambda>q. Some (mpsc_try_pop 1 ty q)) mpsc_stop mpsc_run
     [Push v, Push w] (mpsc_init 1) = Some (Inl LiveOverwrite)"
  by (simp add: mpsc_try_push_def mpsc_push_loop.simps mpsc_init_def cell_at_def mpsc_mask_def
      seq_diff_def mpsc_fill_def build_cell_def set_cell_def)

end
