(* ===== verification/MpscConcurrent.thy ===== *)
theory MpscConcurrent
  imports MpscQueue
begin

text \<open>
  Any number of producers and one consumer on a \<open>BoundedMPSCQueue\<close>, with any thread calling
  \<open>stop()\<close> and \<open>run()\<close>. A step is one access to shared memory.

  Every atomic location has a history of the values stored to it. A load returns any value
  that is not older than what the thread has seen of that location; a read-modify-write
  that succeeds works on the latest value. The storage of a cell is not atomic. Its accesses
  are counted: a release store of the sequence number carries the number of accesses the
  storing thread knows of, an acquire load passes it on, and an access by a thread that
  does not know of all earlier ones is a data race.
\<close>

section \<open>Threads and state\<close>

datatype 'a mprod_pc =
    M_Idle
  | M_Check1 'a                \<comment> \<open>first load of \<open>_queue_status\<close> in \<open>blocking_push\<close>\<close>
  | M_Check2 'a                \<comment> \<open>second load\<close>
  | M_Status 'a bool           \<comment> \<open>load \<open>_queue_status\<close> in \<open>try_push\<close>\<close>
  | M_Head 'a bool             \<comment> \<open>load \<open>_head\<close>\<close>
  | M_Seq 'a bool size_t       \<comment> \<open>load \<open>cell.seq\<close>, having \<open>pos\<close>\<close>
  | M_Cas 'a bool size_t       \<comment> \<open>compare and swap \<open>_head\<close>\<close>
  | M_Build 'a bool size_t     \<comment> \<open>build the object in the cell of \<open>pos\<close>\<close>
  | M_Publish 'a bool size_t   \<comment> \<open>store \<open>pos + 1\<close> to \<open>cell.seq\<close>\<close>

datatype 'a mcons_pc =
    K_Idle
  | K_Tail bool                \<comment> \<open>load \<open>_tail\<close>\<close>
  | K_Seq bool size_t          \<comment> \<open>load \<open>cell.seq\<close>, having \<open>pos\<close>\<close>
  | K_Advance bool size_t      \<comment> \<open>store \<open>pos + 1\<close> to \<open>_tail\<close>\<close>
  | K_Read bool size_t         \<comment> \<open>move the object out\<close>
  | K_Destroy bool size_t 'a   \<comment> \<open>destroy it\<close>
  | K_Release bool size_t 'a   \<comment> \<open>store \<open>pos + _size\<close> to \<open>cell.seq\<close>\<close>
  | K_Check1                   \<comment> \<open>first load of \<open>_queue_status\<close> in \<open>blocking_pop\<close>\<close>
  | K_Check2                   \<comment> \<open>second load\<close>

text \<open>
  What a thread has seen: the index of a value in the history of \<open>_head\<close>, of
  \<open>_queue_status\<close> and of each cell's \<open>seq\<close>, and the number of accesses to each cell's
  storage that it knows of.
\<close>

record 'a producer =
  pc :: "'a mprod_pc"
  ret :: "bool option"
  v_head :: nat
  v_stat :: nat
  v_seq :: "nat \<Rightarrow> nat"
  know :: "nat \<Rightarrow> nat"

record 'a consumer =
  kpc :: "'a mcons_pc"
  kret :: "'a option option"
  k_stat :: nat
  k_seq :: "nat \<Rightarrow> nat"
  k_know :: "nat \<Rightarrow> nat"

text \<open>
  Auxiliary: one entry per position handed out, with the producer that holds it until the
  element is published.
\<close>

datatype 'a entry = Reserved nat 'a | Built nat 'a | Ready 'a

fun entry_val :: "'a entry \<Rightarrow> 'a" where
  "entry_val (Reserved t v) = v"
| "entry_val (Built t v) = v"
| "entry_val (Ready v) = v"

text \<open>
  \<open>mq\<close> is the queue with the latest value of every location. \<open>log\<close> has an entry for every
  store to \<open>_head\<close>, so the value number \<open>c\<close> of \<open>_head\<close> is \<open>c\<close>; \<open>taken\<close> has the values
  popped. \<open>seqs ! i\<close> is the history of \<open>_cells[i].seq\<close>, each value with the count it
  carries, \<open>accs ! i\<close> the number of accesses to the storage of cell \<open>i\<close>, and \<open>mstats\<close> the
  history of \<open>_queue_status\<close>.
\<close>

record 'a mpsc_sys =
  mq :: "'a mpsc"
  log :: "'a entry list"
  taken :: "'a list"
  seqs :: "(size_t \<times> nat) list list"
  accs :: "nat list"
  mstats :: "queue_status list"
  prods :: "nat \<Rightarrow> 'a producer"
  kons :: "'a consumer"
  mfault :: "fault option"

definition put :: "nat \<Rightarrow> 'a producer \<Rightarrow> 'a mpsc_sys \<Rightarrow> 'a mpsc_sys" where
  "put t p s = s\<lparr>prods := (prods s)(t := p)\<rparr>"

definition cell_index :: "size_t \<Rightarrow> size_t \<Rightarrow> nat" where
  "cell_index sz pos = unat (pos AND mpsc_mask sz)"

section \<open>Accesses of a producer\<close>

text \<open>A failed \<open>try_push\<close> returns, or goes back to the loop of \<open>blocking_push\<close>.\<close>

definition push_failed :: "'a \<Rightarrow> bool \<Rightarrow> 'a producer \<Rightarrow> 'a producer" where
  "push_failed v b p = (if b then p\<lparr>pc := M_Check1 v\<rparr> else p\<lparr>pc := M_Idle, ret := Some False\<rparr>)"

text \<open>The three branches on \<open>diff\<close>.\<close>

definition push_decide :: "'a \<Rightarrow> bool \<Rightarrow> size_t \<Rightarrow> int \<Rightarrow> 'a producer \<Rightarrow> 'a producer" where
  "push_decide v b pos d p =
     (if d = 0 then p\<lparr>pc := M_Cas v b pos\<rparr>
      else if d < 0 then push_failed v b p
      else p\<lparr>pc := M_Head v b\<rparr>)"

definition see_seq :: "nat \<Rightarrow> nat \<Rightarrow> nat \<Rightarrow> 'a producer \<Rightarrow> 'a producer" where
  "see_seq i c m p = p\<lparr>v_seq := (v_seq p)(i := c), know := (know p)(i := max (know p i) m)\<rparr>"

text \<open>
  One access of producer \<open>t\<close>. \<open>c\<close> chooses the value a load returns. At the compare and
  swap this is its failure, spurious or not, which loads the head; its success is
  \<open>cas_access\<close>.
\<close>

fun push_access ::
  "size_t \<Rightarrow> nat \<Rightarrow> nat \<Rightarrow> 'a mprod_pc \<Rightarrow> 'a mpsc_sys \<Rightarrow> 'a mpsc_sys option" where
  "push_access sz t c M_Idle s = None"
| "push_access sz t c (M_Check1 v) s =
     (if v_stat (prods s t) \<le> c \<and> c < length (mstats s) then
        Some (put t ((prods s t)\<lparr>v_stat := c,
          pc := if mstats s ! c = Stopped then M_Check2 v else M_Status v True\<rparr>) s)
      else None)"
| "push_access sz t c (M_Check2 v) s =
     (if v_stat (prods s t) \<le> c \<and> c < length (mstats s) then
        Some (put t (if mstats s ! c = Stopped
          then (prods s t)\<lparr>v_stat := c, pc := M_Idle, ret := Some False\<rparr>
          else (prods s t)\<lparr>v_stat := c, pc := M_Status v True\<rparr>) s)
      else None)"
| "push_access sz t c (M_Status v b) s =
     (if v_stat (prods s t) \<le> c \<and> c < length (mstats s) then
        Some (put t (if mstats s ! c = Stopped
          then push_failed v b ((prods s t)\<lparr>v_stat := c\<rparr>)
          else (prods s t)\<lparr>v_stat := c, pc := M_Head v b\<rparr>) s)
      else None)"
| "push_access sz t c (M_Head v b) s =
     (if v_head (prods s t) \<le> c \<and> c \<le> length (log s) then
        Some (put t ((prods s t)\<lparr>v_head := c, pc := M_Seq v b (of_nat c)\<rparr>) s)
      else None)"
| "push_access sz t c (M_Seq v b pos) s =
     (if length (mp_cells (mq s)) \<le> cell_index sz pos then Some (s\<lparr>mfault := Some OutOfBounds\<rparr>)
      else if v_seq (prods s t) (cell_index sz pos) \<le> c \<and>
          c < length (seqs s ! cell_index sz pos) then
        (case seq_diff (fst (seqs s ! cell_index sz pos ! c)) pos of
           Inl e \<Rightarrow> Some (s\<lparr>mfault := Some e\<rparr>)
         | Inr d \<Rightarrow>
             Some (put t (push_decide v b pos d
               (see_seq (cell_index sz pos) c (snd (seqs s ! cell_index sz pos ! c)) (prods s t))) s))
      else None)"
| "push_access sz t c (M_Cas v b pos) s =
     (if v_head (prods s t) \<le> c \<and> c \<le> length (log s) then
        Some (put t ((prods s t)\<lparr>v_head := c, pc := M_Seq v b (of_nat c)\<rparr>) s)
      else None)"
| "push_access sz t c (M_Build v b pos) s =
     (if know (prods s t) (cell_index sz pos) \<noteq> accs s ! cell_index sz pos
      then Some (s\<lparr>mfault := Some DataRace\<rparr>)
      else (case build_cell v (mp_cells (mq s) ! cell_index sz pos) of
          Inl e \<Rightarrow> Some (s\<lparr>mfault := Some e\<rparr>)
        | Inr cell \<Rightarrow>
            Some (put t ((prods s t)\<lparr>pc := M_Publish v b pos,
                know := (know (prods s t))(cell_index sz pos := accs s ! cell_index sz pos + 1)\<rparr>)
              (s\<lparr>mq := (mq s)\<lparr>mp_cells := (mp_cells (mq s))[cell_index sz pos := cell]\<rparr>,
                 accs := (accs s)[cell_index sz pos := accs s ! cell_index sz pos + 1],
                 log := (log s)[unat pos := Built t v]\<rparr>))))"
| "push_access sz t c (M_Publish v b pos) s =
     Some (put t ((prods s t)\<lparr>pc := M_Idle, ret := Some True,
         v_seq := (v_seq (prods s t))(cell_index sz pos := length (seqs s ! cell_index sz pos))\<rparr>)
       (s\<lparr>mq := (mq s)\<lparr>mp_cells := (mp_cells (mq s))[cell_index sz pos :=
            (mp_cells (mq s) ! cell_index sz pos)\<lparr>cell_seq := pos + 1\<rparr>]\<rparr>,
          seqs := (seqs s)[cell_index sz pos :=
            seqs s ! cell_index sz pos @ [(pos + 1, know (prods s t) (cell_index sz pos))]],
          log := (log s)[unat pos := Ready v]\<rparr>))"

text \<open>The compare and swap succeeds: on the latest value of the head, and only if it is \<open>pos\<close>.\<close>

fun cas_access :: "nat \<Rightarrow> 'a mprod_pc \<Rightarrow> 'a mpsc_sys \<Rightarrow> 'a mpsc_sys option" where
  "cas_access t (M_Cas v b pos) s =
     (if mp_head (mq s) = pos then
        Some (put t ((prods s t)\<lparr>pc := M_Build v b pos, v_head := length (log s) + 1\<rparr>)
          (s\<lparr>mq := (mq s)\<lparr>mp_head := pos + 1\<rparr>, log := log s @ [Reserved t v]\<rparr>))
      else None)"
| "cas_access t _ s = None"

section \<open>Accesses of the consumer\<close>

text \<open>A failed \<open>try_pop\<close> returns, or goes on to the checks of \<open>blocking_pop\<close>.\<close>

definition pop_decide :: "bool \<Rightarrow> size_t \<Rightarrow> int \<Rightarrow> 'a consumer \<Rightarrow> 'a consumer" where
  "pop_decide b pos d k =
     (if d = 0 then k\<lparr>kpc := K_Advance b pos\<rparr>
      else if b then k\<lparr>kpc := K_Check1\<rparr>
      else k\<lparr>kpc := K_Idle, kret := Some None\<rparr>)"

fun pop_access ::
  "size_t \<Rightarrow> 'a elem_type \<Rightarrow> nat \<Rightarrow> 'a mcons_pc \<Rightarrow> 'a mpsc_sys \<Rightarrow> 'a mpsc_sys option" where
  "pop_access sz ty c K_Idle s = None"
| "pop_access sz ty c (K_Tail b) s =
     Some (s\<lparr>kons := (kons s)\<lparr>kpc := K_Seq b (mp_tail (mq s))\<rparr>\<rparr>)"
| "pop_access sz ty c (K_Seq b pos) s =
     (if length (mp_cells (mq s)) \<le> cell_index sz pos then Some (s\<lparr>mfault := Some OutOfBounds\<rparr>)
      else if k_seq (kons s) (cell_index sz pos) \<le> c \<and> c < length (seqs s ! cell_index sz pos) then
        (case seq_diff (fst (seqs s ! cell_index sz pos ! c)) (pos + 1) of
           Inl e \<Rightarrow> Some (s\<lparr>mfault := Some e\<rparr>)
         | Inr d \<Rightarrow>
             Some (s\<lparr>kons := pop_decide b pos d
               ((kons s)\<lparr>k_seq := (k_seq (kons s))(cell_index sz pos := c),
                 k_know := (k_know (kons s))(cell_index sz pos :=
                   max (k_know (kons s) (cell_index sz pos))
                       (snd (seqs s ! cell_index sz pos ! c)))\<rparr>)\<rparr>))
      else None)"
| "pop_access sz ty c (K_Advance b pos) s =
     Some (s\<lparr>mq := (mq s)\<lparr>mp_tail := pos + 1\<rparr>, kons := (kons s)\<lparr>kpc := K_Read b pos\<rparr>\<rparr>)"
| "pop_access sz ty c (K_Read b pos) s =
     (if k_know (kons s) (cell_index sz pos) \<noteq> accs s ! cell_index sz pos
      then Some (s\<lparr>mfault := Some DataRace\<rparr>)
      else (case read_cell (move_constructible ty) ty (mp_cells (mq s) ! cell_index sz pos) of
          Inl e \<Rightarrow> Some (s\<lparr>mfault := Some e\<rparr>)
        | Inr vc \<Rightarrow>
            Some (s\<lparr>mq := (mq s)\<lparr>mp_cells := (mp_cells (mq s))[cell_index sz pos := snd vc]\<rparr>,
              accs := (accs s)[cell_index sz pos := accs s ! cell_index sz pos + 1],
              kons := (kons s)\<lparr>kpc := K_Destroy b pos (fst vc),
                k_know := (k_know (kons s))(cell_index sz pos := accs s ! cell_index sz pos + 1)\<rparr>\<rparr>)))"
| "pop_access sz ty c (K_Destroy b pos v) s =
     (if k_know (kons s) (cell_index sz pos) \<noteq> accs s ! cell_index sz pos
      then Some (s\<lparr>mfault := Some DataRace\<rparr>)
      else (case clear_cell (mp_cells (mq s) ! cell_index sz pos) of
          Inl e \<Rightarrow> Some (s\<lparr>mfault := Some e\<rparr>)
        | Inr cell \<Rightarrow>
            Some (s\<lparr>mq := (mq s)\<lparr>mp_cells := (mp_cells (mq s))[cell_index sz pos := cell]\<rparr>,
              accs := (accs s)[cell_index sz pos := accs s ! cell_index sz pos + 1],
              kons := (kons s)\<lparr>kpc := K_Release b pos v,
                k_know := (k_know (kons s))(cell_index sz pos := accs s ! cell_index sz pos + 1)\<rparr>\<rparr>)))"
| "pop_access sz ty c (K_Release b pos v) s =
     Some (s\<lparr>mq := (mq s)\<lparr>mp_cells := (mp_cells (mq s))[cell_index sz pos :=
            (mp_cells (mq s) ! cell_index sz pos)\<lparr>cell_seq := pos + sz\<rparr>]\<rparr>,
          seqs := (seqs s)[cell_index sz pos :=
            seqs s ! cell_index sz pos @ [(pos + sz, k_know (kons s) (cell_index sz pos))]],
          taken := taken s @ [v],
          kons := (kons s)\<lparr>kpc := K_Idle, kret := Some (Some v),
            k_seq := (k_seq (kons s))(cell_index sz pos := length (seqs s ! cell_index sz pos))\<rparr>\<rparr>)"
| "pop_access sz ty c K_Check1 s =
     (if k_stat (kons s) \<le> c \<and> c < length (mstats s) then
        Some (s\<lparr>kons := (kons s)\<lparr>k_stat := c,
          kpc := if mstats s ! c = Stopped then K_Check2 else K_Tail True\<rparr>\<rparr>)
      else None)"
| "pop_access sz ty c K_Check2 s =
     (if k_stat (kons s) \<le> c \<and> c < length (mstats s) then
        Some (s\<lparr>kons := (if mstats s ! c = Stopped
          then (kons s)\<lparr>k_stat := c, kpc := K_Idle, kret := Some None\<rparr>
          else (kons s)\<lparr>k_stat := c, kpc := K_Tail True\<rparr>)\<rparr>)
      else None)"

section \<open>The system\<close>

datatype 'a mpsc_action =
    MPush nat 'a bool    \<comment> \<open>producer \<open>t\<close> calls \<open>try_push\<close>, or \<open>blocking_push\<close>\<close>
  | MPop bool
  | MProd nat nat
  | MCas nat
  | MCons nat
  | MStop
  | MRun

fun mpsc_do ::
  "size_t \<Rightarrow> 'a elem_type \<Rightarrow> 'a mpsc_action \<Rightarrow> 'a mpsc_sys \<Rightarrow> 'a mpsc_sys option" where
  "mpsc_do sz ty (MPush t v b) s =
     (if pc (prods s t) = M_Idle then
        Some (put t ((prods s t)\<lparr>pc := if b then M_Check1 v else M_Status v False, ret := None\<rparr>) s)
      else None)"
| "mpsc_do sz ty (MPop b) s =
     (if kpc (kons s) = K_Idle then
        Some (s\<lparr>kons := (kons s)\<lparr>kpc := K_Tail b, kret := None\<rparr>\<rparr>)
      else None)"
| "mpsc_do sz ty (MProd t c) s = push_access sz t c (pc (prods s t)) s"
| "mpsc_do sz ty (MCas t) s = cas_access t (pc (prods s t)) s"
| "mpsc_do sz ty (MCons c) s = pop_access sz ty c (kpc (kons s)) s"
| "mpsc_do sz ty MStop s = Some (s\<lparr>mq := mpsc_stop (mq s), mstats := mstats s @ [Stopped]\<rparr>)"
| "mpsc_do sz ty MRun s = Some (s\<lparr>mq := mpsc_run (mq s), mstats := mstats s @ [Running]\<rparr>)"

definition mpsc_act ::
  "size_t \<Rightarrow> 'a elem_type \<Rightarrow> 'a mpsc_action \<Rightarrow> 'a mpsc_sys \<Rightarrow> 'a mpsc_sys option" where
  "mpsc_act sz ty a s = (if mfault s = None then mpsc_do sz ty a s else None)"

inductive mpsc_step :: "size_t \<Rightarrow> 'a elem_type \<Rightarrow> 'a mpsc_sys \<Rightarrow> 'a mpsc_sys \<Rightarrow> bool"
  for sz :: size_t and ty :: "'a elem_type" where
  "mpsc_act sz ty a s = Some t \<Longrightarrow> mpsc_step sz ty s t"

inductive_simps mpsc_step_iff: "mpsc_step sz ty s t"

definition mpsc_sys_init :: "size_t \<Rightarrow> 'a mpsc_sys" where
  "mpsc_sys_init sz =
     \<lparr>mq = mpsc_init sz, log = [], taken = [], seqs = map (\<lambda>i. [(of_nat i, 0)]) [0..<unat sz],
      accs = replicate (unat sz) 0, mstats = [Running],
      prods = (\<lambda>t. \<lparr>pc = M_Idle, ret = None, v_head = 0, v_stat = 0, v_seq = (\<lambda>i. 0), know = (\<lambda>i. 0)\<rparr>),
      kons = \<lparr>kpc = K_Idle, kret = None, k_stat = 0, k_seq = (\<lambda>i. 0), k_know = (\<lambda>i. 0)\<rparr>,
      mfault = None\<rparr>"

abbreviation mpsc_reach :: "size_t \<Rightarrow> 'a elem_type \<Rightarrow> 'a mpsc_sys \<Rightarrow> bool" where
  "mpsc_reach sz ty \<equiv> reach (\<lambda>s. s = mpsc_sys_init sz) (mpsc_step sz ty)"

text \<open>A schedule, executed.\<close>

fun mpsc_sched ::
  "size_t \<Rightarrow> 'a elem_type \<Rightarrow> 'a mpsc_action list \<Rightarrow> 'a mpsc_sys \<Rightarrow> 'a mpsc_sys option" where
  "mpsc_sched sz ty [] s = Some s"
| "mpsc_sched sz ty (a # as) s =
     (case mpsc_act sz ty a s of None \<Rightarrow> None | Some t \<Rightarrow> mpsc_sched sz ty as t)"

lemma mpsc_sched_reach:
  "mpsc_reach sz ty s \<Longrightarrow> mpsc_sched sz ty as s = Some t \<Longrightarrow> mpsc_reach sz ty t"
proof (induction as arbitrary: s)
  case (Cons a as)
  from Cons.prems(2) obtain u where u: "mpsc_act sz ty a s = Some u"
    "mpsc_sched sz ty as u = Some t" by (auto split: option.splits)
  from u(1) have "mpsc_step sz ty s u" by (rule mpsc_step.intros)
  with Cons.prems(1) have "mpsc_reach sz ty u" by (rule reach.reach_step)
  then show ?case using u(2) by (rule Cons.IH)
qed simp

section \<open>The invariant\<close>

text \<open>The value number \<open>c\<close> of the sequence number of cell \<open>i\<close>, and the count it carries.\<close>

definition seq_val :: "nat \<Rightarrow> nat \<Rightarrow> nat \<Rightarrow> nat" where
  "seq_val n i c = i + c div 2 * n + c mod 2"

definition seq_msg :: "nat \<Rightarrow> nat" where
  "seq_msg c = 3 * (c div 2) + c mod 2"

definition histories_ok :: "nat \<Rightarrow> (size_t \<times> nat) list list \<Rightarrow> bool" where
  "histories_ok n hs \<longleftrightarrow> length hs = n \<and>
     (\<forall>i<n. \<forall>c<length (hs ! i). hs ! i ! c = (of_nat (seq_val n i c), seq_msg c))"

fun mphase :: "'a mcons_pc \<Rightarrow> slot_phase" where
  "mphase (K_Destroy b pos v) = Moved"
| "mphase (K_Release b pos v) = Gone"
| "mphase _ = Whole"

fun phase_accs :: "slot_phase \<Rightarrow> nat" where
  "phase_accs Whole = 0"
| "phase_accs Moved = 1"
| "phase_accs Gone = 2"

text \<open>
  The cell of position \<open>p\<close>, with the entry of that position if it is handed out: the cell,
  the length of its history and the number of accesses to its storage.
\<close>

fun mcell_ok ::
  "nat \<Rightarrow> nat \<Rightarrow> 'a entry option \<Rightarrow> slot_phase \<Rightarrow> 'a mpsc_cell \<Rightarrow> nat \<Rightarrow> nat \<Rightarrow> bool" where
  "mcell_ok n p None ph c l a \<longleftrightarrow> cell_storage c = None \<and> cell_seq c = of_nat p \<and>
     l = 2 * (p div n) + 1 \<and> a = 3 * (p div n)"
| "mcell_ok n p (Some (Reserved t v)) ph c l a \<longleftrightarrow> cell_storage c = None \<and> cell_seq c = of_nat p \<and>
     l = 2 * (p div n) + 1 \<and> a = 3 * (p div n)"
| "mcell_ok n p (Some (Built t v)) ph c l a \<longleftrightarrow> cell_storage c = Some v \<and> cell_seq c = of_nat p \<and>
     l = 2 * (p div n) + 1 \<and> a = 3 * (p div n) + 1"
| "mcell_ok n p (Some (Ready v)) ph c l a \<longleftrightarrow> slot_in_phase ph v (cell_storage c) \<and>
     cell_seq c = of_nat (Suc p) \<and> l = 2 * (p div n) + 2 \<and> a = 3 * (p div n) + 1 + phase_accs ph"

definition entry_at :: "'a entry list \<Rightarrow> nat \<Rightarrow> 'a entry option" where
  "entry_at es p = (if p < length es then Some (es ! p) else None)"

definition window_ok ::
  "nat \<Rightarrow> nat \<Rightarrow> 'a entry list \<Rightarrow> slot_phase \<Rightarrow> 'a mpsc_cell list \<Rightarrow> (size_t \<times> nat) list list \<Rightarrow>
   nat list \<Rightarrow> bool" where
  "window_ok n f es ph cells hs as \<longleftrightarrow> length cells = n \<and> length as = n \<and>
     (\<forall>p. f \<le> p \<and> p < f + n \<longrightarrow>
        mcell_ok n p (entry_at es p) (if p = f then ph else Whole)
          (cells ! (p mod n)) (length (hs ! (p mod n))) (as ! (p mod n)))"

text \<open>What a thread has seen and knows is bounded by what there is.\<close>

definition seen_ok ::
  "nat \<Rightarrow> (size_t \<times> nat) list list \<Rightarrow> nat list \<Rightarrow> (nat \<Rightarrow> nat) \<Rightarrow> (nat \<Rightarrow> nat) \<Rightarrow> bool" where
  "seen_ok n hs as sq kn \<longleftrightarrow>
     (\<forall>i<n. sq i < length (hs ! i) \<and> seq_msg (sq i) \<le> kn i \<and> kn i \<le> as ! i)"

fun mprod_pc_ok ::
  "nat \<Rightarrow> 'a entry list \<Rightarrow> nat list \<Rightarrow> nat \<Rightarrow> 'a producer \<Rightarrow> 'a mprod_pc \<Rightarrow> bool" where
  "mprod_pc_ok n es as t p (M_Seq v b pos) \<longleftrightarrow> (\<exists>h. pos = of_nat h \<and> h \<le> length es)"
| "mprod_pc_ok n es as t p (M_Cas v b pos) \<longleftrightarrow>
     (\<exists>h. pos = of_nat h \<and> h \<le> length es \<and> 2 * (h div n) \<le> v_seq p (h mod n))"
| "mprod_pc_ok n es as t p (M_Build v b pos) \<longleftrightarrow>
     (\<exists>h. pos = of_nat h \<and> h < length es \<and> es ! h = Reserved t v \<and> 2 * (h div n) \<le> v_seq p (h mod n))"
| "mprod_pc_ok n es as t p (M_Publish v b pos) \<longleftrightarrow>
     (\<exists>h. pos = of_nat h \<and> h < length es \<and> es ! h = Built t v \<and> know p (h mod n) = as ! (h mod n))"
| "mprod_pc_ok n es as t p _ \<longleftrightarrow> True"

definition producer_ok ::
  "nat \<Rightarrow> (size_t \<times> nat) list list \<Rightarrow> nat list \<Rightarrow> nat \<Rightarrow> 'a entry list \<Rightarrow> nat \<Rightarrow> 'a producer \<Rightarrow> bool" where
  "producer_ok n hs as k es t p \<longleftrightarrow>
     v_head p \<le> length es \<and> v_stat p < k \<and> seen_ok n hs as (v_seq p) (know p) \<and>
     mprod_pc_ok n es as t p (pc p)"

text \<open>Whose the positions are that are handed out and not published.\<close>

fun entry_ok :: "(nat \<Rightarrow> 'a producer) \<Rightarrow> nat \<Rightarrow> 'a entry \<Rightarrow> bool" where
  "entry_ok ps p (Reserved t v) \<longleftrightarrow> (\<exists>b. pc (ps t) = M_Build v b (of_nat p))"
| "entry_ok ps p (Built t v) \<longleftrightarrow> (\<exists>b. pc (ps t) = M_Publish v b (of_nat p))"
| "entry_ok ps p (Ready v) \<longleftrightarrow> True"

fun advanced :: "'a mcons_pc \<Rightarrow> nat" where
  "advanced (K_Read b pos) = 1"
| "advanced (K_Destroy b pos v) = 1"
| "advanced (K_Release b pos v) = 1"
| "advanced _ = 0"

fun front_ready :: "'a entry list \<Rightarrow> nat \<Rightarrow> 'a \<Rightarrow> bool" where
  "front_ready es f v \<longleftrightarrow> f < length es \<and> es ! f = Ready v"

fun mcons_pc_ok ::
  "nat \<Rightarrow> nat \<Rightarrow> 'a entry list \<Rightarrow> nat list \<Rightarrow> 'a consumer \<Rightarrow> 'a mcons_pc \<Rightarrow> bool" where
  "mcons_pc_ok n f es as k (K_Seq b pos) \<longleftrightarrow> pos = of_nat f"
| "mcons_pc_ok n f es as k (K_Advance b pos) \<longleftrightarrow> pos = of_nat f \<and> (\<exists>v. front_ready es f v) \<and>
     2 * (f div n) + 1 \<le> k_seq k (f mod n)"
| "mcons_pc_ok n f es as k (K_Read b pos) \<longleftrightarrow> pos = of_nat f \<and> (\<exists>v. front_ready es f v) \<and>
     2 * (f div n) + 1 \<le> k_seq k (f mod n)"
| "mcons_pc_ok n f es as k (K_Destroy b pos v) \<longleftrightarrow> pos = of_nat f \<and> front_ready es f v \<and>
     k_know k (f mod n) = as ! (f mod n)"
| "mcons_pc_ok n f es as k (K_Release b pos v) \<longleftrightarrow> pos = of_nat f \<and> front_ready es f v \<and>
     k_know k (f mod n) = as ! (f mod n)"
| "mcons_pc_ok n f es as k _ \<longleftrightarrow> True"

definition consumer_ok ::
  "nat \<Rightarrow> nat \<Rightarrow> (size_t \<times> nat) list list \<Rightarrow> nat list \<Rightarrow> nat \<Rightarrow> 'a entry list \<Rightarrow> 'a consumer \<Rightarrow> bool" where
  "consumer_ok n f hs as m es k \<longleftrightarrow>
     k_stat k < m \<and> seen_ok n hs as (k_seq k) (k_know k) \<and> mcons_pc_ok n f es as k (kpc k)"

definition mpsc_good :: "size_t \<Rightarrow> 'a mpsc_sys \<Rightarrow> bool" where
  "mpsc_good sz s \<longleftrightarrow>
     pow2_size sz \<and> 2 \<le> unat sz \<and> mfault s = None \<and>
     mp_head (mq s) = of_nat (length (log s)) \<and>
     mp_tail (mq s) = of_nat (length (taken s) + advanced (kpc (kons s))) \<and>
     mstats s \<noteq> [] \<and> last (mstats s) = mp_status (mq s) \<and>
     length (taken s) \<le> length (log s) \<and> length (log s) \<le> length (taken s) + unat sz \<and>
     (\<forall>p<length (taken s). log s ! p = Ready (taken s ! p)) \<and>
     histories_ok (unat sz) (seqs s) \<and>
     window_ok (unat sz) (length (taken s)) (log s) (mphase (kpc (kons s)))
       (mp_cells (mq s)) (seqs s) (accs s) \<and>
     (\<forall>t. producer_ok (unat sz) (seqs s) (accs s) (length (mstats s)) (log s) t (prods s t)) \<and>
     (\<forall>p<length (log s). entry_ok (prods s) p (log s ! p)) \<and>
     consumer_ok (unat sz) (length (taken s)) (seqs s) (accs s) (length (mstats s)) (log s) (kons s)"

text \<open>The invariant holds while the positions and the sequence numbers fit into 63 bits.\<close>

definition mpsc_within :: "size_t \<Rightarrow> 'a mpsc_sys \<Rightarrow> bool" where
  "mpsc_within sz s \<longleftrightarrow> length (log s) + unat sz < 2 ^ 63"

definition mpsc_sys_inv :: "size_t \<Rightarrow> 'a mpsc_sys \<Rightarrow> bool" where
  "mpsc_sys_inv sz s \<longleftrightarrow> (mpsc_within sz s \<longrightarrow> mpsc_good sz s)"

lemma mpsc_sys_inv_init:
  assumes "pow2_size sz" and "2 \<le> unat sz"
  shows "mpsc_sys_inv sz (mpsc_sys_init sz :: 'a mpsc_sys)"
proof -
  have "mpsc_good sz (mpsc_sys_init sz :: 'a mpsc_sys)"
    using assms by (simp add: mpsc_good_def mpsc_sys_init_def mpsc_init_def histories_ok_def window_ok_def
        producer_ok_def consumer_ok_def seen_ok_def entry_at_def seq_val_def seq_msg_def)
  then show ?thesis by (simp add: mpsc_sys_inv_def)
qed

section \<open>Frames\<close>

text \<open>What a change of the shared part must respect, for the threads that do not make it.\<close>

fun owner :: "'a entry \<Rightarrow> nat option" where
  "owner (Reserved t v) = Some t"
| "owner (Built t v) = Some t"
| "owner (Ready v) = None"

definition grows :: "nat \<Rightarrow> (size_t \<times> nat) list list \<Rightarrow> nat list \<Rightarrow> (size_t \<times> nat) list list \<Rightarrow> nat list \<Rightarrow> bool"
  where "grows n hs as hs' as' \<longleftrightarrow>
    (\<forall>i<n. length (hs ! i) \<le> length (hs' ! i) \<and> as ! i \<le> as' ! i)"

lemma grows_refl [simp]: "grows n hs as hs as"
  by (simp add: grows_def)

lemma grows_accs:
  "length as = n \<Longrightarrow> grows n hs as hs (as[i := as ! i + 1])"
  by (cases "i < n") (auto simp: grows_def nth_list_update)

lemma grows_seqs:
  "length hs = n \<Longrightarrow> grows n hs as (hs[i := hs ! i @ [x]]) as"
  by (cases "i < n") (auto simp: grows_def nth_list_update)

lemma seen_ok_mono: "seen_ok n hs as sq kn \<Longrightarrow> grows n hs as hs' as' \<Longrightarrow> seen_ok n hs' as' sq kn"
  unfolding seen_ok_def grows_def by (meson le_trans less_le_trans)

lemma producer_ok_frame:
  assumes "producer_ok n hs as k es t p" and "grows n hs as hs' as'" and "k \<le> k'"
    and "length es \<le> length es'"
    and "\<And>h. h < length es \<Longrightarrow> owner (es ! h) = Some t \<Longrightarrow>
      es' ! h = es ! h \<and> as' ! (h mod n) = as ! (h mod n)"
  shows "producer_ok n hs' as' k' es' t p"
proof -
  from assms(1) have ok: "v_head p \<le> length es" "v_stat p < k" "seen_ok n hs as (v_seq p) (know p)"
    "mprod_pc_ok n es as t p (pc p)" by (simp_all add: producer_ok_def)
  have "mprod_pc_ok n es' as' t p (pc p)"
  proof (cases "pc p")
    case (M_Seq v b pos)
    with ok(4) assms(4) show ?thesis by (auto intro: le_trans)
  next
    case (M_Cas v b pos)
    with ok(4) assms(4) show ?thesis by (auto intro: le_trans)
  next
    case (M_Build v b pos)
    with ok(4) obtain h where h: "pos = of_nat h" "h < length es" "es ! h = Reserved t v"
      "2 * (h div n) \<le> v_seq p (h mod n)" by auto
    moreover from h have "es' ! h = es ! h" using assms(5) [of h] by simp
    ultimately show ?thesis using M_Build assms(4) by auto
  next
    case (M_Publish v b pos)
    with ok(4) obtain h where h: "pos = of_nat h" "h < length es" "es ! h = Built t v"
      "know p (h mod n) = as ! (h mod n)" by auto
    moreover from h have "es' ! h = es ! h \<and> as' ! (h mod n) = as ! (h mod n)"
      using assms(5) [of h] by simp
    ultimately show ?thesis using M_Publish assms(4) by auto
  qed simp_all
  with ok assms(2-4) seen_ok_mono show ?thesis unfolding producer_ok_def
    by (meson le_trans less_le_trans)
qed

lemma consumer_ok_frame:
  assumes "consumer_ok n f hs as m es k" and "grows n hs as hs' as'" and "m \<le> m'"
    and "\<And>v. front_ready es f v \<Longrightarrow> front_ready es' f v \<and> as' ! (f mod n) = as ! (f mod n)"
  shows "consumer_ok n f hs' as' m' es' k"
proof -
  from assms(1) have ok: "k_stat k < m" "seen_ok n hs as (k_seq k) (k_know k)"
    "mcons_pc_ok n f es as k (kpc k)" by (simp_all add: consumer_ok_def)
  have "mcons_pc_ok n f es' as' k (kpc k)"
    using ok(3) assms(4) by (cases "kpc k") (fastforce simp del: front_ready.simps)+
  with ok assms(2,3) seen_ok_mono show ?thesis unfolding consumer_ok_def
    by (meson less_le_trans)
qed

text \<open>One cell of the window changes.\<close>

lemma window_ok_update:
  assumes "window_ok n f es ph cells hs as" and "length hs = n"
    and "f \<le> p" and "p < f + n"
    and "mcell_ok n p (entry_at es' p) (if p = f then ph' else Whole) c (length h) a"
    and "\<And>q. f \<le> q \<Longrightarrow> q < f + n \<Longrightarrow> q \<noteq> p \<Longrightarrow> entry_at es' q = entry_at es q"
    and "p \<noteq> f \<Longrightarrow> ph' = ph"
  shows "window_ok n f es' ph' (cells[p mod n := c]) (hs[p mod n := h]) (as[p mod n := a])"
  unfolding window_ok_def
proof (intro conjI allI impI; (elim conjE)?)
  from assms(1) have len: "length cells = n" "length as = n" by (simp_all add: window_ok_def)
  then show "length (cells[p mod n := c]) = n" "length (as[p mod n := a]) = n" by simp_all
  fix q assume q: "f \<le> q" "q < f + n"
  have pn: "p mod n < n" using assms(3,4) by (intro mod_less_divisor) linarith
  show "mcell_ok n q (entry_at es' q) (if q = f then ph' else Whole) (cells[p mod n := c] ! (q mod n))
      (length (hs[p mod n := h] ! (q mod n))) (as[p mod n := a] ! (q mod n))"
  proof (cases "q = p")
    case True
    with pn len assms(2,5) show ?thesis by simp
  next
    case False
    with q assms(3,4) have ne: "p mod n \<noteq> q mod n" using window_mod_inj [of p n q f] by auto
    have "(if q = f then ph' else Whole) = (if q = f then ph else Whole)"
      using False assms(7) by auto
    moreover have "mcell_ok n q (entry_at es q) (if q = f then ph else Whole) (cells ! (q mod n))
        (length (hs ! (q mod n))) (as ! (q mod n))"
      using assms(1) q by (simp add: window_ok_def)
    ultimately show ?thesis using ne assms(6) [OF q False] by (simp add: nth_list_update_neq)
  qed
qed

lemma histories_ok_append:
  assumes "histories_ok n hs" and "i < n" and "x = of_nat (seq_val n i (length (hs ! i)))"
    and "m = seq_msg (length (hs ! i))"
  shows "histories_ok n (hs[i := hs ! i @ [(x, m)]])"
  using assms by (auto simp: histories_ok_def nth_list_update nth_append less_Suc_eq)

section \<open>Parts of the invariant\<close>

lemma mpsc_goodD:
  assumes "mpsc_good sz s"
  shows "pow2_size sz" "2 \<le> unat sz" "mfault s = None"
    "mp_head (mq s) = of_nat (length (log s))"
    "mp_tail (mq s) = of_nat (length (taken s) + advanced (kpc (kons s)))"
    "mstats s \<noteq> []" "last (mstats s) = mp_status (mq s)"
    "length (taken s) \<le> length (log s)" "length (log s) \<le> length (taken s) + unat sz"
    "\<forall>p<length (taken s). log s ! p = Ready (taken s ! p)"
    "histories_ok (unat sz) (seqs s)"
    "window_ok (unat sz) (length (taken s)) (log s) (mphase (kpc (kons s)))
       (mp_cells (mq s)) (seqs s) (accs s)"
    "\<forall>t. producer_ok (unat sz) (seqs s) (accs s) (length (mstats s)) (log s) t (prods s t)"
    "\<forall>p<length (log s). entry_ok (prods s) p (log s ! p)"
    "consumer_ok (unat sz) (length (taken s)) (seqs s) (accs s) (length (mstats s)) (log s) (kons s)"
  using assms by (simp_all add: mpsc_good_def)

lemma mpsc_good_lengths:
  assumes "mpsc_good sz s"
  shows "length (mp_cells (mq s)) = unat sz" "length (seqs s) = unat sz" "length (accs s) = unat sz"
  using mpsc_goodD(11,12) [OF assms] by (simp_all add: histories_ok_def window_ok_def)

lemma mpsc_good_window:
  assumes "mpsc_good sz s" and "length (taken s) \<le> p" and "p < length (taken s) + unat sz"
  shows "mcell_ok (unat sz) p (entry_at (log s) p)
    (if p = length (taken s) then mphase (kpc (kons s)) else Whole)
    (mp_cells (mq s) ! (p mod unat sz)) (length (seqs s ! (p mod unat sz))) (accs s ! (p mod unat sz))"
  using mpsc_goodD(12) [OF assms(1)] assms(2,3) by (simp add: window_ok_def)

lemma mpsc_good_owned:
  assumes "mpsc_good sz s" and "h < length (log s)" and "owner (log s ! h) \<noteq> None"
  shows "length (taken s) \<le> h" "h < length (taken s) + unat sz"
proof -
  show "length (taken s) \<le> h"
  proof (rule ccontr)
    assume "\<not> length (taken s) \<le> h"
    with mpsc_goodD(10) [OF assms(1)] assms(3) show False by simp
  qed
  show "h < length (taken s) + unat sz" using mpsc_goodD(9) [OF assms(1)] assms(2) by simp
qed

lemma cell_index_of_nat:
  assumes "pow2_size sz" and "h < 2 ^ 63"
  shows "cell_index sz (of_nat h) = h mod unat sz"
  using assms by (simp add: cell_index_def mpsc_mask_def unat_and_mask unat_of_nat_pos)

lemma of_nat_pos_inj:
  assumes "(of_nat x :: size_t) = of_nat y" and "x < 2 ^ 63" and "y < 2 ^ 63"
  shows "x = y"
  using assms unat_of_nat_pos by metis

text \<open>If the front entry is not ready, the consumer has not touched its cell.\<close>

lemma mphase_front:
  assumes "consumer_ok n f hs as m es k" and "\<not> (\<exists>v. front_ready es f v)"
  shows "mphase (kpc k) = Whole" "advanced (kpc k) = 0"
  using assms by (cases "kpc k"; simp add: consumer_ok_def)+

text \<open>Every cell belongs to a position of the window; its history is that long.\<close>

lemma mpsc_good_history:
  assumes "mpsc_good sz s" and "i < unat sz" and "c < length (seqs s ! i)"
  shows "seq_val (unat sz) i c \<le> length (log s) + unat sz"
proof -
  let ?f = "length (taken s)" and ?n = "unat sz"
  obtain j where j: "j < ?n" "(?f + j) mod ?n = i" using ring_index_surj [OF assms(2)] by blast
  let ?p = "?f + j"
  have dm: "?p div ?n * ?n + i = ?p" using j(2) div_mult_mod_eq [of ?p ?n] by simp
  note w = mpsc_good_window [OF assms(1), of ?p]
  have "seq_val ?n i c \<le> Suc ?p" if "length (seqs s ! i) \<le> 2 * (?p div ?n) + 2"
  proof -
    have "c div 2 \<le> ?p div ?n" using assms(3) that by linarith
    then have "c div 2 * ?n \<le> ?p div ?n * ?n" by simp
    moreover have "c mod 2 \<le> 1" by simp
    ultimately show ?thesis unfolding seq_val_def using dm by linarith
  qed
  moreover have "length (seqs s ! i) \<le> 2 * (?p div ?n) + 2"
    using w j by (cases "entry_at (log s) ?p") (auto elim: mcell_ok.elims)
  ultimately show ?thesis using mpsc_goodD(8) [OF assms(1)] j(1) by linarith
qed

section \<open>Preservation: local accesses\<close>

fun holding :: "'a mprod_pc \<Rightarrow> bool" where
  "holding (M_Build v b pos) = True"
| "holding (M_Publish v b pos) = True"
| "holding _ = False"

abbreviation mproducer_ok :: "size_t \<Rightarrow> 'a mpsc_sys \<Rightarrow> nat \<Rightarrow> 'a producer \<Rightarrow> bool" where
  "mproducer_ok sz s \<equiv> producer_ok (unat sz) (seqs s) (accs s) (length (mstats s)) (log s)"

abbreviation mconsumer_ok :: "size_t \<Rightarrow> 'a mpsc_sys \<Rightarrow> 'a consumer \<Rightarrow> bool" where
  "mconsumer_ok sz s \<equiv>
     consumer_ok (unat sz) (length (taken s)) (seqs s) (accs s) (length (mstats s)) (log s)"

lemma entry_ok_other:
  assumes "entry_ok ps q e" and "owner e = Some t \<longrightarrow> ps' t = ps t"
    and "\<And>u. u \<noteq> t \<Longrightarrow> ps' u = ps u"
  shows "entry_ok ps' q e"
proof (cases e)
  case (Reserved u v)
  with assms show ?thesis by (cases "u = t") auto
next
  case (Built u v)
  with assms show ?thesis by (cases "u = t") auto
qed simp

lemma not_holding_owner:
  assumes "entry_ok ps q e" and "\<not> holding (pc (ps t))"
  shows "owner e \<noteq> Some t"
  using assms by (cases e) auto

lemma mpsc_good_put:
  assumes good: "mpsc_good sz s" and p: "mproducer_ok sz s t p"
    and free: "\<not> holding (pc (prods s t))"
  shows "mpsc_good sz (put t p s)"
proof -
  have "entry_ok ((prods s)(t := p)) q (log s ! q)" if "q < length (log s)" for q
  proof (rule entry_ok_other [of "prods s"])
    show e: "entry_ok (prods s) q (log s ! q)" using mpsc_goodD(14) [OF good] that by blast
    show "owner (log s ! q) = Some t \<longrightarrow> ((prods s)(t := p)) t = prods s t"
      using not_holding_owner [OF e free] by simp
  qed simp
  with good p show ?thesis by (simp add: mpsc_good_def put_def)
qed

lemma mpsc_good_kons:
  assumes "mpsc_good sz s" and "mconsumer_ok sz s k"
    and "mphase (kpc k) = mphase (kpc (kons s))" and "advanced (kpc k) = advanced (kpc (kons s))"
  shows "mpsc_good sz (s\<lparr>kons := k\<rparr>)"
  using assms by (simp add: mpsc_good_def)

lemma seen_ok_see:
  assumes "seen_ok n hs as sq kn" and "histories_ok n hs" and "i < n" and "c < length (hs ! i)"
    and "seq_msg c \<le> as ! i"
  shows "seen_ok n hs as (sq(i := c)) (kn(i := max (kn i) (snd (hs ! i ! c))))"
proof -
  have "snd (hs ! i ! c) = seq_msg c" using assms(2-4) by (simp add: histories_ok_def)
  with assms show ?thesis by (auto simp: seen_ok_def)
qed

text \<open>The count that a value carries is not above the count there is.\<close>

lemma mpsc_good_msg:
  assumes "mpsc_good sz s" and "i < unat sz" and "c < length (seqs s ! i)"
  shows "seq_msg c \<le> accs s ! i"
proof -
  let ?f = "length (taken s)" and ?n = "unat sz"
  obtain j where j: "j < ?n" "(?f + j) mod ?n = i" using ring_index_surj [OF assms(2)] by blast
  note w = mpsc_good_window [OF assms(1), of "?f + j"]
  have "seq_msg c \<le> 3 * r" if "c < 2 * r + 1" for r
    using that div_mult_mod_eq [of c 2] unfolding seq_msg_def by linarith
  moreover have "seq_msg c \<le> 3 * r + 1" if "c < 2 * r + 2" for r
    using that div_mult_mod_eq [of c 2] unfolding seq_msg_def by linarith
  ultimately show ?thesis
    using w j assms(3) by (cases "entry_at (log s) (?f + j)"; (auto elim!: mcell_ok.elims)?)
      (fastforce+)?
qed

text \<open>A value equal to a position, and one beyond it, tell their place in the history.\<close>

lemma seq_val_eq:
  assumes "seq_val n (h mod n) c = h" and "2 \<le> n"
  shows "c = 2 * (h div n)"
proof -
  have eq: "c div 2 * n + c mod 2 = h div n * n"
    using assms(1) div_mult_mod_eq [of h n] unfolding seq_val_def by linarith
  have "c mod 2 < 2" by simp
  with assms(2) have c2: "c mod 2 < n" by linarith
  have "c mod 2 = (c div 2 * n + c mod 2) mod n" using c2 by simp
  also have "\<dots> = 0" by (simp only: eq) simp
  finally have "c mod 2 = 0" .
  moreover from this eq assms(2) have "c div 2 = h div n" by simp
  ultimately show ?thesis using div_mult_mod_eq [of c 2] by linarith
qed

lemma seq_val_Suc:
  assumes "seq_val n (h mod n) c = Suc h" and "2 \<le> n"
  shows "c = 2 * (h div n) + 1"
proof -
  have eq: "c div 2 * n + c mod 2 = h div n * n + 1"
    using assms(1) div_mult_mod_eq [of h n] unfolding seq_val_def by linarith
  have "c mod 2 < 2" by simp
  with assms(2) have c2: "c mod 2 < n" by linarith
  have "c mod 2 = (c div 2 * n + c mod 2) mod n" using c2 by simp
  also have "\<dots> = 1 mod n" by (simp only: eq mod_mult_self3)
  also have "\<dots> = 1" using assms(2) by simp
  finally have "c mod 2 = 1" .
  moreover from this eq assms(2) have "c div 2 = h div n" by simp
  ultimately show ?thesis using div_mult_mod_eq [of c 2] by linarith
qed

lemma mproducer_okD:
  assumes "mpsc_good sz s"
  shows "mproducer_ok sz s t (prods s t)"
  using mpsc_goodD(13) [OF assms] by blast

lemma see_seq_simps [simp]:
  "pc (see_seq i c m p) = pc p" "v_head (see_seq i c m p) = v_head p"
  "v_stat (see_seq i c m p) = v_stat p" "v_seq (see_seq i c m p) = (v_seq p)(i := c)"
  "know (see_seq i c m p) = (know p)(i := max (know p i) m)"
  by (simp_all add: see_seq_def)

lemma push_failed_ok [simp]:
  "producer_ok n hs as k es t (push_failed v b p) \<longleftrightarrow>
     v_head p \<le> length es \<and> v_stat p < k \<and> seen_ok n hs as (v_seq p) (know p)"
  by (simp add: push_failed_def producer_ok_def)

text \<open>What the load of a sequence number tells a producer.\<close>

lemma push_decide_ok:
  assumes good: "mpsc_good sz s" and within: "mpsc_within sz s"
    and p: "mproducer_ok sz s t p" and h: "h \<le> length (log s)"
    and c: "c < length (seqs s ! (h mod unat sz))"
    and d: "d = int (seq_val (unat sz) (h mod unat sz) c) - int h"
  shows "mproducer_ok sz s t (push_decide v b (of_nat h) d
    (see_seq (h mod unat sz) c (snd (seqs s ! (h mod unat sz) ! c)) p))"
proof -
  let ?n = "unat sz" and ?i = "h mod unat sz"
  have i: "?i < ?n" using mpsc_goodD(2) [OF good] by (intro mod_less_divisor) linarith
  from p have pv: "v_head p \<le> length (log s)" "v_stat p < length (mstats s)"
    "seen_ok ?n (seqs s) (accs s) (v_seq p) (know p)" by (simp_all add: producer_ok_def)
  note seen = seen_ok_see [OF pv(3) mpsc_goodD(11) [OF good] i c mpsc_good_msg [OF good i c]]
  show ?thesis
  proof (cases "d = 0")
    case True
    with d have "seq_val ?n ?i c = h" by linarith
    then have "c = 2 * (h div ?n)" using mpsc_goodD(2) [OF good] by (rule seq_val_eq)
    with True pv seen h show ?thesis
      unfolding push_decide_def producer_ok_def by auto
  next
    case False
    with pv seen show ?thesis by (auto simp: push_decide_def producer_ok_def push_failed_def)
  qed
qed

lemma seq_load_diff:
  assumes good: "mpsc_good sz s" and within: "mpsc_within sz s" and i: "i < unat sz"
    and c: "c < length (seqs s ! i)" and h: "h \<le> Suc (length (log s))"
  shows "seq_diff (fst (seqs s ! i ! c)) (of_nat h) = Inr (int (seq_val (unat sz) i c) - int h)"
proof -
  have "fst (seqs s ! i ! c) = of_nat (seq_val (unat sz) i c)"
    using mpsc_goodD(11) [OF good] i c by (simp add: histories_ok_def)
  moreover have "seq_val (unat sz) i c < 2 ^ 63"
    using mpsc_good_history [OF good i c] within unfolding mpsc_within_def by linarith
  moreover have "h < 2 ^ 63"
    using h within mpsc_goodD(2) [OF good] unfolding mpsc_within_def by linarith
  ultimately show ?thesis by (simp only: seq_diff_of_nat)
qed

lemma push_seq_good:
  assumes good: "mpsc_good sz s" and within: "mpsc_within sz s"
    and pc: "pc (prods s t) = M_Seq v b pos"
    and step: "push_access sz t c (M_Seq v b pos) s = Some s'"
  shows "mpsc_good sz s'"
proof -
  note p = mproducer_okD [OF good, of t]
  from p pc obtain h where h: "pos = of_nat h" "h \<le> length (log s)"
    by (auto simp: producer_ok_def)
  have h63: "h < 2 ^ 63" using h(2) within unfolding mpsc_within_def by linarith
  have i: "h mod unat sz < unat sz"
    using mpsc_goodD(2) [OF good] by (intro mod_less_divisor) linarith
  have idx: "cell_index sz pos = h mod unat sz"
    unfolding h(1) using mpsc_goodD(1) [OF good] h63 by (rule cell_index_of_nat)
  have step': "v_seq (prods s t) (h mod unat sz) \<le> c \<and> c < length (seqs s ! (h mod unat sz))"
    using step i mpsc_good_lengths(1) [OF good] by (auto simp: idx split: if_split_asm)
  then have c: "c < length (seqs s ! (h mod unat sz))" by simp
  from h(2) have diff: "seq_diff (fst (seqs s ! (h mod unat sz) ! c)) pos =
      Inr (int (seq_val (unat sz) (h mod unat sz) c) - int h)"
    unfolding h(1) by (intro seq_load_diff [OF good within i c]) simp
  have "s' = put t (push_decide v b pos (int (seq_val (unat sz) (h mod unat sz) c) - int h)
      (see_seq (h mod unat sz) c (snd (seqs s ! (h mod unat sz) ! c)) (prods s t))) s"
    using step i step' mpsc_good_lengths(1) [OF good] diff
    by (simp add: idx)
  moreover have "\<not> holding (pc (prods s t))" by (simp add: pc)
  ultimately show ?thesis
    using push_decide_ok [OF good within p h(2) c refl] mpsc_good_put [OF good] h(1) by auto
qed

lemma push_local_good:
  assumes good: "mpsc_good sz s" and within: "mpsc_within sz s"
    and step: "push_access sz t c (pc (prods s t)) s = Some s'"
    and free: "\<not> holding (pc (prods s t))"
  shows "mpsc_good sz s'"
proof (cases "pc (prods s t)")
  case (M_Seq v b pos)
  with push_seq_good [OF good within] step show ?thesis by simp
next
  case M_Idle
  with step show ?thesis by simp
next
  note p = mproducer_okD [OF good, of t]
  have ok: "v_head (prods s t) \<le> length (log s)" "v_stat (prods s t) < length (mstats s)"
    "seen_ok (unat sz) (seqs s) (accs s) (v_seq (prods s t)) (know (prods s t))"
    using p by (simp_all add: producer_ok_def)
  note put = mpsc_good_put [OF good _ free]
  {
    case (M_Check1 v)
    with step ok show ?thesis
      by (auto split: if_split_asm intro!: put simp: producer_ok_def)
  next
    case (M_Check2 v)
    with step ok show ?thesis
      by (auto split: if_split_asm intro!: put simp: producer_ok_def)
  next
    case (M_Status v b)
    with step ok show ?thesis
      by (auto split: if_split_asm intro!: put) (auto simp: producer_ok_def)
  next
    case (M_Head v b)
    with step ok show ?thesis
      by (auto split: if_split_asm intro!: put simp: producer_ok_def)
  next
    case (M_Cas v b pos)
    with step ok show ?thesis
      by (auto split: if_split_asm intro!: put simp: producer_ok_def)
  }
qed (use free in simp_all)

section \<open>Preservation: reserving, building and publishing\<close>

lemma put_simps [simp]:
  "mq (put t p s) = mq s" "log (put t p s) = log s" "taken (put t p s) = taken s"
  "seqs (put t p s) = seqs s" "accs (put t p s) = accs s" "mstats (put t p s) = mstats s"
  "prods (put t p s) = (prods s)(t := p)" "kons (put t p s) = kons s" "mfault (put t p s) = mfault s"
  by (simp_all add: put_def)

text \<open>The window lies within the positions in use: a position in use has its own cell.\<close>

lemma owned_cells_differ:
  assumes "mpsc_good sz s" and "h < length (log s)" and "owner (log s ! h) = Some t"
    and "h' < length (log s)" and "owner (log s ! h') = Some t'" and "t' \<noteq> t"
  shows "h \<noteq> h'" "h mod unat sz \<noteq> h' mod unat sz"
proof -
  show ne: "h \<noteq> h'" using assms(3,5,6) by auto
  show "h mod unat sz \<noteq> h' mod unat sz"
    using window_mod_inj [of h "unat sz" h' "length (taken s)"] ne
      mpsc_good_owned [OF assms(1,2)] mpsc_good_owned [OF assms(1,4)] assms(3,5) by auto
qed

lemma front_cell_differs:
  assumes "mpsc_good sz s" and "h < length (log s)" and "owner (log s ! h) \<noteq> None"
    and "front_ready (log s) (length (taken s)) v"
  shows "h \<noteq> length (taken s)" "h mod unat sz \<noteq> length (taken s) mod unat sz"
proof -
  show ne: "h \<noteq> length (taken s)" using assms(3,4) by auto
  have "length (taken s) < length (taken s) + unat sz" using mpsc_goodD(2) [OF assms(1)] by simp
  then show "h mod unat sz \<noteq> length (taken s) mod unat sz"
    using window_mod_inj [of h "unat sz" "length (taken s)" "length (taken s)"] ne
      mpsc_good_owned [OF assms(1-3)] by auto
qed

text \<open>A compare and swap that succeeds finds a free cell.\<close>

lemma cas_room:
  assumes good: "mpsc_good sz s" and "seen_ok (unat sz) (seqs s) (accs s) sq kn"
    and "2 * (length (log s) div unat sz) \<le> sq (length (log s) mod unat sz)"
  shows "length (log s) < length (taken s) + unat sz"
proof (rule ccontr)
  let ?n = "unat sz" and ?f = "length (taken s)" and ?h = "length (log s)"
  assume "\<not> ?thesis"
  with mpsc_goodD(9) [OF good] have h: "?h = ?f + ?n" by simp
  have n: "2 \<le> ?n" using good by (rule mpsc_goodD)
  then have "0 < ?n" by linarith
  then have div: "?h div ?n = Suc (?f div ?n)" and md: "?h mod ?n = ?f mod ?n"
    unfolding h by (simp_all only: div_add_self2 mod_add_self2)
  have "?f mod ?n < ?n" using n by (intro mod_less_divisor) linarith
  with assms(2) have "sq (?f mod ?n) < length (seqs s ! (?f mod ?n))" by (simp add: seen_ok_def)
  moreover have "length (seqs s ! (?f mod ?n)) \<le> 2 * (?f div ?n) + 2"
    using mpsc_good_window [OF good, of ?f] n
    by (cases "entry_at (log s) ?f") (auto elim: mcell_ok.elims)
  ultimately show False using assms(3) div md by simp
qed

lemma cas_access_good:
  assumes good: "mpsc_good sz s" and within: "mpsc_within sz s"
    and pc: "pc (prods s t) = M_Cas v b pos"
    and step: "cas_access t (M_Cas v b pos) s = Some s'"
  shows "mpsc_good sz s'"
proof -
  let ?n = "unat sz" and ?f = "length (taken s)" and ?h = "length (log s)"
  let ?e = "Reserved t v"
  let ?p = "(prods s t)\<lparr>pc := M_Build v b pos, v_head := ?h + 1\<rparr>"
  note g = mpsc_goodD [OF good]
  from mproducer_okD [OF good, of t] pc obtain h where
    h: "pos = of_nat h" "h \<le> ?h" "2 * (h div ?n) \<le> v_seq (prods s t) (h mod ?n)"
    and p: "v_stat (prods s t) < length (mstats s)"
      "seen_ok ?n (seqs s) (accs s) (v_seq (prods s t)) (know (prods s t))"
    by (auto simp: producer_ok_def)
  from step have headpos: "mp_head (mq s) = pos"
    and s': "s' = put t ?p (s\<lparr>mq := (mq s)\<lparr>mp_head := pos + 1\<rparr>, log := log s @ [?e]\<rparr>)"
    by (auto split: if_split_asm)
  have hH: "h = ?h"
  proof (rule of_nat_pos_inj)
    show "(of_nat h :: size_t) = of_nat ?h" using headpos h(1) g(4) by simp
    show "h < 2 ^ 63" "?h < 2 ^ 63" using h(2) within unfolding mpsc_within_def by linarith+
  qed
  have room: "?h < ?f + ?n" using cas_room [OF good p(2)] h(3) hH by simp
  have win: "window_ok ?n ?f (log s @ [?e]) (mphase (kpc (kons s))) (mp_cells (mq s)) (seqs s) (accs s)"
  proof -
    have "mcell_ok ?n q (entry_at (log s @ [?e]) q) (if q = ?f then mphase (kpc (kons s)) else Whole) c l a"
      if "mcell_ok ?n q (entry_at (log s) q) (if q = ?f then mphase (kpc (kons s)) else Whole) c l a"
      for q c l a
      using that by (cases "q = ?h") (auto simp: entry_at_def nth_append)
    with g(12) show ?thesis by (simp add: window_ok_def)
  qed
  have others: "producer_ok ?n (seqs s) (accs s) (length (mstats s)) (log s @ [?e]) u (prods s u)" for u
    using mproducer_okD [OF good, of u] by (rule producer_ok_frame) (simp_all add: nth_append)
  have own: "producer_ok ?n (seqs s) (accs s) (length (mstats s)) (log s @ [?e]) t ?p"
    using p h hH by (auto simp: producer_ok_def)
  have entries: "entry_ok ((prods s)(t := ?p)) q ((log s @ [?e]) ! q)" if q: "q < Suc ?h" for q
  proof (cases "q = ?h")
    case True
    then show ?thesis using h(1) hH by simp
  next
    case False
    with q have e: "entry_ok (prods s) q (log s ! q)" using g(14) by simp
    have "owner (log s ! q) \<noteq> Some t" using e by (rule not_holding_owner) (simp add: pc)
    with entry_ok_other [OF e, of t "(prods s)(t := ?p)"] False q show ?thesis
      by (simp add: nth_append)
  qed
  have cons: "consumer_ok ?n ?f (seqs s) (accs s) (length (mstats s)) (log s @ [?e]) (kons s)"
    using g(15) by (rule consumer_ok_frame) (auto simp: nth_append)
  have "\<forall>q<?f. (log s @ [?e]) ! q = Ready (taken s ! q)"
    using g(8,10) by (simp add: nth_append)
  with g win others own entries cons room show ?thesis
    by (simp add: s' mpsc_good_def h(1) hH add.commute)
qed

text \<open>The position that a producer has reserved or built in.\<close>

lemma owned_position:
  assumes good: "mpsc_good sz s" and within: "mpsc_within sz s" and h: "h < length (log s)"
    and own: "owner (log s ! h) = Some t"
  shows "cell_index sz (of_nat h) = h mod unat sz" "unat (of_nat h :: size_t) = h" "h mod unat sz < unat sz"
    "length (taken s) \<le> h" "h < length (taken s) + unat sz"
proof -
  note g = mpsc_goodD [OF good]
  have h63: "h < 2 ^ 63" using h within unfolding mpsc_within_def by linarith
  show "cell_index sz (of_nat h) = h mod unat sz" using g(1) h63 by (rule cell_index_of_nat)
  show "unat (of_nat h :: size_t) = h" using h63 by (rule unat_of_nat_pos)
  show "h mod unat sz < unat sz" using g(2) by (intro mod_less_divisor) linarith
  show "length (taken s) \<le> h" "h < length (taken s) + unat sz"
    using mpsc_good_owned [OF good h] own by simp_all
qed

text \<open>The entries of other positions stay right when the producer goes on.\<close>

lemma other_entries:
  assumes good: "mpsc_good sz s" and within: "mpsc_within sz s" and h: "h < length (log s)"
    and pc: "pc (prods s t) = M_Build v b (of_nat h) \<or> pc (prods s t) = M_Publish v b (of_nat h)"
    and q: "q < length (log s)" "q \<noteq> h"
  shows "entry_ok ((prods s)(t := p)) q (log s ! q)"
proof -
  from q have e: "entry_ok (prods s) q (log s ! q)" using mpsc_goodD(14) [OF good] by simp
  have "owner (log s ! q) \<noteq> Some t"
  proof
    assume "owner (log s ! q) = Some t"
    with e pc have "(of_nat q :: size_t) = of_nat h" by (cases "log s ! q") auto
    then have "q = h"
      using q h within unfolding mpsc_within_def by (intro of_nat_pos_inj) linarith+
    with q(2) show False ..
  qed
  with entry_ok_other [OF e, of t "(prods s)(t := p)"] show ?thesis by simp
qed

text \<open>The step of a producer on the cell and the entry of its own position.\<close>

lemma owner_step_good:
  assumes good: "mpsc_good sz s" and within: "mpsc_within sz s" and h: "h < length (log s)"
    and own: "owner (log s ! h) = Some t"
    and pc: "pc (prods s t) = M_Build v b (of_nat h) \<or> pc (prods s t) = M_Publish v b (of_nat h)"
    and grow: "grows (unat sz) (seqs s) (accs s) hs as"
    and at: "hs = (seqs s)[h mod unat sz := H]" "as = (accs s)[h mod unat sz := A]"
    and cell: "mcell_ok (unat sz) h (Some e) Whole x (length H) A" and hist: "histories_ok (unat sz) hs"
    and mine: "producer_ok (unat sz) hs as (length (mstats s)) ((log s)[h := e]) t p"
    and entry: "entry_ok ((prods s)(t := p)) h e"
  shows "mpsc_good sz (put t p (s\<lparr>mq := (mq s)\<lparr>mp_cells := (mp_cells (mq s))[h mod unat sz := x]\<rparr>,
    seqs := hs, accs := as, log := (log s)[h := e]\<rparr>))"
proof -
  let ?n = "unat sz" and ?f = "length (taken s)" and ?i = "h mod unat sz" and ?es = "(log s)[h := e]"
  note g = mpsc_goodD [OF good] and pos = owned_position [OF good within h own]
  have owned: "owner (log s ! h) \<noteq> None" by (simp add: own)
  have still: "mphase (kpc (kons s)) = Whole" if "h = ?f"
    by (rule mphase_front(1) [OF g(15)]) (use own that in auto)
  have win: "window_ok ?n ?f ?es (mphase (kpc (kons s))) ((mp_cells (mq s))[?i := x]) hs as"
    unfolding at using g(12) mpsc_good_lengths(2) [OF good] pos(4,5)
  proof (rule window_ok_update)
    show "mcell_ok ?n h (entry_at ?es h) (if h = ?f then mphase (kpc (kons s)) else Whole) x (length H) A"
      using still cell h by (auto simp: entry_at_def)
  qed (auto simp: entry_at_def)
  have others: "producer_ok ?n hs as (length (mstats s)) ?es u (prods s u)" if "u \<noteq> t" for u
    using mproducer_okD [OF good, of u] grow
  proof (rule producer_ok_frame)
    fix h' assume h': "h' < length (log s)" "owner (log s ! h') = Some u"
    from owned_cells_differ [OF good h own h' that]
    show "?es ! h' = log s ! h' \<and> as ! (h' mod ?n) = accs s ! (h' mod ?n)" by (simp add: at)
  qed simp_all
  have entries: "entry_ok ((prods s)(t := p)) q (?es ! q)" if "q < length (log s)" for q
    using that h entry other_entries [OF good within h pc, of q p] by (cases "q = h") simp_all
  have cons: "consumer_ok ?n ?f hs as (length (mstats s)) ?es (kons s)"
    using g(15) grow
  proof (rule consumer_ok_frame)
    fix w assume w: "front_ready (log s) ?f w"
    from front_cell_differs [OF good h owned w] w
    show "front_ready ?es ?f w \<and> as ! (?f mod ?n) = accs s ! (?f mod ?n)" by (simp add: at)
  qed simp
  have "\<forall>q<?f. ?es ! q = Ready (taken s ! q)" using g(10) pos(4) by simp
  with g win hist others mine entries cons show ?thesis by (simp add: mpsc_good_def)
qed

text \<open>A producer that has reserved its position knows of all accesses to the cell.\<close>

lemma reserved_known:
  assumes good: "mpsc_good sz s" and "mcell_ok (unat sz) h (Some (Reserved t v)) ph x (length (seqs s ! i)) (accs s ! i)"
    and seen: "seen_ok (unat sz) (seqs s) (accs s) sq kn" and i: "i < unat sz" and "2 * (h div unat sz) \<le> sq i"
  shows "kn i = accs s ! i"
proof -
  from seen i have "sq i < length (seqs s ! i)" "seq_msg (sq i) \<le> kn i" "kn i \<le> accs s ! i"
    by (simp_all add: seen_ok_def)
  moreover from this(1) assms(2,5) have "sq i = 2 * (h div unat sz)" by simp
  ultimately show ?thesis using assms(2) by (simp add: seq_msg_def)
qed

lemma build_access_good:
  assumes good: "mpsc_good sz s" and within: "mpsc_within sz s"
    and pc: "pc (prods s t) = M_Build v b pos"
    and step: "push_access sz t c (M_Build v b pos) s = Some s'"
  shows "mpsc_good sz s'"
proof -
  let ?n = "unat sz"
  from mproducer_okD [OF good, of t] pc obtain h where
    h: "pos = of_nat h" "h < length (log s)" "log s ! h = Reserved t v"
      "2 * (h div ?n) \<le> v_seq (prods s t) (h mod ?n)"
    and p: "v_head (prods s t) \<le> length (log s)" "v_stat (prods s t) < length (mstats s)"
      "seen_ok ?n (seqs s) (accs s) (v_seq (prods s t)) (know (prods s t))"
    by (auto simp: producer_ok_def)
  let ?i = "h mod ?n"
  let ?a = "accs s ! ?i + 1"
  have own: "owner (log s ! h) = Some t" by (simp add: h(3))
  note pos = owned_position [OF good within h(2) own] and len = mpsc_good_lengths [OF good]
  note idx = pos(1) [folded h(1)] and up = pos(2) [folded h(1)] and i = pos(3)
  from mpsc_good_window [OF good pos(4,5)] h(2,3)
  have w: "mcell_ok ?n h (Some (Reserved t v)) (if h = length (taken s) then mphase (kpc (kons s)) else Whole)
      (mp_cells (mq s) ! ?i) (length (seqs s ! ?i)) (accs s ! ?i)" by (simp add: entry_at_def)
  have kn: "know (prods s t) ?i = accs s ! ?i" by (rule reserved_known [OF good w p(3) i h(4)])
  let ?cell = "(mp_cells (mq s) ! ?i)\<lparr>cell_storage := Some v\<rparr>"
  let ?p = "(prods s t)\<lparr>pc := M_Publish v b pos, know := (know (prods s t))(?i := ?a)\<rparr>"
  let ?as = "(accs s)[?i := ?a]"
  have s': "s' = put t ?p (s\<lparr>mq := (mq s)\<lparr>mp_cells := (mp_cells (mq s))[?i := ?cell]\<rparr>,
      seqs := seqs s, accs := ?as, log := (log s)[h := Built t v]\<rparr>)"
    using step kn w by (simp add: idx up build_cell_def)
  have "seen_ok ?n (seqs s) ?as (v_seq (prods s t)) ((know (prods s t))(?i := ?a))"
    using p(3) kn i len(3) by (auto simp: seen_ok_def nth_list_update)
  with p h i len(3) have mine: "producer_ok ?n (seqs s) ?as (length (mstats s)) ((log s)[h := Built t v]) t ?p"
    by (auto simp: producer_ok_def)
  show ?thesis unfolding s'
  proof (rule owner_step_good [OF good within h(2) own])
    show "pc (prods s t) = M_Build v b (of_nat h) \<or> pc (prods s t) = M_Publish v b (of_nat h)"
      using pc h(1) by simp
    show "grows ?n (seqs s) (accs s) (seqs s) ?as" using len(3) by (rule grows_accs)
    show "mcell_ok ?n h (Some (Built t v)) Whole ?cell (length (seqs s ! ?i)) ?a" using w by simp
    show "histories_ok ?n (seqs s)" using good by (rule mpsc_goodD)
  qed (use mine h(1) in simp_all)
qed

lemma publish_access_good:
  assumes good: "mpsc_good sz s" and within: "mpsc_within sz s"
    and pc: "pc (prods s t) = M_Publish v b pos"
    and step: "push_access sz t c (M_Publish v b pos) s = Some s'"
  shows "mpsc_good sz s'"
proof -
  let ?n = "unat sz"
  from mproducer_okD [OF good, of t] pc obtain h where
    h: "pos = of_nat h" "h < length (log s)" "log s ! h = Built t v"
      "know (prods s t) (h mod ?n) = accs s ! (h mod ?n)"
    and p: "v_head (prods s t) \<le> length (log s)" "v_stat (prods s t) < length (mstats s)"
      "seen_ok ?n (seqs s) (accs s) (v_seq (prods s t)) (know (prods s t))"
    by (auto simp: producer_ok_def)
  let ?i = "h mod ?n"
  let ?l = "length (seqs s ! ?i)"
  have own: "owner (log s ! h) = Some t" by (simp add: h(3))
  note pos = owned_position [OF good within h(2) own] and len = mpsc_good_lengths [OF good]
  note idx = pos(1) [folded h(1)] and up = pos(2) [folded h(1)] and i = pos(3)
  from mpsc_good_window [OF good pos(4,5)] h(2,3)
  have cell: "cell_storage (mp_cells (mq s) ! ?i) = Some v" "?l = 2 * (h div ?n) + 1"
    "accs s ! ?i = 3 * (h div ?n) + 1" by (simp_all add: entry_at_def)
  let ?cell = "(mp_cells (mq s) ! ?i)\<lparr>cell_seq := pos + 1\<rparr>" and ?H = "seqs s ! ?i @ [(pos + 1, accs s ! ?i)]"
  let ?p = "(prods s t)\<lparr>pc := M_Idle, ret := Some True, v_seq := (v_seq (prods s t))(?i := ?l)\<rparr>"
  let ?hs = "(seqs s)[?i := ?H]"
  have s': "s' = put t ?p (s\<lparr>mq := (mq s)\<lparr>mp_cells := (mp_cells (mq s))[?i := ?cell]\<rparr>,
      seqs := ?hs, accs := accs s, log := (log s)[h := Ready v]\<rparr>)"
    using step h(4) by (simp add: idx up)
  have grow: "grows ?n (seqs s) (accs s) ?hs (accs s)" using len(2) by (rule grows_seqs)
  have msg: "accs s ! ?i = seq_msg ?l" by (simp add: seq_msg_def cell)
  have "seq_val ?n ?i ?l = Suc h" using div_mult_mod_eq [of h ?n] by (simp add: seq_val_def cell(2))
  then have hist: "histories_ok ?n ?hs"
    by (intro histories_ok_append [OF mpsc_goodD(11) [OF good] i] msg) (simp add: h(1) add.commute)
  have "seen_ok ?n ?hs (accs s) ((v_seq (prods s t))(?i := ?l)) (know (prods s t))"
    using seen_ok_mono [OF p(3) grow] i len(2) h(4) msg by (auto simp: seen_ok_def)
  with p have mine: "producer_ok ?n ?hs (accs s) (length (mstats s)) ((log s)[h := Ready v]) t ?p"
    by (simp add: producer_ok_def)
  show ?thesis unfolding s'
  proof (rule owner_step_good [OF good within h(2) own _ grow refl _ _ hist mine])
    show "pc (prods s t) = M_Build v b (of_nat h) \<or> pc (prods s t) = M_Publish v b (of_nat h)"
      using pc h(1) by simp
    show "mcell_ok ?n h (Some (Ready v)) Whole ?cell (length ?H) (accs s ! ?i)"
      using cell h(1) by (simp add: add.commute)
  qed simp_all
qed

section \<open>Preservation: the consumer\<close>

lemma mconsumer_okD:
  assumes "mpsc_good sz s"
  shows "k_stat (kons s) < length (mstats s)"
    "seen_ok (unat sz) (seqs s) (accs s) (k_seq (kons s)) (k_know (kons s))"
    "mcons_pc_ok (unat sz) (length (taken s)) (log s) (accs s) (kons s) (kpc (kons s))"
  using mpsc_goodD(15) [OF assms] by (simp_all add: consumer_ok_def)

text \<open>The front, where the consumer works.\<close>

lemma mpsc_front:
  assumes good: "mpsc_good sz s" and within: "mpsc_within sz s"
  shows "length (taken s) mod unat sz < unat sz" "length (taken s) < 2 ^ 63"
    "cell_index sz (of_nat (length (taken s))) = length (taken s) mod unat sz"
proof -
  note g = mpsc_goodD [OF good]
  show "length (taken s) mod unat sz < unat sz" using g(2) by (intro mod_less_divisor) linarith
  show f: "length (taken s) < 2 ^ 63" using g(8) within unfolding mpsc_within_def by linarith
  show "cell_index sz (of_nat (length (taken s))) = length (taken s) mod unat sz"
    using g(1) f by (rule cell_index_of_nat)
qed

lemma pop_seq_good:
  assumes good: "mpsc_good sz s" and within: "mpsc_within sz s"
    and kpc: "kpc (kons s) = K_Seq b pos"
    and step: "pop_access sz ty c (K_Seq b pos) s = Some s'"
  shows "mpsc_good sz s'"
proof -
  let ?n = "unat sz" and ?f = "length (taken s)"
  let ?i = "?f mod ?n"
  note g = mpsc_goodD [OF good] and k = mconsumer_okD [OF good] and front = mpsc_front [OF good within]
  have pos: "pos = of_nat ?f" using k(3) kpc by simp
  then have pos1: "pos + 1 = of_nat (Suc ?f)" by (simp add: add.commute)
  have idx: "cell_index sz pos = ?i" unfolding pos by (rule front(3))
  have step': "k_seq (kons s) ?i \<le> c \<and> c < length (seqs s ! ?i)"
    using step front(1) mpsc_good_lengths(1) [OF good] by (auto simp: idx split: if_split_asm)
  then have c: "c < length (seqs s ! ?i)" by simp
  let ?d = "int (seq_val ?n ?i c) - int (Suc ?f)"
  have diff: "seq_diff (fst (seqs s ! ?i ! c)) (pos + 1) = Inr ?d"
    unfolding pos1 using g(8) by (intro seq_load_diff [OF good within front(1) c]) simp
  let ?k = "(kons s)\<lparr>k_seq := (k_seq (kons s))(?i := c),
    k_know := (k_know (kons s))(?i := max (k_know (kons s) ?i) (snd (seqs s ! ?i ! c)))\<rparr>"
  have s': "s' = s\<lparr>kons := pop_decide b pos ?d ?k\<rparr>"
    using step front(1) step' mpsc_good_lengths(1) [OF good] diff by (simp add: idx)
  note seen = seen_ok_see [OF k(2) g(11) front(1) c mpsc_good_msg [OF good front(1) c]]
  have "mconsumer_ok sz s (pop_decide b pos ?d ?k)"
  proof (cases "?d = 0")
    case True
    then have "seq_val ?n ?i c = Suc ?f" by linarith
    then have c1: "c = 2 * (?f div ?n) + 1" using g(2) by (rule seq_val_Suc)
    have "mcell_ok ?n ?f (entry_at (log s) ?f) (mphase (kpc (kons s))) (mp_cells (mq s) ! ?i)
        (length (seqs s ! ?i)) (accs s ! ?i)"
      using mpsc_good_window [OF good, of ?f] g(2) by simp
    with c c1 obtain v where "entry_at (log s) ?f = Some (Ready v)"
      by (auto elim!: mcell_ok.elims)
    then have "front_ready (log s) ?f v" by (auto simp: entry_at_def split: if_split_asm)
    with k(1) seen True c1 pos show ?thesis unfolding pop_decide_def consumer_ok_def by auto
  next
    case False
    with k(1) seen show ?thesis by (simp add: pop_decide_def consumer_ok_def)
  qed
  moreover have "mphase (kpc (pop_decide b pos ?d ?k)) = Whole"
    "advanced (kpc (pop_decide b pos ?d ?k)) = 0" by (simp_all add: pop_decide_def)
  ultimately show ?thesis unfolding s' using kpc by (intro mpsc_good_kons [OF good]) simp_all
qed

lemma advance_good:
  assumes good: "mpsc_good sz s" and kpc: "kpc (kons s) = K_Advance b pos"
    and step: "pop_access sz ty c (K_Advance b pos) s = Some s'"
  shows "mpsc_good sz s'"
proof -
  note g = mpsc_goodD [OF good] and k = mconsumer_okD [OF good]
  have "consumer_ok (unat sz) (length (taken s)) (seqs s) (accs s) (length (mstats s)) (log s)
      ((kons s)\<lparr>kpc := K_Read b pos\<rparr>)"
    using k kpc by (simp add: consumer_ok_def)
  with g k(3) kpc step show ?thesis by (auto simp: mpsc_good_def add.commute)
qed

text \<open>
  The accesses to the storage of the front cell: the consumer knows of all earlier ones.
\<close>

lemma front_access_good:
  assumes good: "mpsc_good sz s" and within: "mpsc_within sz s"
    and ready: "front_ready (log s) (length (taken s)) v"
    and adv: "advanced (kpc (kons s)) = 1"
    and know: "k_know (kons s) (length (taken s) mod unat sz) = accs s ! (length (taken s) mod unat sz)"
    and cell: "mcell_ok (unat sz) (length (taken s)) (Some (Ready v)) (mphase l)
       x (length (seqs s ! (length (taken s) mod unat sz))) (accs s ! (length (taken s) mod unat sz) + 1)"
    and l: "mcons_pc_ok (unat sz) (length (taken s)) (log s)
       ((accs s)[length (taken s) mod unat sz := accs s ! (length (taken s) mod unat sz) + 1]) k l"
      "advanced l = 1"
    and k: "k = (kons s)\<lparr>kpc := l, k_know := (k_know (kons s))(length (taken s) mod unat sz :=
       accs s ! (length (taken s) mod unat sz) + 1)\<rparr>"
  shows "mpsc_good sz (s\<lparr>mq := (mq s)\<lparr>mp_cells := (mp_cells (mq s))[length (taken s) mod unat sz := x]\<rparr>,
    accs := (accs s)[length (taken s) mod unat sz := accs s ! (length (taken s) mod unat sz) + 1],
    kons := k\<rparr>)"
proof -
  let ?n = "unat sz" and ?f = "length (taken s)"
  let ?i = "?f mod ?n"
  let ?as = "(accs s)[?i := accs s ! ?i + 1]"
  note g = mpsc_goodD [OF good] and front = mpsc_front [OF good within]
    and len = mpsc_good_lengths [OF good] and ko = mconsumer_okD [OF good]
  have grow: "grows ?n (seqs s) (accs s) (seqs s) ?as" using len(3) by (rule grows_accs)
  have "?f < ?f + ?n" using g(2) by simp
  with g(12) len(2) le_refl have "window_ok ?n ?f (log s) (mphase l)
      ((mp_cells (mq s))[?i := x]) ((seqs s)[?i := seqs s ! ?i]) ?as"
    by (rule window_ok_update) (use ready cell in \<open>simp_all add: entry_at_def\<close>)
  then have win: "window_ok ?n ?f (log s) (mphase l) ((mp_cells (mq s))[?i := x]) (seqs s) ?as" by simp
  have others: "producer_ok ?n (seqs s) ?as (length (mstats s)) (log s) u (prods s u)" for u
    using mproducer_okD [OF good, of u] grow
  proof (rule producer_ok_frame)
    fix h assume h: "h < length (log s)" "owner (log s ! h) = Some u"
    then have "owner (log s ! h) \<noteq> None" by simp
    from front_cell_differs(2) [OF good h(1) this ready]
    show "log s ! h = log s ! h \<and> ?as ! (h mod ?n) = accs s ! (h mod ?n)" by simp
  qed simp_all
  have "seen_ok ?n (seqs s) ?as (k_seq (kons s)) ((k_know (kons s))(?i := accs s ! ?i + 1))"
    using ko(2) know front(1) len(3) by (auto simp: seen_ok_def nth_list_update)
  with ko(1) l(1) k have "consumer_ok ?n ?f (seqs s) ?as (length (mstats s)) (log s) k"
    by (simp add: consumer_ok_def)
  with g win others adv l(2) k show ?thesis by (simp add: mpsc_good_def)
qed

lemma front_cell:
  assumes good: "mpsc_good sz s" and ready: "front_ready (log s) (length (taken s)) v"
  shows "mcell_ok (unat sz) (length (taken s)) (Some (Ready v)) (mphase (kpc (kons s)))
    (mp_cells (mq s) ! (length (taken s) mod unat sz))
    (length (seqs s ! (length (taken s) mod unat sz))) (accs s ! (length (taken s) mod unat sz))"
  using mpsc_good_window [OF good, of "length (taken s)"] mpsc_goodD(2) [OF good] ready
  by (simp add: entry_at_def)

lemma read_good:
  assumes good: "mpsc_good sz s" and within: "mpsc_within sz s"
    and kpc: "kpc (kons s) = K_Read b pos"
    and step: "pop_access sz ty c (K_Read b pos) s = Some s'"
  shows "mpsc_good sz s'"
proof -
  let ?n = "unat sz" and ?f = "length (taken s)"
  let ?i = "?f mod ?n"
  note g = mpsc_goodD [OF good] and k = mconsumer_okD [OF good] and front = mpsc_front [OF good within]
  from k(3) kpc obtain v where pos: "pos = of_nat ?f" and ready: "front_ready (log s) ?f v"
    and seen: "2 * (?f div ?n) + 1 \<le> k_seq (kons s) ?i" by auto
  have idx: "cell_index sz pos = ?i" unfolding pos by (rule front(3))
  from front_cell [OF good ready] kpc
  have cell: "cell_storage (mp_cells (mq s) ! ?i) = Some v"
    "cell_seq (mp_cells (mq s) ! ?i) = of_nat (Suc ?f)"
    "length (seqs s ! ?i) = 2 * (?f div ?n) + 2" "accs s ! ?i = 3 * (?f div ?n) + 1"
    by simp_all
  have kn: "k_know (kons s) ?i = accs s ! ?i"
  proof -
    from k(2) front(1) have "k_seq (kons s) ?i < length (seqs s ! ?i)"
      "seq_msg (k_seq (kons s) ?i) \<le> k_know (kons s) ?i" "k_know (kons s) ?i \<le> accs s ! ?i"
      by (simp_all add: seen_ok_def)
    moreover from this(1) seen cell(3) have "k_seq (kons s) ?i = 2 * (?f div ?n) + 1" by linarith
    ultimately show ?thesis using cell(4) by (simp add: seq_msg_def)
  qed
  let ?x = "if move_constructible ty
    then (mp_cells (mq s) ! ?i)\<lparr>cell_storage := Some (moved_from ty v)\<rparr> else mp_cells (mq s) ! ?i"
  let ?k = "(kons s)\<lparr>kpc := K_Destroy b pos v, k_know := (k_know (kons s))(?i := accs s ! ?i + 1)\<rparr>"
  have s': "s' = s\<lparr>mq := (mq s)\<lparr>mp_cells := (mp_cells (mq s))[?i := ?x]\<rparr>,
      accs := (accs s)[?i := accs s ! ?i + 1], kons := ?k\<rparr>"
    using step kn cell(1) by (simp add: idx read_cell_def)
  have "?i < length (accs s)" using front(1) mpsc_good_lengths(3) [OF good] by simp
  then have "mcons_pc_ok ?n ?f (log s) ((accs s)[?i := accs s ! ?i + 1]) ?k (K_Destroy b pos v)"
    using pos ready by simp
  moreover have "mcell_ok ?n ?f (Some (Ready v)) (mphase (K_Destroy b pos v)) ?x
      (length (seqs s ! ?i)) (accs s ! ?i + 1)"
    using cell by simp
  ultimately show ?thesis
    unfolding s' using kpc kn by (intro front_access_good [OF good within ready]) simp_all
qed

lemma destroy_good:
  assumes good: "mpsc_good sz s" and within: "mpsc_within sz s"
    and kpc: "kpc (kons s) = K_Destroy b pos v"
    and step: "pop_access sz ty c (K_Destroy b pos v) s = Some s'"
  shows "mpsc_good sz s'"
proof -
  let ?n = "unat sz" and ?f = "length (taken s)"
  let ?i = "?f mod ?n"
  note g = mpsc_goodD [OF good] and k = mconsumer_okD [OF good] and front = mpsc_front [OF good within]
  from k(3) kpc have pos: "pos = of_nat ?f" and ready: "front_ready (log s) ?f v"
    and kn: "k_know (kons s) ?i = accs s ! ?i" by simp_all
  have idx: "cell_index sz pos = ?i" unfolding pos by (rule front(3))
  from front_cell [OF good ready] kpc obtain w
    where cell: "cell_storage (mp_cells (mq s) ! ?i) = Some w"
    "cell_seq (mp_cells (mq s) ! ?i) = of_nat (Suc ?f)"
    "length (seqs s ! ?i) = 2 * (?f div ?n) + 2" "accs s ! ?i = 3 * (?f div ?n) + 2"
    by auto
  let ?x = "(mp_cells (mq s) ! ?i)\<lparr>cell_storage := None\<rparr>"
  let ?k = "(kons s)\<lparr>kpc := K_Release b pos v, k_know := (k_know (kons s))(?i := accs s ! ?i + 1)\<rparr>"
  have s': "s' = s\<lparr>mq := (mq s)\<lparr>mp_cells := (mp_cells (mq s))[?i := ?x]\<rparr>,
      accs := (accs s)[?i := accs s ! ?i + 1], kons := ?k\<rparr>"
    using step kn cell(1) by (simp add: idx clear_cell_def)
  have "?i < length (accs s)" using front(1) mpsc_good_lengths(3) [OF good] by simp
  then have "mcons_pc_ok ?n ?f (log s) ((accs s)[?i := accs s ! ?i + 1]) ?k (K_Release b pos v)"
    using pos ready by simp
  moreover have "mcell_ok ?n ?f (Some (Ready v)) (mphase (K_Release b pos v)) ?x
      (length (seqs s ! ?i)) (accs s ! ?i + 1)"
    using cell by simp
  ultimately show ?thesis
    unfolding s' using kpc kn by (intro front_access_good [OF good within ready]) simp_all
qed

text \<open>The release moves the window on by one position: the cell is free for the next round.\<close>

lemma window_ok_shift:
  assumes "window_ok n f es ph cells hs as" and "length hs = n" and "0 < n"
    and "mcell_ok n (f + n) (entry_at es (f + n)) Whole c (length h) (as ! (f mod n))"
  shows "window_ok n (Suc f) es Whole (cells[f mod n := c]) (hs[f mod n := h]) as"
  unfolding window_ok_def
proof (intro conjI allI impI; (elim conjE)?)
  from assms(1) have len: "length cells = n" "length as = n" by (simp_all add: window_ok_def)
  then show "length (cells[f mod n := c]) = n" "length as = n" by simp_all
  fix q assume q: "Suc f \<le> q" "q < Suc f + n"
  have fn: "f mod n < n" using assms(3) by simp
  show "mcell_ok n q (entry_at es q) (if q = Suc f then Whole else Whole) (cells[f mod n := c] ! (q mod n))
      (length (hs[f mod n := h] ! (q mod n))) (as ! (q mod n))"
  proof (cases "q = f + n")
    case True
    with fn len assms(2,4) show ?thesis by simp
  next
    case False
    with q have lt: "q < f + n" by simp
    with q have ne: "f mod n \<noteq> q mod n" using window_mod_inj [of f n q f] assms(3) by auto
    have "mcell_ok n q (entry_at es q) Whole (cells ! (q mod n)) (length (hs ! (q mod n))) (as ! (q mod n))"
      using assms(1) [unfolded window_ok_def, THEN conjunct2, THEN conjunct2, rule_format, of q] q lt
      by simp
    with ne q show ?thesis by (simp add: nth_list_update_neq)
  qed
qed

lemma release_good:
  assumes good: "mpsc_good sz s" and within: "mpsc_within sz s"
    and kpc: "kpc (kons s) = K_Release b pos v"
    and step: "pop_access sz ty c (K_Release b pos v) s = Some s'"
  shows "mpsc_good sz s'"
proof -
  let ?n = "unat sz" and ?f = "length (taken s)"
  let ?i = "?f mod ?n"
  let ?l = "length (seqs s ! ?i)"
  note g = mpsc_goodD [OF good] and k = mconsumer_okD [OF good] and front = mpsc_front [OF good within]
    and len = mpsc_good_lengths [OF good]
  from k(3) kpc have pos: "pos = of_nat ?f" and ready: "front_ready (log s) ?f v"
    and kn: "k_know (kons s) ?i = accs s ! ?i" by simp_all
  have idx: "cell_index sz pos = ?i" unfolding pos by (rule front(3))
  have n: "0 < ?n" using g(2) by linarith
  from front_cell [OF good ready] kpc
  have cell: "cell_storage (mp_cells (mq s) ! ?i) = None" "?l = 2 * (?f div ?n) + 2"
    "accs s ! ?i = 3 * (?f div ?n) + 3"
    by simp_all
  let ?x = "(mp_cells (mq s) ! ?i)\<lparr>cell_seq := pos + sz\<rparr>"
  let ?hs = "(seqs s)[?i := seqs s ! ?i @ [(pos + sz, accs s ! ?i)]]"
  let ?k = "(kons s)\<lparr>kpc := K_Idle, kret := Some (Some v), k_seq := (k_seq (kons s))(?i := ?l)\<rparr>"
  have s': "s' = s\<lparr>mq := (mq s)\<lparr>mp_cells := (mp_cells (mq s))[?i := ?x]\<rparr>, seqs := ?hs,
      taken := taken s @ [v], kons := ?k\<rparr>"
    using step kn by (simp add: idx)
  have word: "pos + sz = of_nat (?f + ?n)" by (simp add: pos)
  have div: "(?f + ?n) div ?n = Suc (?f div ?n)" using n by (simp only: div_add_self2)
  have grow: "grows ?n (seqs s) (accs s) ?hs (accs s)" using len(2) by (rule grows_seqs)
  have none: "entry_at (log s) (?f + ?n) = None" using g(9) by (simp add: entry_at_def)
  have win: "window_ok ?n (Suc ?f) (log s) Whole ((mp_cells (mq s))[?i := ?x]) ?hs (accs s)"
    using g(12) len(2) n
  proof (rule window_ok_shift)
    show "mcell_ok ?n (?f + ?n) (entry_at (log s) (?f + ?n)) Whole ?x
        (length (seqs s ! ?i @ [(pos + sz, accs s ! ?i)])) (accs s ! ?i)"
      using cell div word by (simp add: none)
  qed
  have hist: "histories_ok ?n ?hs"
  proof (rule histories_ok_append [OF g(11) front(1)])
    have "seq_val ?n ?i ?l = ?f + ?n"
      using div_mult_mod_eq [of ?f ?n] by (simp add: seq_val_def cell(2))
    then show "pos + sz = of_nat (seq_val ?n ?i ?l)" using word by simp
    show "accs s ! ?i = seq_msg ?l" by (simp add: seq_msg_def cell)
  qed
  have others: "producer_ok ?n ?hs (accs s) (length (mstats s)) (log s) u (prods s u)" for u
    using mproducer_okD [OF good, of u] grow by (rule producer_ok_frame) simp_all
  have "seen_ok ?n ?hs (accs s) (k_seq (kons s)) (k_know (kons s))" using k(2) grow by (rule seen_ok_mono)
  moreover have "seq_msg ?l = accs s ! ?i" by (simp add: seq_msg_def cell)
  ultimately have "seen_ok ?n ?hs (accs s) ((k_seq (kons s))(?i := ?l)) (k_know (kons s))"
    using front(1) len(2) kn by (auto simp: seen_ok_def)
  with k(1) have cons: "consumer_ok ?n (Suc ?f) ?hs (accs s) (length (mstats s)) (log s) ?k"
    by (simp add: consumer_ok_def)
  have "\<forall>q<Suc ?f. log s ! q = Ready ((taken s @ [v]) ! q)"
    using g(10) ready by (auto simp: less_Suc_eq nth_append)
  moreover have "Suc ?f \<le> length (log s)" "length (log s) \<le> Suc ?f + ?n"
    using ready g(9) by simp_all
  ultimately show ?thesis using g win hist others cons kpc by (simp add: s' mpsc_good_def)
qed

lemma pop_access_good:
  assumes good: "mpsc_good sz s" and within: "mpsc_within sz s"
    and step: "pop_access sz ty c (kpc (kons s)) s = Some s'"
  shows "mpsc_good sz s'"
proof (cases "kpc (kons s)")
  case K_Idle
  with step show ?thesis by simp
next
  case (K_Tail b)
  with step mconsumer_okD [OF good] mpsc_goodD(5) [OF good] show ?thesis
    by (auto intro!: mpsc_good_kons [OF good] simp: consumer_ok_def)
next
  case (K_Seq b pos)
  with pop_seq_good [OF good within] step show ?thesis by simp
next
  case (K_Advance b pos)
  with advance_good [OF good] step show ?thesis by simp
next
  case (K_Read b pos)
  with read_good [OF good within] step show ?thesis by simp
next
  case (K_Destroy b pos v)
  with destroy_good [OF good within] step show ?thesis by simp
next
  case (K_Release b pos v)
  with release_good [OF good within] step show ?thesis by simp
next
  case K_Check1
  with step mconsumer_okD [OF good] show ?thesis
    by (auto intro!: mpsc_good_kons [OF good] simp: consumer_ok_def split: if_split_asm)
next
  case K_Check2
  with step mconsumer_okD [OF good] show ?thesis
    by (auto intro!: mpsc_good_kons [OF good] simp: consumer_ok_def split: if_split_asm)
qed

section \<open>The invariant holds throughout\<close>

lemma push_access_good:
  assumes good: "mpsc_good sz s" and within: "mpsc_within sz s"
    and step: "push_access sz t c (pc (prods s t)) s = Some s'"
  shows "mpsc_good sz s'"
proof (cases "holding (pc (prods s t))")
  case True
  then show ?thesis
  proof (cases "pc (prods s t)")
    case (M_Build v b pos)
    with build_access_good [OF good within] step show ?thesis by simp
  next
    case (M_Publish v b pos)
    with publish_access_good [OF good within] step show ?thesis by simp
  qed simp_all
next
  case False
  with push_local_good [OF good within step] show ?thesis by simp
qed

lemma mpsc_status_good:
  assumes "mpsc_good sz s" and "mq' = mpsc_stop (mq s) \<and> st = Stopped \<or> mq' = mpsc_run (mq s) \<and> st = Running"
  shows "mpsc_good sz (s\<lparr>mq := mq', mstats := mstats s @ [st]\<rparr>)"
proof -
  have "mp_head mq' = mp_head (mq s)" "mp_tail mq' = mp_tail (mq s)" "mp_cells mq' = mp_cells (mq s)"
    "mp_status mq' = st"
    using assms(2) by (auto simp: mpsc_stop_def mpsc_run_def)
  moreover have "producer_ok n hs as (Suc k) es t p" if "producer_ok n hs as k es t p"
    for n hs as k t and es :: "'a entry list" and p
    using that by (simp add: producer_ok_def)
  moreover have "consumer_ok n f hs as (Suc k) es c" if "consumer_ok n f hs as k es c"
    for n f hs as k and es :: "'a entry list" and c
    using that by (simp add: consumer_ok_def)
  ultimately show ?thesis using assms(1) by (simp add: mpsc_good_def)
qed

lemma mpsc_do_good:
  assumes good: "mpsc_good sz s" and within: "mpsc_within sz s" and step: "mpsc_do sz ty a s = Some s'"
  shows "mpsc_good sz s'"
proof (cases a)
  case (MPush t v b)
  have "mproducer_ok sz s t ((prods s t)\<lparr>pc := if b then M_Check1 v else M_Status v False, ret := None\<rparr>)"
    using mproducer_okD [OF good, of t] by (simp add: producer_ok_def)
  from mpsc_good_put [OF good this] step MPush show ?thesis by (auto split: if_split_asm)
next
  case (MPop b)
  with step mconsumer_okD [OF good] show ?thesis
    by (auto intro!: mpsc_good_kons [OF good] simp: consumer_ok_def split: if_split_asm)
next
  case (MProd t c)
  with push_access_good [OF good within] step show ?thesis by simp
next
  case (MCas t)
  show ?thesis
  proof (cases "pc (prods s t)")
    case (M_Cas v b pos)
    with cas_access_good [OF good within] step MCas show ?thesis by simp
  qed (use step MCas in simp_all)
next
  case (MCons c)
  with pop_access_good [OF good within] step show ?thesis by simp
next
  case MStop
  with mpsc_status_good [OF good] step show ?thesis by auto
next
  case MRun
  with mpsc_status_good [OF good] step show ?thesis by auto
qed

text \<open>The positions handed out never go back.\<close>

lemma push_access_log:
  "push_access sz t c l s = Some s' \<Longrightarrow> length (log s') = length (log s)"
  by (cases "(sz, t, c, l, s)" rule: push_access.cases) (auto split: if_split_asm sum.splits)

lemma pop_access_log:
  "pop_access sz ty c l s = Some s' \<Longrightarrow> log s' = log s"
  by (cases "(sz, ty, c, l, s)" rule: pop_access.cases) (auto split: if_split_asm sum.splits)

lemma mpsc_do_log: "mpsc_do sz ty a s = Some s' \<Longrightarrow> length (log s) \<le> length (log s')"
proof (cases a)
  case (MCas t)
  assume "mpsc_do sz ty a s = Some s'"
  with MCas show ?thesis by (cases "pc (prods s t)") (auto split: if_split_asm)
next
  case (MProd t c)
  assume "mpsc_do sz ty a s = Some s'"
  with MProd push_access_log [of sz t c "pc (prods s t)" s s'] show ?thesis by simp
next
  case (MCons c)
  assume "mpsc_do sz ty a s = Some s'"
  with MCons pop_access_log [of sz ty c "kpc (kons s)" s s'] show ?thesis by simp
qed (auto split: if_split_asm)

lemma mpsc_act_inv:
  assumes "mpsc_sys_inv sz s" and "mpsc_act sz ty a s = Some s'"
  shows "mpsc_sys_inv sz s'"
  unfolding mpsc_sys_inv_def
proof
  from assms(2) have do: "mpsc_do sz ty a s = Some s'" by (simp add: mpsc_act_def split: if_split_asm)
  assume "mpsc_within sz s'"
  with mpsc_do_log [OF do] have "mpsc_within sz s" unfolding mpsc_within_def by linarith
  with assms(1) mpsc_do_good [OF _ _ do] show "mpsc_good sz s'" by (simp add: mpsc_sys_inv_def)
qed

interpretation mpsc_run: invariant_system "\<lambda>s. pow2_size sz \<and> 2 \<le> unat sz \<and> s = mpsc_sys_init sz"
    "mpsc_step sz ty" "mpsc_sys_inv sz"
  for sz :: size_t and ty :: "'a elem_type"
  by unfold_locales (auto simp: mpsc_step_iff intro: mpsc_sys_inv_init mpsc_act_inv)

lemma mpsc_reach_inv:
  assumes "pow2_size sz" and "2 \<le> unat sz" and "mpsc_reach sz ty s"
  shows "mpsc_sys_inv sz s"
  by (rule mpsc_run.reach_inv [where ty = ty]) (use assms in simp)

lemma mpsc_reach_good:
  assumes "pow2_size sz" and "2 \<le> unat sz" and "mpsc_reach sz ty s" and "mpsc_within sz s"
  shows "mpsc_good sz s"
  using mpsc_reach_inv [OF assms(1-3)] assms(4) by (simp add: mpsc_sys_inv_def)

section \<open>Lemmas for the properties\<close>

text \<open>What an access does to the auxiliary histories.\<close>

lemma push_access_history:
  assumes good: "mpsc_good sz s" and within: "mpsc_within sz s"
    and step: "push_access sz t c (pc (prods s t)) s = Some s'"
  shows "map entry_val (log s') = map entry_val (log s) \<and> taken s' = taken s"
proof (cases "pc (prods s t)")
  case (M_Build v b pos)
  with mproducer_okD [OF good, of t] obtain h where
    h: "pos = of_nat h" "h < length (log s)" "log s ! h = Reserved t v"
    by (auto simp: producer_ok_def)
  have "unat pos = h"
    unfolding h(1) using h(2) within unfolding mpsc_within_def by (intro unat_of_nat_pos) linarith
  moreover have "map entry_val ((log s)[h := Built t v]) = map entry_val (log s)"
    using h(2,3) by (simp add: map_update list_update_same_conv)
  ultimately show ?thesis using step M_Build by (auto split: if_split_asm sum.splits)
next
  case (M_Publish v b pos)
  with mproducer_okD [OF good, of t] obtain h where
    h: "pos = of_nat h" "h < length (log s)" "log s ! h = Built t v"
    by (auto simp: producer_ok_def)
  have "unat pos = h"
    unfolding h(1) using h(2) within unfolding mpsc_within_def by (intro unat_of_nat_pos) linarith
  moreover have "map entry_val ((log s)[h := Ready v]) = map entry_val (log s)"
    using h(2,3) by (simp add: map_update list_update_same_conv)
  ultimately show ?thesis using step M_Publish by auto
qed (use step in \<open>auto split: if_split_asm sum.splits\<close>)

lemma pop_access_history:
  assumes good: "mpsc_good sz s" and step: "pop_access sz ty c (kpc (kons s)) s = Some s'"
  shows "log s' = log s \<and> (taken s' = taken s \<or>
    (\<exists>v. taken s' = taken s @ [v] \<and> front_ready (log s) (length (taken s)) v))"
proof (cases "kpc (kons s)")
  case (K_Release b pos v)
  with mconsumer_okD(3) [OF good] step show ?thesis by auto
qed (use step in \<open>auto split: if_split_asm sum.splits\<close>)

lemma mpsc_act_history:
  assumes good: "mpsc_good sz s" and within: "mpsc_within sz s" and act: "mpsc_act sz ty a s = Some s'"
  shows "map entry_val (log s') = map entry_val (log s) \<and> taken s' = taken s \<or>
    (\<exists>v. map entry_val (log s') = map entry_val (log s) @ [v] \<and> taken s' = taken s) \<or>
    (\<exists>v. log s' = log s \<and> taken s' = taken s @ [v] \<and> front_ready (log s) (length (taken s)) v)"
proof -
  from act have do: "mpsc_do sz ty a s = Some s'" by (simp add: mpsc_act_def split: if_split_asm)
  show ?thesis
  proof (cases a)
    case (MProd t c)
    with push_access_history [OF good within, of t c s'] do show ?thesis by simp
  next
    case (MCas t)
    with do show ?thesis by (cases "pc (prods s t)") (auto split: if_split_asm)
  next
    case (MCons c)
    with pop_access_history [OF good, of ty c s'] do show ?thesis by auto
  qed (use do in \<open>auto split: if_split_asm\<close>)
qed

text \<open>A queue at rest is a well-formed queue, with the waiting values in it.\<close>

lemma mpsc_rest_ready:
  assumes good: "mpsc_good sz s" and rest: "\<forall>t. \<not> holding (pc (prods s t))" and p: "p < length (log s)"
  shows "log s ! p = Ready (entry_val (log s ! p))"
proof -
  have "entry_ok (prods s) p (log s ! p)" using mpsc_goodD(14) [OF good] p by blast
  then have "owner (log s ! p) \<noteq> Some t" for t using rest by (auto intro: not_holding_owner [THEN notE])
  then show ?thesis by (cases "log s ! p") auto
qed

lemma mpsc_rest_inv:
  assumes good: "mpsc_good sz s" and rest: "\<forall>t. \<not> holding (pc (prods s t))" "kpc (kons s) = K_Idle"
    and room: "length (log s) + k + unat sz < 2 ^ 63"
  shows "mpsc_inv sz k (mq s)"
    and "mpsc_items sz (mq s) = map entry_val (drop (length (taken s)) (log s))"
proof -
  let ?n = "unat sz" and ?f = "length (taken s)" and ?h = "length (log s)"
  note g = mpsc_goodD [OF good]
  have uh: "unat (mp_head (mq s)) = ?h" unfolding g(4) using room by (intro unat_of_nat_pos) linarith
  have ut: "unat (mp_tail (mq s)) = ?f"
  proof -
    have "?f < 2 ^ 63" using g(8) room by linarith
    then show ?thesis unfolding g(5) by (simp add: rest(2) unat_of_nat_pos)
  qed
  have cell: "mcell_ok ?n p (entry_at (log s) p) Whole (mp_cells (mq s) ! (p mod ?n))
      (length (seqs s ! (p mod ?n))) (accs s ! (p mod ?n))" if "?f \<le> p" "p < ?f + ?n" for p
    using mpsc_good_window [OF good that] rest(2) by (auto split: if_split_asm)
  have ready: "cell_seq (mp_cells (mq s) ! (p mod ?n)) = of_nat (Suc p)"
    "cell_storage (mp_cells (mq s) ! (p mod ?n)) = Some (entry_val (log s ! p))"
    if p: "?f \<le> p" "p < ?h" for p
  proof -
    from p g(9) have "p < ?f + ?n" by simp
    with cell [of p] p(1) mpsc_rest_ready [OF good rest(1) p(2)] p(2)
    have "mcell_ok ?n p (Some (Ready (entry_val (log s ! p)))) Whole (mp_cells (mq s) ! (p mod ?n))
        (length (seqs s ! (p mod ?n))) (accs s ! (p mod ?n))"
      by (simp add: entry_at_def)
    then show "cell_seq (mp_cells (mq s) ! (p mod ?n)) = of_nat (Suc p)"
      "cell_storage (mp_cells (mq s) ! (p mod ?n)) = Some (entry_val (log s ! p))" by simp_all
  qed
  have "cell_holds ?h p (mp_cells (mq s) ! (p mod ?n))" if p: "?f \<le> p" "p < ?f + ?n" for p
  proof (cases "p < ?h")
    case True
    with ready p show ?thesis by (simp add: cell_holds_def)
  next
    case False
    with cell [OF p] show ?thesis by (simp add: cell_holds_def entry_at_def)
  qed
  with g uh ut room mpsc_good_lengths(1) [OF good] show "mpsc_inv sz k (mq s)"
    by (simp add: mpsc_inv_def mpsc_cells_ok_def)
  show "mpsc_items sz (mq s) = map entry_val (drop ?f (log s))"
  proof (rule nth_equalityI)
    fix i assume "i < length (mpsc_items sz (mq s))"
    then have i: "?f + i < ?h" using uh ut by simp
    then have "[?f..<?h] ! i = ?f + i" by (subst nth_upt) simp_all
    with i show "mpsc_items sz (mq s) ! i = map entry_val (drop ?f (log s)) ! i"
      using ready(2) [of "?f + i"] by (simp add: mpsc_items_def uh ut)
  qed (simp add: uh ut)
qed





text \<open>\<open>size()\<close> loads the head and the tail one after the other: here in two states.\<close>

definition mpsc_size_loads :: "'a mpsc \<Rightarrow> 'a mpsc \<Rightarrow> size_t" where
  "mpsc_size_loads q r = mp_head q - mp_tail r"

lemmas mpsc_eval = mpsc_act_def mpsc_sys_init_def mpsc_init_def put_def cell_index_def mpsc_mask_def
  seq_diff_def push_decide_def push_failed_def see_seq_def build_cell_def pop_decide_def read_cell_def
  clear_cell_def nat_elem_def mpsc_stop_def mpsc_run_def mpsc_size_loads_def mpsc_size_def

lemma mpsc_sched_init_reach:
  "mpsc_sched sz ty as (mpsc_sys_init sz) = Some s \<Longrightarrow> mpsc_reach sz ty s"
  by (rule mpsc_sched_reach) (auto intro: reach.reach_init)

lemma pow2_size_two: "pow2_size 2" "2 \<le> unat (2 :: size_t)"
  unfolding pow2_size_def by (auto intro: exI [of _ 1])

text \<open>One push, complete; and one that has reserved its position only.\<close>

definition mpsc_demo :: "nat mpsc_action list" where
  "mpsc_demo = [MPush 0 7 False, MProd 0 0, MProd 0 0, MProd 0 0, MCas 0, MProd 0 0, MProd 0 0]"

definition mpsc_stalled :: "nat mpsc_action list" where
  "mpsc_stalled = [MPush 0 7 False, MProd 0 0, MProd 0 0, MProd 0 0, MCas 0,
     MPush 1 8 False, MProd 1 0, MProd 1 1, MProd 1 0, MCas 1, MProd 1 0, MProd 1 0]"

lemma mpsc_demo_state:
  obtains s where "mpsc_reach 2 nat_elem s" "log s = [Ready 7]" "taken s = []"
    "\<forall>t. pc (prods s t) = M_Idle" "kpc (kons s) = K_Idle" "mp_status (mq s) = Running"
proof -
  have "\<exists>s. mpsc_sched 2 nat_elem mpsc_demo (mpsc_sys_init 2) = Some s \<and> log s = [Ready 7] \<and>
      taken s = [] \<and> (\<forall>t. pc (prods s t) = M_Idle) \<and> kpc (kons s) = K_Idle \<and>
      mp_status (mq s) = Running"
    by (simp add: mpsc_demo_def mpsc_eval)
  then show ?thesis using that mpsc_sched_init_reach by blast
qed

section \<open>Typed memory and progress\<close>

text \<open>
  The type of cell \<open>c\<close> as the cell of position \<open>p\<close>: free for \<open>p\<close>, reserved by a producer that is
  about to build, built by one that is about to publish, or published, with its object until the
  consumer has destroyed it.
\<close>

definition cell_typed :: "'a mpsc_sys \<Rightarrow> nat \<Rightarrow> 'a mpsc_cell \<Rightarrow> bool" where
  "cell_typed s p c \<longleftrightarrow>
     (case entry_at (log s) p of
        None \<Rightarrow> c = \<lparr>cell_seq = of_nat p, cell_storage = None\<rparr>
      | Some (Reserved t v) \<Rightarrow> c = \<lparr>cell_seq = of_nat p, cell_storage = None\<rparr> \<and>
          (\<exists>b. pc (prods s t) = M_Build v b (of_nat p))
      | Some (Built t v) \<Rightarrow> c = \<lparr>cell_seq = of_nat p, cell_storage = Some v\<rparr> \<and>
          (\<exists>b. pc (prods s t) = M_Publish v b (of_nat p))
      | Some (Ready v) \<Rightarrow> cell_seq c = of_nat (Suc p) \<and>
          (if p = length (taken s) then slot_in_phase (mphase (kpc (kons s))) v (cell_storage c)
           else cell_storage c = Some v))"

lemma mpsc_good_cell_typed:
  assumes good: "mpsc_good sz s" and p: "length (taken s) \<le> p" "p < length (taken s) + unat sz"
  shows "cell_typed s p (mp_cells (mq s) ! (p mod unat sz))"
proof -
  note w = mpsc_good_window [OF good p]
  show ?thesis
  proof (cases "entry_at (log s) p")
    case None
    with w show ?thesis by (simp add: cell_typed_def)
  next
    case (Some e)
    then have e: "p < length (log s)" "log s ! p = e" by (simp_all add: entry_at_def split: if_splits)
    with mpsc_goodD(14) [OF good] have own: "entry_ok (prods s) p e" by blast
    with w Some show ?thesis by (cases e) (auto simp: cell_typed_def)
  qed
qed

text \<open>No thread is stuck inside a call: some choice of the values its loads return lets it step, without a fault.\<close>

lemma mpsc_progress_producer:
  assumes good: "mpsc_good sz s" and within: "mpsc_within sz s" and "pc (prods s t) \<noteq> M_Idle"
  obtains c s' where "mpsc_act sz ty (MProd t c) s = Some s'" and "mfault s' = None"
proof -
  note p = mpsc_goodD(13) [OF good, rule_format, of t, unfolded producer_ok_def]
  have nf: "mfault s = None" using mpsc_goodD(3) [OF good] .
  have "\<exists>c s'. push_access sz t c (pc (prods s t)) s = Some s'"
  proof (cases "pc (prods s t)")
    case (M_Seq v b pos)
    show ?thesis
    proof (cases "cell_index sz pos < unat sz")
      case True
      with p have "v_seq (prods s t) (cell_index sz pos) < length (seqs s ! cell_index sz pos)"
        by (simp add: seen_ok_def)
      with M_Seq show ?thesis
        by (intro exI [of _ "v_seq (prods s t) (cell_index sz pos)"]) (simp split: sum.split)
    qed (use M_Seq mpsc_good_lengths [OF good] in simp)
  next
    case (M_Head v b)
    with p show ?thesis by (intro exI [of _ "v_head (prods s t)"]) simp
  next
    case (M_Cas v b pos)
    with p show ?thesis by (intro exI [of _ "v_head (prods s t)"]) simp
  qed (use assms(3) p in \<open>auto intro!: exI [of _ "v_stat (prods s t)"] split: sum.split\<close>)
  then obtain c s' where do: "mpsc_do sz ty (MProd t c) s = Some s'" by auto
  from mpsc_goodD(3) [OF mpsc_do_good [OF good within do]] do nf show ?thesis
    by (intro that) (simp_all add: mpsc_act_def)
qed

lemma mpsc_progress_consumer:
  assumes good: "mpsc_good sz s" and within: "mpsc_within sz s" and "kpc (kons s) \<noteq> K_Idle"
  obtains c s' where "mpsc_act sz ty (MCons c) s = Some s'" and "mfault s' = None"
proof -
  note k = mpsc_goodD(15) [OF good, unfolded consumer_ok_def]
  have nf: "mfault s = None" using mpsc_goodD(3) [OF good] .
  have "\<exists>c s'. pop_access sz ty c (kpc (kons s)) s = Some s'"
  proof (cases "kpc (kons s)")
    case (K_Seq b pos)
    show ?thesis
    proof (cases "cell_index sz pos < unat sz")
      case True
      with k have "k_seq (kons s) (cell_index sz pos) < length (seqs s ! cell_index sz pos)"
        by (simp add: seen_ok_def)
      with K_Seq show ?thesis
        by (intro exI [of _ "k_seq (kons s) (cell_index sz pos)"]) (simp split: sum.split)
    qed (use K_Seq mpsc_good_lengths [OF good] in simp)
  qed (use assms(3) k in \<open>auto intro!: exI [of _ "k_stat (kons s)"] split: sum.split\<close>)
  then obtain c s' where do: "mpsc_do sz ty (MCons c) s = Some s'" by auto
  from mpsc_goodD(3) [OF mpsc_do_good [OF good within do]] do nf show ?thesis
    by (intro that) (simp_all add: mpsc_act_def)
qed


section \<open>Properties\<close>

text \<open>
  C1: Whatever the number of producers, the interleaving, the spurious failures of the
  compare and swap and the staleness of the loads, no fault occurs while the positions fit
  into 63 bits: no storage is read or destroyed while raw, built over while live, or
  accessed in a data race, and no signed difference overflows. The values popped are the
  oldest ones that were handed a position, in that order, and never more than \<open>_size\<close>
  positions are ahead of them.
\<close>

theorem mpsc_concurrent_safe:
  assumes "pow2_size sz" and "2 \<le> unat sz" and "mpsc_reach sz ty s"
    and "length (log s) + unat sz < 2 ^ 63"
  shows "mfault s = None \<and> taken s = map entry_val (take (length (taken s)) (log s)) \<and>
    length (taken s) \<le> length (log s) \<and> length (log s) - length (taken s) \<le> unat sz"
proof -
  have "mpsc_within sz s" using assms(4) by (simp add: mpsc_within_def)
  note g = mpsc_goodD [OF mpsc_reach_good [OF assms(1-3) this]]
  have "taken s = map entry_val (take (length (taken s)) (log s))"
    using g(8,10) by (intro nth_equalityI) simp_all
  with g(3,8,9) show ?thesis by auto
qed

theorem mpsc_concurrent_safe_witness:
  "\<exists>s. mpsc_reach 2 nat_elem s \<and> log s = [Ready 7] \<and> mfault s = None \<and>
    length (log s) - length (taken s) \<le> unat (2 :: size_t)"
proof -
  obtain s where s: "mpsc_reach 2 nat_elem s" "log s = [Ready 7]" using mpsc_demo_state by metis
  from mpsc_concurrent_safe [OF pow2_size_two s(1)] s show ?thesis by auto
qed

text \<open>
  C3: Every step of any thread is a step of the abstract queue of the values that have a
  position and are not taken: it leaves the queue alone, appends one value to a queue of
  fewer than \<open>_size\<close>, or takes the oldest value, which is published.
\<close>

theorem mpsc_step_simulates:
  assumes "pow2_size sz" and "2 \<le> unat sz" and "mpsc_reach sz ty s" and "mpsc_step sz ty s t"
    and "length (log t) + unat sz < 2 ^ 63"
  shows "let xs = map entry_val (drop (length (taken s)) (log s));
             ys = map entry_val (drop (length (taken t)) (log t))
    in (ys = xs \<and> taken t = taken s) \<or>
       (\<exists>v. ys = xs @ [v] \<and> length xs < unat sz \<and> taken t = taken s) \<or>
       (\<exists>v. xs = v # ys \<and> taken t = taken s @ [v] \<and> log s ! length (taken s) = Ready v)"
proof -
  from assms(4) obtain a where act: "mpsc_act sz ty a s = Some t" by (auto simp: mpsc_step_iff)
  then have "mpsc_do sz ty a s = Some t" by (simp add: mpsc_act_def split: if_split_asm)
  from mpsc_do_log [OF this] assms(5) have ws: "mpsc_within sz s" by (simp add: mpsc_within_def)
  have wt: "mpsc_within sz t" using assms(5) by (simp add: mpsc_within_def)
  note gs = mpsc_reach_good [OF assms(1-3) ws]
  have "mpsc_reach sz ty t" using assms(3,4) by (rule reach.reach_step)
  note gt = mpsc_goodD [OF mpsc_reach_good [OF assms(1,2) this wt]]
  from mpsc_act_history [OF gs ws act] show ?thesis
  proof (elim disjE exE conjE)
    fix v assume "map entry_val (log t) = map entry_val (log s) @ [v]" "taken t = taken s"
    moreover from this have "length (log t) = Suc (length (log s))"
      by (metis length_append_singleton length_map)
    moreover from this calculation(2) gt(9) have "length (log s) < length (taken s) + unat sz" by simp
    ultimately show ?thesis using mpsc_goodD(8) [OF gs] by (simp add: Let_def drop_map [symmetric])
  next
    fix v assume "log t = log s" "taken t = taken s @ [v]" "front_ready (log s) (length (taken s)) v"
    then show ?thesis by (simp add: Let_def Cons_nth_drop_Suc [symmetric])
  qed (simp add: Let_def drop_map [symmetric])
qed

theorem mpsc_step_simulates_witness:
  "\<exists>s t. mpsc_step 2 nat_elem s t \<and> log s = [Ready 7] \<and>
    map entry_val (drop (length (taken t)) (log t)) = [7]"
proof -
  obtain s where s: "mpsc_reach 2 nat_elem s" "log s = [Ready 7]" "taken s = []" "kpc (kons s) = K_Idle"
    using mpsc_demo_state by metis
  have nf: "mfault s = None" using mpsc_concurrent_safe [OF pow2_size_two s(1)] s(2) by simp
  obtain t where t: "mpsc_act 2 nat_elem (MPop False) s = Some t" "log t = log s" "taken t = []"
    using s(3,4) nf by (simp add: mpsc_act_def)
  from t(1) have step: "mpsc_step 2 nat_elem s t" by (rule mpsc_step.intros)
  have "length (log t) + unat (2 :: size_t) < 2 ^ 63" using s(2) t(2) by simp
  from mpsc_step_simulates [OF pow2_size_two s(1) step this] step s(2,3) t(2,3) show ?thesis
    by (intro exI [of _ s] exI [of _ t]) (auto simp: Let_def)
qed



text \<open>
  C4: When no producer is between its compare and swap and its publication and the consumer
  is idle, the shared state is a well-formed queue of the sequential model, and the list in
  it is the values that were handed a position and not popped.
\<close>

theorem mpsc_rest_refines:
  assumes "pow2_size sz" and "2 \<le> unat sz" and "mpsc_reach sz ty s"
    and "length (log s) + k + unat sz < 2 ^ 63"
    and "\<forall>t. \<not> holding (pc (prods s t))" and "kpc (kons s) = K_Idle"
  shows "mpsc_inv sz k (mq s) \<and>
    taken s @ mpsc_items sz (mq s) = map entry_val (log s)"
proof -
  have "mpsc_within sz s" using assms(4) by (simp add: mpsc_within_def)
  note good = mpsc_reach_good [OF assms(1-3) this]
  note rest = mpsc_rest_inv [OF good assms(5,6,4)]
  have "taken s = map entry_val (take (length (taken s)) (log s))"
    using mpsc_goodD(8,10) [OF good] by (intro nth_equalityI) simp_all
  then have "taken s @ mpsc_items sz (mq s) =
      map entry_val (take (length (taken s)) (log s)) @ map entry_val (drop (length (taken s)) (log s))"
    unfolding rest(2) by metis
  then have "taken s @ mpsc_items sz (mq s) = map entry_val (log s)"
    by (simp add: map_append [symmetric] del: map_append)
  with rest(1) show ?thesis ..
qed

theorem mpsc_rest_refines_witness:
  "\<exists>s. mpsc_reach 2 nat_elem s \<and> mpsc_inv 2 5 (mq s) \<and> mpsc_items 2 (mq s) = [7]"
proof -
  obtain s where s: "mpsc_reach 2 nat_elem s" "log s = [Ready 7]" "taken s = []"
    "\<forall>t. pc (prods s t) = M_Idle" "kpc (kons s) = K_Idle" using mpsc_demo_state by metis
  have "length (log s) + 5 + unat (2 :: size_t) < 2 ^ 63" using s(2) by simp
  from mpsc_rest_refines [OF pow2_size_two s(1) this _ s(5)] s show ?thesis by auto
qed

text \<open>
  A producer that stalls between its compare and swap and its publication hides the
  elements that were pushed after it: here a second producer's push has returned true, the
  queue reports two elements, and the consumer's pop returns nothing, however often it is
  called, until the first producer goes on.
\<close>

lemma mpsc_stalled_producer_hides:
  "\<exists>s. mpsc_reach 2 nat_elem s \<and> pc (prods s 0) = M_Build 7 False 0 \<and>
     ret (prods s 1) = Some True \<and> mpsc_size (mq s) = 2 \<and> kpc (kons s) = K_Idle \<and>
     kret (kons s) = Some None \<and>
     mpsc_sched 2 nat_elem [MPop False, MCons 0, MCons 0] s = Some s"
proof -
  let ?as = "mpsc_stalled @ [MPop False, MCons 0, MCons 0]"
  have "\<exists>s. mpsc_sched 2 nat_elem ?as (mpsc_sys_init 2) = Some s \<and> pc (prods s 0) = M_Build 7 False 0 \<and>
     ret (prods s 1) = Some True \<and> mpsc_size (mq s) = 2 \<and> kpc (kons s) = K_Idle \<and>
     kret (kons s) = Some None \<and> mpsc_sched 2 nat_elem [MPop False, MCons 0, MCons 0] s = Some s"
    by (simp add: mpsc_stalled_def mpsc_eval)
  then show ?thesis using mpsc_sched_init_reach by blast
qed

text \<open>
  \<open>size()\<close> loads the head before the tail can move on, and the difference wraps: both
  states of this run are empty, and a \<open>size()\<close> whose loads fall into them returns
  \<open>2^64 - 1\<close>, so that \<open>full()\<close> is true and \<open>empty()\<close> false.
\<close>

lemma mpsc_size_wraps:
  "\<exists>s t as. mpsc_reach 2 nat_elem s \<and> mpsc_sched 2 nat_elem as s = Some t \<and>
     mpsc_empty (mq s) \<and> mpsc_empty (mq t) \<and>
     mpsc_size_loads (mq s) (mq t) = 2 ^ 64 - 1 \<and> 2 \<le> mpsc_size_loads (mq s) (mq t)"
proof -
  let ?as = "mpsc_demo @ [MPop False, MCons 0, MCons 1, MCons 0, MCons 0, MCons 0, MCons 0]"
  have "\<exists>t. mpsc_sched 2 nat_elem ?as (mpsc_sys_init 2) = Some t \<and>
      mpsc_empty (mpsc_init 2 :: nat mpsc) \<and> mpsc_empty (mq t) \<and>
      mpsc_size_loads (mpsc_init 2) (mq t) = 2 ^ 64 - 1 \<and> 2 \<le> mpsc_size_loads (mpsc_init 2) (mq t)"
    by (simp add: mpsc_demo_def mpsc_eval mpsc_empty_def)
  moreover have "mpsc_reach 2 nat_elem (mpsc_sys_init 2)" by (rule reach.reach_init) simp
  moreover have "mq (mpsc_sys_init 2 :: nat mpsc_sys) = mpsc_init 2" by (simp add: mpsc_sys_init_def)
  ultimately show ?thesis by metis
qed

text \<open>
  C2: The shared memory is well typed in every reachable state, in the sense of progress and
  preservation. Every cell is the cell of one position of the window of \<open>_size\<close> positions behind
  the last one released, and its sequence number and its storage are what the state of that
  position says: free and raw, reserved and raw, built by the producer that is about to publish
  it, or published and alive until the consumer has destroyed it. And no thread is ever stuck
  inside a call: some access of its own is possible and is not a fault.
\<close>

theorem mpsc_memory_typed:
  assumes "pow2_size sz" and "2 \<le> unat sz" and "mpsc_reach sz ty s"
    and "length (log s) + unat sz < 2 ^ 63"
  shows "length (mp_cells (mq s)) = unat sz \<and>
    (\<forall>i<unat sz. \<exists>p\<ge>length (taken s). p < length (taken s) + unat sz \<and> p mod unat sz = i \<and>
       cell_typed s p (mp_cells (mq s) ! i)) \<and>
    (\<forall>t. pc (prods s t) \<noteq> M_Idle \<longrightarrow> (\<exists>c s'. mpsc_act sz ty (MProd t c) s = Some s' \<and> mfault s' = None)) \<and>
    (kpc (kons s) \<noteq> K_Idle \<longrightarrow> (\<exists>c s'. mpsc_act sz ty (MCons c) s = Some s' \<and> mfault s' = None))"
proof -
  have within: "mpsc_within sz s" using assms(4) by (simp add: mpsc_within_def)
  note good = mpsc_reach_good [OF assms(1-3) this]
  show ?thesis
  proof (intro conjI allI impI)
    fix i assume "i < unat sz"
    from ring_index_surj [OF this] obtain j where "j < unat sz" "(length (taken s) + j) mod unat sz = i"
      by blast
    with mpsc_good_cell_typed [OF good, of "length (taken s) + j"] show "\<exists>p\<ge>length (taken s). p < length (taken s) + unat sz \<and>
        p mod unat sz = i \<and> cell_typed s p (mp_cells (mq s) ! i)" by (intro exI [of _ "length (taken s) + j"]) simp
  next
    fix t assume "pc (prods s t) \<noteq> M_Idle"
    then show "\<exists>c s'. mpsc_act sz ty (MProd t c) s = Some s' \<and> mfault s' = None"
      by (rule mpsc_progress_producer [OF good within]) blast
  next
    assume "kpc (kons s) \<noteq> K_Idle"
    then show "\<exists>c s'. mpsc_act sz ty (MCons c) s = Some s' \<and> mfault s' = None"
      by (rule mpsc_progress_consumer [OF good within]) blast
  qed (rule mpsc_good_lengths [OF good])
qed

text \<open>After one push: the first cell is published, the second one free for the next position.\<close>

theorem mpsc_memory_typed_witness:
  "\<exists>s. mpsc_reach 2 nat_elem s \<and> log s = [Ready 7] \<and>
    mp_cells (mq s) = [\<lparr>cell_seq = 1, cell_storage = Some 7\<rparr>, \<lparr>cell_seq = 1, cell_storage = None\<rparr>]"
proof -
  obtain s where s: "mpsc_reach 2 nat_elem s" "log s = [Ready 7]" "taken s = []"
    "kpc (kons s) = K_Idle" using mpsc_demo_state by metis
  have "length (log s) + unat (2 :: size_t) < 2 ^ 63" using s(2) by simp
  note t = mpsc_memory_typed [OF pow2_size_two s(1) this]
  have len: "length (mp_cells (mq s)) = 2" using t by simp
  have "cell_typed s i (mp_cells (mq s) ! i)" if "i < 2" for i
  proof -
    from t that obtain p where "p < 2" "p mod 2 = i" "cell_typed s p (mp_cells (mq s) ! i)"
      using s(3) by auto
    then show ?thesis by simp
  qed
  from this [of 0] this [of 1] have "mp_cells (mq s) ! 0 = \<lparr>cell_seq = 1, cell_storage = Some 7\<rparr>"
    "mp_cells (mq s) ! 1 = \<lparr>cell_seq = 1, cell_storage = None\<rparr>"
    using s(2-4) by (auto simp: cell_typed_def entry_at_def intro: mpsc_cell.equality)
  with len have "mp_cells (mq s) = [\<lparr>cell_seq = 1, cell_storage = Some 7\<rparr>, \<lparr>cell_seq = 1, cell_storage = None\<rparr>]"
    by (intro nth_equalityI) (auto simp: less_Suc_eq numeral_2_eq_2)
  with s(1,2) show ?thesis by blast
qed

end
