(* ===== verification/Logger.thy ===== *)
theory Logger
  imports MpscConcurrent
begin

text \<open>
  examples/mpsc_queue.cpp: four workers push 1000 messages each into a queue of 4096 cells with
  \<open>blocking_push\<close>, a logger prints what \<open>blocking_pop\<close> gives it, and the main thread stops the
  queue when it has joined the workers. The threads are clients of \<open>MpscConcurrent\<close>.
\<close>

section \<open>The program\<close>

definition queue_cap :: size_t where
  "queue_cap = push_bit 12 1"

definition logger_workers :: nat where
  "logger_workers = 4"

definition messages :: nat where
  "messages = 1000"

text \<open>\<open>LogMsg{"msg " + std::to_string(id) + ":" + std::to_string(i)}\<close>, as the two numbers in it.\<close>

type_synonym log_msg = "nat \<times> nat"

record logger_run =
  lg_q :: "log_msg mpsc_sys"
  lg_i :: "nat \<Rightarrow> nat"           \<comment> \<open>the loop variable of each worker\<close>
  lg_stopped :: bool             \<comment> \<open>\<open>main\<close> has called \<open>stop\<close>\<close>
  lg_printed :: "log_msg list"
  lg_over :: bool                \<comment> \<open>the logger has left its loop\<close>

datatype logger_action =
    LgPush nat
  | LgProd nat nat
  | LgCas nat
  | LgStop
  | LgPop
  | LgCons nat

definition with_logq :: "log_msg mpsc_sys option \<Rightarrow> logger_run \<Rightarrow> logger_run option" where
  "with_logq so r = map_option (\<lambda>s. r\<lparr>lg_q := s\<rparr>) so"

text \<open>The workers have been joined: each has left its loop and its last call.\<close>

definition logger_joined :: "logger_run \<Rightarrow> bool" where
  "logger_joined r \<longleftrightarrow> (\<forall>t<logger_workers. lg_i r t = messages \<and> pc (prods (lg_q r) t) = M_Idle)"

fun logger_do :: "log_msg elem_type \<Rightarrow> logger_action \<Rightarrow> logger_run \<Rightarrow> logger_run option" where
  "logger_do ty (LgPush t) r =
     (if t < logger_workers \<and> lg_i r t < messages
      then with_logq (mpsc_act queue_cap ty (MPush t (t, lg_i r t) True) (lg_q r)) (r\<lparr>lg_i := (lg_i r)(t := lg_i r t + 1)\<rparr>)
      else None)"
| "logger_do ty (LgProd t c) r = with_logq (mpsc_act queue_cap ty (MProd t c) (lg_q r)) r"
| "logger_do ty (LgCas t) r = with_logq (mpsc_act queue_cap ty (MCas t) (lg_q r)) r"
| "logger_do ty LgStop r =
     (if logger_joined r \<and> \<not> lg_stopped r
      then with_logq (mpsc_act queue_cap ty MStop (lg_q r)) (r\<lparr>lg_stopped := True\<rparr>) else None)"
| "logger_do ty LgPop r =
     (if kpc (kons (lg_q r)) = K_Idle \<and> \<not> lg_over r then
        (case kret (kons (lg_q r)) of
           None \<Rightarrow> with_logq (mpsc_act queue_cap ty (MPop True) (lg_q r)) r
         | Some (Some m) \<Rightarrow>
             with_logq (mpsc_act queue_cap ty (MPop True) (lg_q r)) (r\<lparr>lg_printed := lg_printed r @ [m]\<rparr>)
         | Some None \<Rightarrow> Some (r\<lparr>lg_over := True\<rparr>))
      else None)"
| "logger_do ty (LgCons c) r = with_logq (mpsc_act queue_cap ty (MCons c) (lg_q r)) r"

inductive logger_step :: "log_msg elem_type \<Rightarrow> logger_run \<Rightarrow> logger_run \<Rightarrow> bool"
  for ty :: "log_msg elem_type" where
  "logger_do ty a r = Some r' \<Longrightarrow> logger_step ty r r'"

inductive_simps logger_step_iff: "logger_step ty r r'"

definition logger_init :: logger_run where
  "logger_init = \<lparr>lg_q = mpsc_sys_init queue_cap, lg_i = (\<lambda>_. 0), lg_stopped = False, lg_printed = [], lg_over = False\<rparr>"

abbreviation logger_reach :: "log_msg elem_type \<Rightarrow> logger_run \<Rightarrow> bool" where
  "logger_reach ty \<equiv> reach (\<lambda>r. r = logger_init) (logger_step ty)"

lemma queue_cap_numeral: "queue_cap = 4096"
  by (simp add: queue_cap_def push_bit_eq_mult)

lemma queue_cap_facts: "pow2_size queue_cap" "unat queue_cap = 4096"
proof -
  have "queue_cap = 2 ^ 12" by (simp add: queue_cap_def push_bit_eq_mult)
  then show "pow2_size queue_cap" unfolding pow2_size_def by (intro exI [of _ 12]) simp
  show "unat queue_cap = 4096" by (simp add: queue_cap_def push_bit_eq_mult)
qed

section \<open>What the accesses of a call keep\<close>

text \<open>The value of a push that has no position yet, and pushes that wait for room.\<close>

fun unplaced :: "'a mprod_pc \<Rightarrow> 'a list" where
  "unplaced (M_Check1 v) = [v]"
| "unplaced (M_Check2 v) = [v]"
| "unplaced (M_Status v b) = [v]"
| "unplaced (M_Head v b) = [v]"
| "unplaced (M_Seq v b pos) = [v]"
| "unplaced (M_Cas v b pos) = [v]"
| "unplaced _ = []"

fun waits_for_room :: "'a mprod_pc \<Rightarrow> bool" where
  "waits_for_room (M_Status v b) = b"
| "waits_for_room (M_Head v b) = b"
| "waits_for_room (M_Seq v b pos) = b"
| "waits_for_room (M_Cas v b pos) = b"
| "waits_for_room (M_Build v b pos) = b"
| "waits_for_room (M_Publish v b pos) = b"
| "waits_for_room _ = True"

lemma mpsc_wait_push_access:
  assumes "push_access sz t c (pc (prods s t)) s = Some s'" and "mstats s = [Running]"
    and "waits_for_room (pc (prods s t))" and "ret (prods s t) \<noteq> Some False"
  shows "unplaced (pc (prods s' t)) = unplaced (pc (prods s t)) \<and> waits_for_room (pc (prods s' t)) \<and>
    ret (prods s' t) \<noteq> Some False \<and> (\<forall>u. u \<noteq> t \<longrightarrow> prods s' u = prods s u) \<and> kons s' = kons s \<and> mstats s' = mstats s"
  using assms
  by (cases "pc (prods s t)")
     (auto simp: put_def push_decide_def push_failed_def see_seq_def nth_Cons' split: if_split_asm sum.splits)

lemma mpsc_wait_cas_access:
  assumes "cas_access t (pc (prods s t)) s = Some s'"
  shows "\<exists>v. unplaced (pc (prods s t)) = [v] \<and> unplaced (pc (prods s' t)) = [] \<and>
    log s' = log s @ [Reserved t v] \<and> waits_for_room (pc (prods s' t)) = waits_for_room (pc (prods s t)) \<and>
    ret (prods s' t) = ret (prods s t) \<and> (\<forall>u. u \<noteq> t \<longrightarrow> prods s' u = prods s u) \<and> kons s' = kons s \<and>
    mstats s' = mstats s \<and> taken s' = taken s"
  using assms by (cases "pc (prods s t)") (auto simp: put_def split: if_split_asm)

lemma pop_access_returns:
  assumes "pop_access sz ty c (kpc (kons s)) s = Some s'"
  shows "kpc (kons s) \<noteq> K_Idle \<and> prods s' = prods s \<and> mstats s' = mstats s \<and> log s' = log s \<and>
    (kpc (kons s') \<noteq> K_Idle \<and> kret (kons s') = kret (kons s) \<and> taken s' = taken s \<or>
     kpc (kons s') = K_Idle \<and> kret (kons s') = Some None \<and> taken s' = taken s \<or>
     (\<exists>v. kpc (kons s') = K_Idle \<and> kret (kons s') = Some (Some v) \<and> taken s' = taken s @ [v]))"
  using assms
  by (cases "kpc (kons s)") (auto simp: pop_decide_def split: if_split_asm sum.splits)

section \<open>The invariant\<close>

definition of_worker :: "nat \<Rightarrow> log_msg list \<Rightarrow> log_msg list" where
  "of_worker t = filter (\<lambda>m. fst m = t)"

fun last_message :: "'a option option \<Rightarrow> 'a list" where
  "last_message (Some (Some m)) = [m]"
| "last_message _ = []"

abbreviation placed :: "logger_run \<Rightarrow> log_msg list" where
  "placed r \<equiv> map entry_val (log (lg_q r))"

definition worker_ok :: "logger_run \<Rightarrow> nat \<Rightarrow> bool" where
  "worker_ok r t \<longleftrightarrow>
     of_worker t (placed r) @ unplaced (pc (prods (lg_q r) t)) = map (Pair t) [0..<lg_i r t] \<and>
     lg_i r t \<le> (if t < logger_workers then messages else 0) \<and>
     waits_for_room (pc (prods (lg_q r) t)) \<and> ret (prods (lg_q r) t) \<noteq> Some False \<and>
     (t < logger_workers \<or> pc (prods (lg_q r) t) = M_Idle)"

definition logger_inv :: "logger_run \<Rightarrow> bool" where
  "logger_inv r \<longleftrightarrow> mpsc_sys_inv queue_cap (lg_q r) \<and> (\<forall>t. worker_ok r t) \<and>
     (if lg_stopped r then logger_joined r else mstats (lg_q r) = [Running]) \<and>
     lg_printed r @ last_message (kret (kons (lg_q r))) = taken (lg_q r) \<and>
     (kpc (kons (lg_q r)) \<noteq> K_Idle \<longrightarrow> kret (kons (lg_q r)) = None)"

lemma logger_invD:
  assumes "logger_inv r"
  shows "mpsc_sys_inv queue_cap (lg_q r)" "worker_ok r t"
    "if lg_stopped r then logger_joined r else mstats (lg_q r) = [Running]"
    "lg_printed r @ last_message (kret (kons (lg_q r))) = taken (lg_q r)"
    "kpc (kons (lg_q r)) \<noteq> K_Idle \<longrightarrow> kret (kons (lg_q r)) = None"
  using assms unfolding logger_inv_def by blast+

lemma worker_okD:
  assumes "worker_ok r t"
  shows "of_worker t (placed r) @ unplaced (pc (prods (lg_q r) t)) = map (Pair t) [0..<lg_i r t]"
    "lg_i r t \<le> (if t < logger_workers then messages else 0)"
    "waits_for_room (pc (prods (lg_q r) t))" "ret (prods (lg_q r) t) \<noteq> Some False"
    "t < logger_workers \<or> pc (prods (lg_q r) t) = M_Idle"
  using assms by (simp_all add: worker_ok_def)

text \<open>There are never more than 4000 positions, so the queue stays within its bound.\<close>

lemma length_by_worker:
  "\<forall>m\<in>set ms. fst m < n \<Longrightarrow> length ms = (\<Sum>t<n. length (of_worker t ms))"
proof (induction ms)
  case (Cons m ms)
  have "(\<Sum>t<n. length (of_worker t (m # ms))) = (\<Sum>t<n. length (of_worker t ms) + (if t = fst m then 1 else 0))"
    by (intro sum.cong) (auto simp: of_worker_def)
  also have "\<dots> = (\<Sum>t<n. length (of_worker t ms)) + 1" using Cons.prems by (simp add: sum.distrib)
  finally show ?case using Cons by simp
qed (simp add: of_worker_def)

lemma worker_count_bound: "worker_ok r t \<Longrightarrow> length (of_worker t (placed r)) \<le> lg_i r t"
  using arg_cong [OF worker_okD(1), of r t length] by simp

lemma logger_positions:
  assumes inv: "logger_inv r"
  shows "length (log (lg_q r)) \<le> 4000" "mpsc_good queue_cap (lg_q r)" "mpsc_within queue_cap (lg_q r)"
proof -
  have "fst m < logger_workers" if m: "m \<in> set (placed r)" for m
  proof (rule ccontr)
    assume "\<not> fst m < logger_workers"
    with worker_okD(2) [OF logger_invD(2) [OF inv, of "fst m"]] have "lg_i r (fst m) = 0" by simp
    with worker_count_bound [OF logger_invD(2) [OF inv, of "fst m"]] have "of_worker (fst m) (placed r) = []" by simp
    with m show False by (auto simp: of_worker_def filter_empty_conv)
  qed
  then have "length (placed r) = (\<Sum>t<logger_workers. length (of_worker t (placed r)))"
    by (intro length_by_worker) blast
  also have "\<dots> \<le> (\<Sum>t<logger_workers. messages)"
  proof (intro sum_mono)
    fix t assume "t \<in> {..<logger_workers}"
    with worker_okD(2) [OF logger_invD(2) [OF inv, of t]] worker_count_bound [OF logger_invD(2) [OF inv, of t]]
    show "length (of_worker t (placed r)) \<le> messages" by simp
  qed
  finally show le: "length (log (lg_q r)) \<le> 4000" by (simp add: logger_workers_def messages_def)
  then show "mpsc_within queue_cap (lg_q r)" by (simp add: mpsc_within_def queue_cap_facts)
  with logger_invD(1) [OF inv] show "mpsc_good queue_cap (lg_q r)" by (simp add: mpsc_sys_inv_def)
qed

lemma of_worker_append [simp]: "of_worker t (xs @ ys) = of_worker t xs @ of_worker t ys"
  by (simp add: of_worker_def)

text \<open>A step of the queue that concerns worker \<open>t\<close> only.\<close>

lemma logger_worker_step:
  assumes inv: "logger_inv r" and sys: "mpsc_sys_inv queue_cap s" and run: "\<not> lg_stopped r" "mstats s = mstats (lg_q r)"
    and cons: "kons s = kons (lg_q r)" "taken s = taken (lg_q r)"
    and others: "\<forall>u. u \<noteq> t \<longrightarrow> prods s u = prods (lg_q r) u \<and> n u = lg_i r u \<and>
      of_worker u (map entry_val (log s)) = of_worker u (placed r)"
    and own: "worker_ok (r\<lparr>lg_q := s, lg_i := n\<rparr>) t"
  shows "logger_inv (r\<lparr>lg_q := s, lg_i := n\<rparr>)"
proof -
  have "worker_ok (r\<lparr>lg_q := s, lg_i := n\<rparr>) u" for u
  proof (cases "u = t")
    case False
    with others logger_invD(2) [OF inv, of u] show ?thesis by (simp add: worker_ok_def)
  qed (use own in simp)
  with sys run cons logger_invD(3-5) [OF inv] show ?thesis by (simp add: logger_inv_def)
qed

lemma logger_push_inv:
  assumes inv: "logger_inv r" and t: "t < logger_workers" "lg_i r t < messages"
    and act: "mpsc_act queue_cap ty (MPush t (t, lg_i r t) True) (lg_q r) = Some s"
  shows "logger_inv (r\<lparr>lg_i := (lg_i r)(t := lg_i r t + 1), lg_q := s\<rparr>)"
proof -
  note w = worker_okD [OF logger_invD(2) [OF inv, of t]]
  from act have idle: "pc (prods (lg_q r) t) = M_Idle"
    and s: "s = put t ((prods (lg_q r) t)\<lparr>pc := M_Check1 (t, lg_i r t), ret := None\<rparr>) (lg_q r)"
    by (auto simp: mpsc_act_def split: if_split_asm)
  have "\<not> lg_stopped r" using logger_invD(3) [OF inv] t by (auto simp: logger_joined_def)
  moreover have "of_worker t (placed r) @ [(t, lg_i r t)] = map (Pair t) [0..<lg_i r t + 1]"
    using w(1) idle by simp
  ultimately have "logger_inv (r\<lparr>lg_q := s, lg_i := (lg_i r)(t := lg_i r t + 1)\<rparr>)"
    using t mpsc_act_inv [OF logger_invD(1) [OF inv] act]
    by (intro logger_worker_step [OF inv, of _ t]) (simp_all add: s put_def worker_ok_def)
  then show ?thesis by (cases r) simp
qed

lemma logger_prod_inv:
  assumes inv: "logger_inv r" and act: "mpsc_act queue_cap ty (MProd t c) (lg_q r) = Some s"
  shows "logger_inv (r\<lparr>lg_q := s\<rparr>)"
proof -
  note w = worker_okD [OF logger_invD(2) [OF inv, of t]] and g = logger_positions(2,3) [OF inv]
  from act have step: "push_access queue_cap t c (pc (prods (lg_q r) t)) (lg_q r) = Some s"
    by (simp add: mpsc_act_def split: if_split_asm)
  then have busy: "pc (prods (lg_q r) t) \<noteq> M_Idle" by auto
  from w(5) busy have t: "t < logger_workers" by simp
  with busy logger_invD(3) [OF inv] have run: "\<not> lg_stopped r" "mstats (lg_q r) = [Running]"
    by (auto simp: logger_joined_def split: if_split_asm)
  note acc = mpsc_wait_push_access [OF step run(2) w(3,4)] and hist = push_access_history [OF g step]
  have "logger_inv (r\<lparr>lg_q := s, lg_i := lg_i r\<rparr>)"
    using run t w acc hist mpsc_act_inv [OF logger_invD(1) [OF inv] act]
    by (intro logger_worker_step [OF inv, of _ t]) (simp_all add: worker_ok_def)
  then show ?thesis by simp
qed

lemma logger_cas_inv:
  assumes inv: "logger_inv r" and act: "mpsc_act queue_cap ty (MCas t) (lg_q r) = Some s"
  shows "logger_inv (r\<lparr>lg_q := s\<rparr>)"
proof -
  note w = worker_okD [OF logger_invD(2) [OF inv, of t]]
  from act have "cas_access t (pc (prods (lg_q r) t)) (lg_q r) = Some s"
    by (simp add: mpsc_act_def split: if_split_asm)
  from mpsc_wait_cas_access [OF this] obtain v where
    v: "unplaced (pc (prods (lg_q r) t)) = [v]" "unplaced (pc (prods s t)) = []" "log s = log (lg_q r) @ [Reserved t v]"
    and same: "waits_for_room (pc (prods s t)) = waits_for_room (pc (prods (lg_q r) t))"
      "ret (prods s t) = ret (prods (lg_q r) t)" "\<forall>u. u \<noteq> t \<longrightarrow> prods s u = prods (lg_q r) u"
      "kons s = kons (lg_q r)" "mstats s = mstats (lg_q r)" "taken s = taken (lg_q r)" by blast
  from v(1) have busy: "pc (prods (lg_q r) t) \<noteq> M_Idle" by auto
  with w(5) have t: "t < logger_workers" by simp
  with busy logger_invD(3) [OF inv] have run: "\<not> lg_stopped r" by (auto simp: logger_joined_def split: if_split_asm)
  have "v \<in> set (map (Pair t) [0..<lg_i r t])" using w(1) unfolding v(1) by (metis in_set_conv_decomp)
  then have ft: "fst v = t" by auto
  have "logger_inv (r\<lparr>lg_q := s, lg_i := lg_i r\<rparr>)"
  proof (rule logger_worker_step [OF inv mpsc_act_inv [OF logger_invD(1) [OF inv] act], of t])
    show "worker_ok (r\<lparr>lg_q := s, lg_i := lg_i r\<rparr>) t"
      using w v same t ft by (simp add: worker_ok_def of_worker_def)
  qed (use run same v(3) ft in \<open>auto simp: of_worker_def\<close>)
  then show ?thesis by simp
qed

lemma logger_cons_inv:
  assumes inv: "logger_inv r" and act: "mpsc_act queue_cap ty (MCons c) (lg_q r) = Some s"
  shows "logger_inv (r\<lparr>lg_q := s\<rparr>)"
proof -
  note i = logger_invD(1,3-5) [OF inv]
  from act have "pop_access queue_cap ty c (kpc (kons (lg_q r))) (lg_q r) = Some s"
    by (simp add: mpsc_act_def split: if_split_asm)
  note p = pop_access_returns [OF this]
  with i(4) have "kret (kons (lg_q r)) = None" by simp
  with i(3) p have "lg_printed r @ last_message (kret (kons s)) = taken s \<and> (kpc (kons s) \<noteq> K_Idle \<longrightarrow> kret (kons s) = None)"
    by auto
  with p i logger_invD(2) [OF inv] mpsc_act_inv [OF i(1) act] show ?thesis
    by (simp add: logger_inv_def worker_ok_def logger_joined_def split: if_split_asm)
qed

lemma logger_pop_inv:
  assumes inv: "logger_inv r" and act: "mpsc_act queue_cap ty (MPop True) (lg_q r) = Some s"
    and nn: "kret (kons (lg_q r)) \<noteq> Some None"
  shows "logger_inv (r\<lparr>lg_printed := lg_printed r @ last_message (kret (kons (lg_q r))), lg_q := s\<rparr>)"
proof -
  from act have "s = (lg_q r)\<lparr>kons := (kons (lg_q r))\<lparr>kpc := K_Tail True, kret := None\<rparr>\<rparr>"
    by (auto simp: mpsc_act_def split: if_split_asm)
  with logger_invD [OF inv] mpsc_act_inv [OF logger_invD(1) [OF inv] act] show ?thesis
    by (simp add: logger_inv_def worker_ok_def logger_joined_def split: if_split_asm)
qed

lemma logger_stop_inv:
  assumes inv: "logger_inv r" and act: "mpsc_act queue_cap ty MStop (lg_q r) = Some s" and "logger_joined r"
  shows "logger_inv (r\<lparr>lg_stopped := True, lg_q := s\<rparr>)"
proof -
  from act have "s = (lg_q r)\<lparr>mq := mpsc_stop (mq (lg_q r)), mstats := mstats (lg_q r) @ [Stopped]\<rparr>"
    by (auto simp: mpsc_act_def split: if_split_asm)
  with logger_invD [OF inv] mpsc_act_inv [OF logger_invD(1) [OF inv] act] assms(3) show ?thesis
    by (simp add: logger_inv_def worker_ok_def logger_joined_def)
qed

lemma logger_step_inv:
  assumes inv: "logger_inv r" and step: "logger_step ty r r'"
  shows "logger_inv r'"
proof -
  from step obtain a where do: "logger_do ty a r = Some r'" by (auto simp: logger_step_iff)
  show ?thesis
  proof (cases a)
    case (LgPush t)
    with do logger_push_inv [OF inv, of t ty] show ?thesis by (auto simp: with_logq_def split: if_split_asm)
  next
    case LgPop
    show ?thesis
    proof (cases "kret (kons (lg_q r)) = Some None")
      case True
      with LgPop do have "r' = r\<lparr>lg_over := True\<rparr>" by (simp split: if_split_asm)
      with logger_invD [OF inv] show ?thesis
        by (simp add: logger_inv_def worker_ok_def logger_joined_def split: if_split_asm)
    next
      case False
      with LgPop do obtain s where act: "mpsc_act queue_cap ty (MPop True) (lg_q r) = Some s"
        and r': "r' = r\<lparr>lg_printed := lg_printed r @ last_message (kret (kons (lg_q r))), lg_q := s\<rparr>"
        by (auto simp: with_logq_def split: if_split_asm option.splits)
      show ?thesis unfolding r' by (rule logger_pop_inv [OF inv act False])
    qed
  qed (use do logger_prod_inv [OF inv] logger_cas_inv [OF inv] logger_stop_inv [OF inv] logger_cons_inv [OF inv] in
        \<open>auto simp: with_logq_def split: if_split_asm\<close>)
qed

lemma logger_init_inv: "logger_inv logger_init"
  using mpsc_sys_inv_init [of queue_cap] queue_cap_facts
  by (simp add: logger_inv_def logger_init_def worker_ok_def mpsc_sys_init_def of_worker_def)

interpretation logger_run: invariant_system "\<lambda>r. r = logger_init" "logger_step ty" logger_inv
  using logger_init_inv logger_step_inv by unfold_locales blast+

section \<open>A run\<close>

fun logger_sched :: "log_msg elem_type \<Rightarrow> logger_action list \<Rightarrow> logger_run \<Rightarrow> logger_run option" where
  "logger_sched ty [] r = Some r"
| "logger_sched ty (a # as) r = (case logger_do ty a r of None \<Rightarrow> None | Some r' \<Rightarrow> logger_sched ty as r')"

lemma logger_sched_reach: "logger_reach ty r \<Longrightarrow> logger_sched ty as r = Some r' \<Longrightarrow> logger_reach ty r'"
proof (induction as arbitrary: r)
  case (Cons a as)
  from Cons.prems(2) obtain u where u: "logger_do ty a r = Some u" "logger_sched ty as u = Some r'"
    by (auto split: option.splits)
  from reach.reach_step [OF Cons.prems(1) logger_step.intros [OF u(1)]] u(2) show ?case by (rule Cons.IH)
qed simp

text \<open>Worker 2 pushes its first message while worker 3 is in its first call, and the logger prints it.\<close>

definition logger_demo :: "logger_action list" where
  "logger_demo =
     [LgPush 3, LgPush 2, LgProd 2 0, LgProd 2 0, LgProd 2 0, LgProd 2 0, LgCas 2, LgProd 2 0, LgProd 2 0,
      LgPop, LgCons 0, LgCons 1, LgCons 0, LgCons 0, LgCons 0, LgCons 0, LgPop]"

definition msg_type :: "log_msg elem_type" where
  "msg_type = \<lparr>move_constructible = True, move_assignable = True, moved_from = id\<rparr>"

lemma logger_init_reach: "logger_reach ty logger_init"
  by (rule reach.reach_init) simp

lemma logger_demo_state:
  obtains r where "logger_reach msg_type r" "lg_printed r = [(2, 0)]" "lg_i r 3 = 1" "log (lg_q r) = [Ready (2, 0)]"
proof -
  have "\<exists>r. logger_sched msg_type logger_demo logger_init = Some r \<and> lg_printed r = [(2, 0)] \<and> lg_i r 3 = 1 \<and>
    log (lg_q r) = [Ready (2, 0)]"
    by (simp add: logger_demo_def logger_init_def with_logq_def msg_type_def mpsc_eval logger_workers_def
        messages_def queue_cap_numeral)
  then show ?thesis
    by (elim exE conjE) (rule that [OF logger_sched_reach [OF logger_init_reach]])
qed

section \<open>Properties\<close>

text \<open>
  C37: In every state of the program no access is a fault, and no push returns false. The logger
  prints messages in the order in which they were placed in the queue, and of each worker its
  messages 0, 1, 2 and so on, in order, without a gap and none twice. When the main thread
  stops the queue, all 4000 messages have been placed.
\<close>

theorem logger_in_order:
  assumes "logger_reach ty r"
  shows "mfault (lg_q r) = None \<and> (\<forall>t. ret (prods (lg_q r) t) \<noteq> Some False) \<and>
    lg_printed r = take (length (lg_printed r)) (placed r) \<and>
    (\<forall>t. \<exists>k\<le>messages. of_worker t (lg_printed r) = map (Pair t) [0..<k]) \<and>
    (lg_stopped r \<longrightarrow> (\<forall>t<logger_workers. of_worker t (placed r) = map (Pair t) [0..<messages]))"
proof -
  note inv = logger_run.reach_inv [OF assms]
  note g = mpsc_goodD [OF logger_positions(2) [OF inv]]
  have "taken (lg_q r) = take (length (taken (lg_q r))) (placed r)"
    using g(8,10) by (intro nth_equalityI) simp_all
  then have pre: "lg_printed r = take (length (lg_printed r)) (placed r)"
    using logger_invD(4) [OF inv] by (metis append_eq_conv_conj take_take append_take_drop_id append.assoc)
  have "\<exists>k\<le>messages. of_worker t (lg_printed r) = map (Pair t) [0..<k]" for t
  proof -
    note w = worker_okD [OF logger_invD(2) [OF inv, of t]]
    have "placed r = lg_printed r @ drop (length (lg_printed r)) (placed r)"
      using pre by (metis append_take_drop_id)
    then obtain ys where "of_worker t (placed r) = of_worker t (lg_printed r) @ ys" by (metis of_worker_append)
    with w(1) obtain zs where "map (Pair t) [0..<lg_i r t] = of_worker t (lg_printed r) @ zs"
      by (metis append.assoc)
    then have "of_worker t (lg_printed r) = take (length (of_worker t (lg_printed r))) (map (Pair t) [0..<lg_i r t])"
      by simp
    also have "\<dots> = map (Pair t) [0..<min (length (of_worker t (lg_printed r))) (lg_i r t)]"
      by (simp add: take_map min_def)
    finally have eq: "of_worker t (lg_printed r) =
        map (Pair t) [0..<min (length (of_worker t (lg_printed r))) (lg_i r t)]" .
    have "lg_i r t \<le> messages" using w(2) by (simp split: if_split_asm)
    then have "min (length (of_worker t (lg_printed r))) (lg_i r t) \<le> messages" by simp
    with eq show ?thesis by blast
  qed
  moreover have "of_worker t (placed r) = map (Pair t) [0..<messages]" if "lg_stopped r" "t < logger_workers" for t
    using worker_okD(1) [OF logger_invD(2) [OF inv, of t]] logger_invD(3) [OF inv] that
    by (simp add: logger_joined_def)
  ultimately show ?thesis
    using g(3) pre worker_okD(4) [OF logger_invD(2) [OF inv]] by blast
qed

theorem logger_in_order_witness:
  "\<exists>r. logger_reach msg_type r \<and> lg_printed r = [(2, 0)] \<and> mfault (lg_q r) = None \<and>
     lg_printed r = take (length (lg_printed r)) (placed r)"
proof -
  obtain r where r: "logger_reach msg_type r" "lg_printed r = [(2, 0)]" by (rule logger_demo_state)
  from logger_in_order [OF r(1)] r show ?thesis by blast
qed

end
