(* ===== verification/Mutex.thy ===== *)
theory Mutex
  imports Prelude
begin

text \<open>
  \<open>Mutex\<close> of include/sync_tools/mutex.hpp, built without the optional owner checks: any
  number of threads that lock, try to lock and unlock it, and update data it protects. A
  step is one access to shared memory or one system call; a signal may arrive at any time.

  Read-modify-writes work on the latest value of the state; a compare and swap that fails
  is a load and may see an older one. The protected data are not atomic, and an access by a
  thread that does not know of all earlier ones is a data race: what a thread knows is
  handed on by the release and acquire operations on the state, as in \<open>MpscConcurrent\<close>.
\<close>

section \<open>The state of the mutex\<close>

datatype mutex_state = Free | Locked | Contended

fun state_code :: "mutex_state \<Rightarrow> int" where
  "state_code Free = 0"
| "state_code Locked = 1"
| "state_code Contended = 3"

text \<open>\<open>static_cast<int>(old) & static_cast<int>(MutexState::Locked)\<close>\<close>

definition taken_bit :: "mutex_state \<Rightarrow> bool" where
  "taken_bit old \<longleftrightarrow> state_code old AND state_code Locked \<noteq> 0"

definition spin_count :: nat where
  "spin_count = 22"

text \<open>The pauses before the compare and swap number \<open>spin\<close> of the slow path.\<close>

definition backoff :: "nat \<Rightarrow> nat" where
  "backoff spin = push_bit (if spin < 10 then spin else 10) 1"

lemma taken_bit_iff: "taken_bit st \<longleftrightarrow> st \<noteq> Free"
  by (cases st) (simp_all add: taken_bit_def)

lemma state_code_inj: "state_code a = state_code b \<longleftrightarrow> a = b"
  by (cases a; cases b) simp_all

section \<open>The futex\<close>

text \<open>
  The kernel is a parameter. \<open>fx_asleep\<close> tells who sleeps in \<open>FUTEX_WAIT\<close>; \<open>fx_wait t w e\<close>
  is the call by thread \<open>t\<close> with the expected value \<open>e\<close> on a word that holds \<open>w\<close>;
  \<open>fx_wake\<close> is \<open>FUTEX_WAKE\<close> for one waiter, with a flag for success; \<open>fx_interrupt\<close> is a
  signal to a thread.
\<close>

datatype errno = EAGAIN | EINTR | EOTHER

datatype wait_reply = Waits | Errno errno

record 'k futex =
  fx_asleep :: "'k \<Rightarrow> nat \<Rightarrow> bool"
  fx_wait :: "nat \<Rightarrow> int \<Rightarrow> int \<Rightarrow> 'k \<Rightarrow> wait_reply \<times> 'k"
  fx_wake :: "'k \<Rightarrow> bool \<times> 'k"
  fx_interrupt :: "nat \<Rightarrow> 'k \<Rightarrow> 'k"

text \<open>
  What futex(2) documents for a valid address: a caller sleeps only if the word holds the
  expected value, checked atomically, the call fails with \<open>EAGAIN\<close> or \<open>EINTR\<close> only, a wake
  wakes a sleeper if there is one and does not fail, a signal wakes its thread.
\<close>

definition futex_laws :: "'k futex \<Rightarrow> bool" where
  "futex_laws fx \<longleftrightarrow>
     (\<forall>t w e k k'. fx_wait fx t w e k = (Waits, k') \<longrightarrow>
        w = e \<and> fx_asleep fx k' = (fx_asleep fx k)(t := True)) \<and>
     (\<forall>t w e k k' r. fx_wait fx t w e k = (Errno r, k') \<longrightarrow>
        r \<noteq> EOTHER \<and> fx_asleep fx k' = fx_asleep fx k) \<and>
     (\<forall>k ok k'. fx_wake fx k = (ok, k') \<longrightarrow> ok \<and>
        ((\<forall>t. \<not> fx_asleep fx k t) \<and> fx_asleep fx k' = fx_asleep fx k \<or>
         (\<exists>u. fx_asleep fx k u \<and> fx_asleep fx k' = (fx_asleep fx k)(u := False)))) \<and>
     (\<forall>t k. fx_asleep fx (fx_interrupt fx t k) = (fx_asleep fx k)(t := False))"

text \<open>A kernel that keeps its sleepers in a list, the longest sleeper first.\<close>

definition list_futex :: "nat list futex" where
  "list_futex =
     \<lparr>fx_asleep = (\<lambda>k t. t \<in> set k),
      fx_wait = (\<lambda>t w e k. if w = e then (Waits, if t \<in> set k then k else k @ [t]) else (Errno EAGAIN, k)),
      fx_wake = (\<lambda>k. (True, if k = [] then [] else filter (\<lambda>t. t \<noteq> hd k) k)),
      fx_interrupt = (\<lambda>t k. filter (\<lambda>u. u \<noteq> t) k)\<rparr>"

lemma list_futex_laws: "futex_laws list_futex"
  unfolding futex_laws_def
proof (intro conjI allI impI)
  fix k :: "nat list" and ok k'
  assume wake: "fx_wake list_futex k = (ok, k')"
  then show ok by (simp add: list_futex_def)
  show "(\<forall>t. \<not> fx_asleep list_futex k t) \<and> fx_asleep list_futex k' = fx_asleep list_futex k \<or>
      (\<exists>u. fx_asleep list_futex k u \<and> fx_asleep list_futex k' = (fx_asleep list_futex k)(u := False))"
  proof (cases "k = []")
    case True
    with wake show ?thesis by (simp add: list_futex_def)
  next
    case False
    with wake have "fx_asleep list_futex k (hd k) \<and>
        fx_asleep list_futex k' = (fx_asleep list_futex k)(hd k := False)"
      by (auto simp: list_futex_def fun_eq_iff)
    then show ?thesis by blast
  qed
qed (auto simp: list_futex_def fun_eq_iff split: if_splits)

section \<open>Threads and the system\<close>

datatype 'd lock_pc =
    L_Idle
  | L_Fast          \<comment> \<open>compare and swap in \<open>lock\<close>\<close>
  | L_Try           \<comment> \<open>compare and swap in \<open>try_lock\<close>\<close>
  | L_Spin nat      \<comment> \<open>compare and swap number \<open>spin\<close> in \<open>_lock_slow\<close>\<close>
  | L_Exchange      \<comment> \<open>exchange with \<open>Contended\<close> in \<open>_lock_slow\<close>\<close>
  | L_Wait          \<comment> \<open>call \<open>FUTEX_WAIT\<close>\<close>
  | L_Asleep        \<comment> \<open>in the kernel\<close>
  | L_Critical      \<comment> \<open>the mutex is locked\<close>
  | L_Loaded 'd     \<comment> \<open>\<dots> and the protected data are in a register\<close>
  | U_Wake          \<comment> \<open>call \<open>FUTEX_WAKE\<close> in \<open>unlock\<close>\<close>

record 'd lock_thread =
  t_pc :: "'d lock_pc"
  t_seen :: nat           \<comment> \<open>index in the history of the state\<close>
  t_know :: nat           \<comment> \<open>accesses to the data it knows of\<close>
  t_pauses :: nat         \<comment> \<open>pauses in this call of \<open>lock\<close>\<close>
  t_got :: "bool option"  \<comment> \<open>result of \<open>try_lock\<close>\<close>

record ('d, 'k) mutex_sys =
  states :: "mutex_state list"   \<comment> \<open>history of \<open>_state\<close>, the latest value last\<close>
  handed :: nat                  \<comment> \<open>accesses the latest value carries\<close>
  shared :: 'd                   \<comment> \<open>the protected data\<close>
  accesses :: nat                \<comment> \<open>accesses to them\<close>
  updates :: "('d \<Rightarrow> 'd) list"   \<comment> \<open>completed updates, auxiliary\<close>
  threads :: "nat \<Rightarrow> 'd lock_thread"
  kern :: 'k
  mx_fault :: "fault option"
  mx_terminated :: bool          \<comment> \<open>\<open>std::terminate\<close> has been called\<close>

abbreviation cur_state :: "('d, 'k) mutex_sys \<Rightarrow> mutex_state" where
  "cur_state s \<equiv> last (states s)"

definition set_thread :: "nat \<Rightarrow> 'd lock_thread \<Rightarrow> ('d, 'k) mutex_sys \<Rightarrow> ('d, 'k) mutex_sys" where
  "set_thread t th s = s\<lparr>threads := (threads s)(t := th)\<rparr>"

text \<open>
  A read-modify-write with acquire ordering: the thread learns what the latest value
  carries, and the new value carries it on.
\<close>

definition acquire_rmw :: "nat \<Rightarrow> mutex_state \<Rightarrow> 'd lock_pc \<Rightarrow> ('d, 'k) mutex_sys \<Rightarrow> ('d, 'k) mutex_sys" where
  "acquire_rmw t new l s =
     set_thread t ((threads s t)\<lparr>t_pc := l, t_seen := length (states s),
       t_know := max (t_know (threads s t)) (handed s)\<rparr>) (s\<lparr>states := states s @ [new]\<rparr>)"

definition release_rmw :: "nat \<Rightarrow> mutex_state \<Rightarrow> 'd lock_pc \<Rightarrow> ('d, 'k) mutex_sys \<Rightarrow> ('d, 'k) mutex_sys" where
  "release_rmw t new l s =
     set_thread t ((threads s t)\<lparr>t_pc := l, t_seen := length (states s)\<rparr>)
       (s\<lparr>states := states s @ [new], handed := max (handed s) (t_know (threads s t))\<rparr>)"

text \<open>The head of the spin loop: pause and go on to the compare and swap, or leave the loop.\<close>

definition spin_head :: "nat \<Rightarrow> 'd lock_thread \<Rightarrow> 'd lock_thread" where
  "spin_head n th =
     (if n < spin_count then th\<lparr>t_pc := L_Spin n, t_pauses := t_pauses th + backoff n\<rparr>
      else th\<lparr>t_pc := L_Exchange\<rparr>)"

section \<open>Operations\<close>

text \<open>A compare and swap of \<open>Free\<close> to \<open>Locked\<close> that succeeds.\<close>

fun lock_cas :: "nat \<Rightarrow> 'd lock_pc \<Rightarrow> ('d, 'k) mutex_sys \<Rightarrow> ('d, 'k) mutex_sys option" where
  "lock_cas t L_Fast s = (if cur_state s = Free then Some (acquire_rmw t Locked L_Critical s) else None)"
| "lock_cas t L_Try s =
     (if cur_state s = Free then
        Some (set_thread t ((threads (acquire_rmw t Locked L_Critical s) t)\<lparr>t_got := Some True\<rparr>)
               (acquire_rmw t Locked L_Critical s))
      else None)"
| "lock_cas t (L_Spin n) s = (if cur_state s = Free then Some (acquire_rmw t Locked L_Critical s) else None)"
| "lock_cas t _ s = None"

text \<open>One that fails: it loads the value number \<open>c\<close>, which is not \<open>Free\<close>.\<close>

fun lock_cas_fails :: "nat \<Rightarrow> nat \<Rightarrow> 'd lock_pc \<Rightarrow> ('d, 'k) mutex_sys \<Rightarrow> ('d, 'k) mutex_sys option" where
  "lock_cas_fails t c L_Fast s =
     (if t_seen (threads s t) \<le> c \<and> c < length (states s) \<and> states s ! c \<noteq> Free then
        Some (set_thread t (spin_head 0 ((threads s t)\<lparr>t_seen := c\<rparr>)) s)
      else None)"
| "lock_cas_fails t c L_Try s =
     (if t_seen (threads s t) \<le> c \<and> c < length (states s) \<and> states s ! c \<noteq> Free then
        Some (set_thread t ((threads s t)\<lparr>t_seen := c, t_pc := L_Idle, t_got := Some False\<rparr>) s)
      else None)"
| "lock_cas_fails t c (L_Spin n) s =
     (if t_seen (threads s t) \<le> c \<and> c < length (states s) \<and> states s ! c \<noteq> Free then
        Some (set_thread t (spin_head (n + 1) ((threads s t)\<lparr>t_seen := c\<rparr>)) s)
      else None)"
| "lock_cas_fails t c _ s = None"

text \<open>The rest of \<open>_lock_slow\<close>, \<open>_futex_wait\<close> and \<open>_futex_wake\<close>.\<close>

fun wait_returns :: "nat \<Rightarrow> wait_reply \<times> 'k \<Rightarrow> ('d, 'k) mutex_sys \<Rightarrow> ('d, 'k) mutex_sys" where
  "wait_returns t (Waits, k) s = set_thread t ((threads s t)\<lparr>t_pc := L_Asleep\<rparr>) (s\<lparr>kern := k\<rparr>)"
| "wait_returns t (Errno e, k) s =
     (if e \<noteq> EAGAIN \<and> e \<noteq> EINTR then s\<lparr>kern := k, mx_terminated := True\<rparr>
      else set_thread t ((threads s t)\<lparr>t_pc := L_Exchange\<rparr>) (s\<lparr>kern := k\<rparr>))"

fun wake_returns :: "nat \<Rightarrow> bool \<times> 'k \<Rightarrow> ('d, 'k) mutex_sys \<Rightarrow> ('d, 'k) mutex_sys" where
  "wake_returns t (ok, k) s =
     (if ok then set_thread t ((threads s t)\<lparr>t_pc := L_Idle\<rparr>) (s\<lparr>kern := k\<rparr>)
      else s\<lparr>kern := k, mx_terminated := True\<rparr>)"

fun lock_step :: "'k futex \<Rightarrow> nat \<Rightarrow> 'd lock_pc \<Rightarrow> ('d, 'k) mutex_sys \<Rightarrow> ('d, 'k) mutex_sys option" where
  "lock_step fx t L_Exchange s =
     Some (acquire_rmw t Contended (if taken_bit (cur_state s) then L_Wait else L_Critical) s)"
| "lock_step fx t L_Wait s =
     Some (wait_returns t (fx_wait fx t (state_code (cur_state s)) (state_code Contended) (kern s)) s)"
| "lock_step fx t L_Asleep s =
     (if fx_asleep fx (kern s) t then None
      else Some (set_thread t ((threads s t)\<lparr>t_pc := L_Exchange\<rparr>) s))"
| "lock_step fx t U_Wake s = Some (wake_returns t (fx_wake fx (kern s)) s)"
| "lock_step fx t _ s = None"

definition unlock :: "nat \<Rightarrow> ('d, 'k) mutex_sys \<Rightarrow> ('d, 'k) mutex_sys" where
  "unlock t s = release_rmw t Free (if cur_state s = Contended then U_Wake else L_Idle) s"

text \<open>
  The client, between \<open>lock\<close> and \<open>unlock\<close>: an update is a load and a store, as \<open>++shared\<close>
  in examples/mutex.cpp is.
\<close>

definition touch :: "nat \<Rightarrow> 'd lock_pc \<Rightarrow> ('d, 'k) mutex_sys \<Rightarrow> ('d, 'k) mutex_sys" where
  "touch t l s =
     (if t_know (threads s t) \<noteq> accesses s then s\<lparr>mx_fault := Some DataRace\<rparr>
      else set_thread t ((threads s t)\<lparr>t_pc := l, t_know := accesses s + 1\<rparr>)
             (s\<lparr>accesses := accesses s + 1\<rparr>))"

fun update_step :: "nat \<Rightarrow> ('d \<Rightarrow> 'd) \<Rightarrow> 'd lock_pc \<Rightarrow> ('d, 'k) mutex_sys \<Rightarrow> ('d, 'k) mutex_sys option" where
  "update_step t f L_Critical s = Some (touch t (L_Loaded (shared s)) s)"
| "update_step t f (L_Loaded d) s =
     Some (touch t L_Critical (s\<lparr>shared := f d, updates := updates s @ [f]\<rparr>))"
| "update_step t f _ s = None"

datatype 'd mutex_action =
    CallLock nat
  | CallTryLock nat
  | CallUnlock nat
  | CasWins nat
  | CasFails nat nat
  | Proceed nat
  | Update nat "'d \<Rightarrow> 'd"
  | Interrupt nat

fun mutex_do ::
  "'k futex \<Rightarrow> 'd mutex_action \<Rightarrow> ('d, 'k) mutex_sys \<Rightarrow> ('d, 'k) mutex_sys option" where
  "mutex_do fx (CallLock t) s =
     (if t_pc (threads s t) = L_Idle
      then Some (set_thread t ((threads s t)\<lparr>t_pc := L_Fast, t_pauses := 0\<rparr>) s) else None)"
| "mutex_do fx (CallTryLock t) s =
     (if t_pc (threads s t) = L_Idle
      then Some (set_thread t ((threads s t)\<lparr>t_pc := L_Try, t_got := None\<rparr>) s) else None)"
| "mutex_do fx (CallUnlock t) s = (if t_pc (threads s t) = L_Critical then Some (unlock t s) else None)"
| "mutex_do fx (CasWins t) s = lock_cas t (t_pc (threads s t)) s"
| "mutex_do fx (CasFails t c) s = lock_cas_fails t c (t_pc (threads s t)) s"
| "mutex_do fx (Proceed t) s = lock_step fx t (t_pc (threads s t)) s"
| "mutex_do fx (Update t f) s = update_step t f (t_pc (threads s t)) s"
| "mutex_do fx (Interrupt t) s = Some (s\<lparr>kern := fx_interrupt fx t (kern s)\<rparr>)"

definition mutex_act ::
  "'k futex \<Rightarrow> 'd mutex_action \<Rightarrow> ('d, 'k) mutex_sys \<Rightarrow> ('d, 'k) mutex_sys option" where
  "mutex_act fx a s = (if mx_fault s = None \<and> \<not> mx_terminated s then mutex_do fx a s else None)"

inductive mutex_step :: "'k futex \<Rightarrow> ('d, 'k) mutex_sys \<Rightarrow> ('d, 'k) mutex_sys \<Rightarrow> bool"
  for fx :: "'k futex" where
  "mutex_act fx a s = Some t \<Longrightarrow> mutex_step fx s t"

inductive_simps mutex_step_iff: "mutex_step fx s t"

definition mutex_init :: "'k futex \<Rightarrow> 'd \<Rightarrow> ('d, 'k) mutex_sys \<Rightarrow> bool" where
  "mutex_init fx d s \<longleftrightarrow> (\<exists>k. (\<forall>t. \<not> fx_asleep fx k t) \<and> s =
     \<lparr>states = [Free], handed = 0, shared = d, accesses = 0, updates = [],
      threads = (\<lambda>t. \<lparr>t_pc = L_Idle, t_seen = 0, t_know = 0, t_pauses = 0, t_got = None\<rparr>),
      kern = k, mx_fault = None, mx_terminated = False\<rparr>)"

abbreviation mutex_reach :: "'k futex \<Rightarrow> 'd \<Rightarrow> ('d, 'k) mutex_sys \<Rightarrow> bool" where
  "mutex_reach fx d \<equiv> reach (mutex_init fx d) (mutex_step fx)"

fun mutex_sched ::
  "'k futex \<Rightarrow> 'd mutex_action list \<Rightarrow> ('d, 'k) mutex_sys \<Rightarrow> ('d, 'k) mutex_sys option" where
  "mutex_sched fx [] s = Some s"
| "mutex_sched fx (a # as) s =
     (case mutex_act fx a s of None \<Rightarrow> None | Some t \<Rightarrow> mutex_sched fx as t)"

section \<open>The invariant\<close>

fun holds :: "'d lock_pc \<Rightarrow> bool" where
  "holds L_Critical = True"
| "holds (L_Loaded d) = True"
| "holds _ = False"

definition spin_pauses :: "nat \<Rightarrow> nat" where
  "spin_pauses n = sum_list (map backoff [0..<n])"

fun pauses_ok :: "'d lock_pc \<Rightarrow> nat \<Rightarrow> bool" where
  "pauses_ok (L_Spin n) p \<longleftrightarrow> n < spin_count \<and> p = spin_pauses (n + 1)"
| "pauses_ok L_Fast p \<longleftrightarrow> p = 0"
| "pauses_ok _ p \<longleftrightarrow> p \<le> spin_pauses spin_count"

definition lock_thread_ok :: "nat \<Rightarrow> nat \<Rightarrow> 'd lock_thread \<Rightarrow> bool" where
  "lock_thread_ok n a th \<longleftrightarrow> t_seen th < n \<and> t_know th \<le> a \<and> pauses_ok (t_pc th) (t_pauses th)"

fun loaded_ok :: "'d lock_pc \<Rightarrow> 'd \<Rightarrow> bool" where
  "loaded_ok (L_Loaded d) x \<longleftrightarrow> d = x"
| "loaded_ok _ x \<longleftrightarrow> True"

text \<open>Who holds the mutex knows of all accesses; if nobody does, its state carries them.\<close>

fun handover_ok :: "nat option \<Rightarrow> ('d, 'k) mutex_sys \<Rightarrow> bool" where
  "handover_ok None s \<longleftrightarrow> handed s = accesses s"
| "handover_ok (Some u) s \<longleftrightarrow> t_know (threads s u) = accesses s \<and> loaded_ok (t_pc (threads s u)) (shared s)"

definition mutex_at :: "'d \<Rightarrow> nat option \<Rightarrow> ('d, 'k) mutex_sys \<Rightarrow> bool" where
  "mutex_at d h s \<longleftrightarrow>
     states s \<noteq> [] \<and> mx_fault s = None \<and> handed s \<le> accesses s \<and>
     (cur_state s = Free \<longleftrightarrow> h = None) \<and> (\<forall>t. holds (t_pc (threads s t)) \<longleftrightarrow> h = Some t) \<and>
     (\<forall>t. lock_thread_ok (length (states s)) (accesses s) (threads s t)) \<and>
     handover_ok h s \<and> shared s = fold (\<lambda>f. f) (updates s) d"

definition mutex_inv :: "'d \<Rightarrow> ('d, 'k) mutex_sys \<Rightarrow> bool" where
  "mutex_inv d s \<longleftrightarrow> (\<exists>h. mutex_at d h s)"

lemma set_thread_simps [simp]:
  "states (set_thread t th s) = states s" "handed (set_thread t th s) = handed s"
  "shared (set_thread t th s) = shared s" "accesses (set_thread t th s) = accesses s"
  "updates (set_thread t th s) = updates s" "threads (set_thread t th s) = (threads s)(t := th)"
  "kern (set_thread t th s) = kern s" "mx_fault (set_thread t th s) = mx_fault s"
  "mx_terminated (set_thread t th s) = mx_terminated s"
  by (simp_all add: set_thread_def)

lemma backoff_eq: "backoff n = 2 ^ min n 10"
  by (simp add: backoff_def push_bit_eq_mult min_def)

lemma spin_pauses_Suc [simp]: "spin_pauses (Suc n) = spin_pauses n + backoff n"
  by (simp add: spin_pauses_def)

lemma spin_pauses_0 [simp]: "spin_pauses 0 = 0"
  by (simp add: spin_pauses_def)

lemma spin_pauses_total: "spin_pauses spin_count = 13311"
  by (simp add: spin_pauses_def spin_count_def backoff_eq upt_rec)

lemma spin_pauses_mono: "m \<le> n \<Longrightarrow> spin_pauses m \<le> spin_pauses n"
  by (induction n) (auto simp: le_Suc_eq)

lemma pauses_ok_le: "pauses_ok l p \<Longrightarrow> p \<le> spin_pauses spin_count"
proof (cases l)
  case (L_Spin n)
  moreover assume "pauses_ok l p"
  ultimately show ?thesis using spin_pauses_mono [of "Suc n" spin_count] by simp
qed simp_all

lemma lock_thread_ok_mono:
  "lock_thread_ok n a th \<Longrightarrow> n \<le> n' \<Longrightarrow> a \<le> a' \<Longrightarrow> lock_thread_ok n' a' th"
  by (auto simp: lock_thread_ok_def)

lemma mutex_inv_init: "mutex_init fx d s \<Longrightarrow> mutex_inv d s"
  by (auto simp: mutex_init_def mutex_inv_def mutex_at_def lock_thread_ok_def intro: exI [of _ None])

lemma mutex_atD:
  assumes "mutex_at d h s"
  shows "states s \<noteq> []" "mx_fault s = None" "handed s \<le> accesses s" "cur_state s = Free \<longleftrightarrow> h = None"
    "\<forall>t. holds (t_pc (threads s t)) \<longleftrightarrow> h = Some t"
    "\<forall>t. lock_thread_ok (length (states s)) (accesses s) (threads s t)"
    "handover_ok h s" "shared s = fold (\<lambda>f. f) (updates s) d"
  using assms by (simp_all add: mutex_at_def)

text \<open>A step of a thread that does not hold the mutex and does not touch its state.\<close>

lemma mutex_at_local:
  assumes at: "mutex_at d h s" and th: "lock_thread_ok (length (states s)) (accesses s) th"
    and free: "\<not> holds (t_pc (threads s t))" "\<not> holds (t_pc th)"
  shows "mutex_at d h (set_thread t th (s\<lparr>kern := k\<rparr>))"
proof -
  note a = mutex_atD [OF at]
  have ne: "h \<noteq> Some t" using a(5) free(1) by blast
  then have "handover_ok h (set_thread t th (s\<lparr>kern := k\<rparr>))"
    using a(7) by (cases h) auto
  moreover have "\<forall>u. holds (t_pc (threads (set_thread t th (s\<lparr>kern := k\<rparr>)) u)) \<longleftrightarrow> h = Some u"
    using a(5) free(2) ne by simp
  moreover have "\<forall>u. lock_thread_ok (length (states s)) (accesses s)
      (threads (set_thread t th (s\<lparr>kern := k\<rparr>)) u)"
    using a(6) th by simp
  ultimately show ?thesis using a unfolding mutex_at_def by simp
qed

lemma mutex_at_local_thread:
  assumes "mutex_at d h s" and "lock_thread_ok (length (states s)) (accesses s) th"
    and "\<not> holds (t_pc (threads s t))" and "\<not> holds (t_pc th)"
  shows "mutex_at d h (set_thread t th s)"
  using mutex_at_local [OF assms, of "kern s"] by simp

text \<open>A read-modify-write of a thread that finds the mutex free makes it the holder.\<close>

lemma acquire_free:
  assumes at: "mutex_at d h s" and free: "cur_state s = Free" and new: "new \<noteq> Free"
    and p: "\<And>n. t_pauses (threads s t) \<le> spin_pauses spin_count"
  shows "mutex_at d (Some t) (acquire_rmw t new L_Critical s)"
proof -
  note a = mutex_atD [OF at]
  from free a(4) have h: "h = None" by simp
  with a(7) have all: "handed s = accesses s" by simp
  have "t_know (threads s t) \<le> accesses s" using a(6) by (simp add: lock_thread_ok_def)
  then have kn: "max (t_know (threads s t)) (handed s) = accesses s" using all by simp
  have "\<forall>u. lock_thread_ok (Suc (length (states s))) (accesses s) (threads s u)"
    using a(6) lock_thread_ok_mono by (metis le_SucI le_refl)
  with a h kn new p show ?thesis
    by (auto simp: mutex_at_def acquire_rmw_def lock_thread_ok_def)
qed

text \<open>One that finds it taken marks it contended and changes nothing else.\<close>

lemma acquire_taken:
  assumes at: "mutex_at d h s" and taken: "cur_state s \<noteq> Free" and free: "\<not> holds (t_pc (threads s t))"
  shows "mutex_at d h (acquire_rmw t Contended L_Wait s)"
proof -
  note a = mutex_atD [OF at]
  from taken a(4) obtain u where h: "h = Some u" by auto
  with a(5) free have ne: "u \<noteq> t" by auto
  have all: "\<forall>u. lock_thread_ok (Suc (length (states s))) (accesses s) (threads s u)"
    using a(6) lock_thread_ok_mono by (metis le_SucI le_refl)
  then have "lock_thread_ok (Suc (length (states s))) (accesses s) (threads s t)" by blast
  then have "t_know (threads s t) \<le> accesses s" "t_pauses (threads s t) \<le> spin_pauses spin_count"
    using pauses_ok_le by (auto simp: lock_thread_ok_def)
  with a h ne all show ?thesis
    by (auto simp: mutex_at_def acquire_rmw_def lock_thread_ok_def)
qed

lemma unlock_at:
  assumes at: "mutex_at d h s" and crit: "t_pc (threads s t) = L_Critical"
  shows "mutex_at d None (unlock t s)"
proof -
  note a = mutex_atD [OF at]
  from a(5) crit have h: "h = Some t" by (metis holds.simps(1))
  with a(7) have kn: "t_know (threads s t) = accesses s" by simp
  have all: "\<forall>u. lock_thread_ok (Suc (length (states s))) (accesses s) (threads s u)"
    using a(6) lock_thread_ok_mono by (metis le_SucI le_refl)
  then have "lock_thread_ok (Suc (length (states s))) (accesses s) (threads s t)" by blast
  then have "t_pauses (threads s t) \<le> spin_pauses spin_count"
    using pauses_ok_le by (auto simp: lock_thread_ok_def)
  with a h kn all show ?thesis
    by (auto simp: mutex_at_def unlock_def release_rmw_def lock_thread_ok_def)
qed

lemma touch_at:
  assumes at: "mutex_at d (Some t) s" and l: "holds l" "loaded_ok l x"
    and x: "x = fold (\<lambda>f. f) us d"
  shows "mutex_at d (Some t) (touch t l (s\<lparr>shared := x, updates := us\<rparr>))"
proof -
  note a = mutex_atD [OF at]
  from a(7) have kn: "t_know (threads s t) = accesses s" by simp
  have all: "\<forall>u. lock_thread_ok (length (states s)) (Suc (accesses s)) (threads s u)"
    using a(6) lock_thread_ok_mono by (metis le_SucI le_refl)
  then have ok: "lock_thread_ok (length (states s)) (Suc (accesses s)) (threads s t)" by blast
  then have "t_pauses (threads s t) \<le> spin_pauses spin_count"
    using pauses_ok_le by (auto simp: lock_thread_ok_def)
  moreover have "pauses_ok l p = (p \<le> spin_pauses spin_count)" for p
    using l(1) by (cases l) simp_all
  ultimately show ?thesis using a kn all ok l x
    by (auto simp: mutex_at_def touch_def lock_thread_ok_def)
qed

lemma mutex_at_kern:
  assumes "mutex_at d h s"
  shows "mutex_at d h (s\<lparr>kern := k\<rparr>)" "mutex_at d h (s\<lparr>kern := k, mx_terminated := b\<rparr>)"
  using assms by (cases h; simp add: mutex_at_def)+

lemma spin_head_simps [simp]:
  "t_seen (spin_head n th) = t_seen th" "t_know (spin_head n th) = t_know th"
  "t_got (spin_head n th) = t_got th" "\<not> holds (t_pc (spin_head n th))"
  by (simp_all add: spin_head_def)

lemma spin_head_pauses:
  assumes "t_pauses th = spin_pauses n" and "n \<le> spin_count"
  shows "pauses_ok (t_pc (spin_head n th)) (t_pauses (spin_head n th))"
  using assms spin_pauses_mono by (auto simp: spin_head_def)

lemma mutex_at_thread:
  assumes "mutex_at d h s"
  shows "t_seen (threads s t) < length (states s)" "t_know (threads s t) \<le> accesses s"
    "pauses_ok (t_pc (threads s t)) (t_pauses (threads s t))"
    "t_pauses (threads s t) \<le> spin_pauses spin_count"
  using mutex_atD(6) [OF assms] pauses_ok_le by (auto simp: lock_thread_ok_def)

text \<open>The accesses of a thread, one kind at a time.\<close>

lemma lock_cas_at:
  assumes at: "mutex_at d h s" and step: "lock_cas t (t_pc (threads s t)) s = Some s'"
  shows "\<exists>h'. mutex_at d h' s'"
proof -
  note th = mutex_at_thread [OF at] and local = mutex_at_local [OF at] and local_thread = mutex_at_local_thread [OF at]
  have acq: "mutex_at d (Some t) (acquire_rmw t Locked L_Critical s)" if "cur_state s = Free"
    using acquire_free [OF at that] th(4) by simp
  show ?thesis
  proof (cases "t_pc (threads s t)")
    case L_Try
    with step have free: "cur_state s = Free"
      and s': "s' = set_thread t ((threads (acquire_rmw t Locked L_Critical s) t)\<lparr>t_got := Some True\<rparr>)
        (acquire_rmw t Locked L_Critical s)" by (auto split: if_split_asm)
    have "mutex_at d (Some t) s'"
      using acq [OF free] unfolding s' by (auto simp: mutex_at_def lock_thread_ok_def)
    then show ?thesis by blast
  qed (use step acq in \<open>auto split: if_split_asm\<close>)
qed

lemma lock_cas_fails_at:
  assumes at: "mutex_at d h s" and step: "lock_cas_fails t c (t_pc (threads s t)) s = Some s'"
  shows "\<exists>h'. mutex_at d h' s'"
proof -
  note th = mutex_at_thread [OF at] and local = mutex_at_local [OF at] and local_thread = mutex_at_local_thread [OF at]
  show ?thesis
  proof (cases "t_pc (threads s t)")
    case L_Fast
    with step have c: "c < length (states s)"
      and s': "s' = set_thread t (spin_head 0 ((threads s t)\<lparr>t_seen := c\<rparr>)) s"
      by (auto split: if_split_asm)
    have "t_pauses (threads s t) = 0" using th(3) [of t] L_Fast by simp
    with c L_Fast spin_head_pauses [of "(threads s t)\<lparr>t_seen := c\<rparr>" 0] have "mutex_at d h s'"
      unfolding s' by (intro local_thread) (simp_all add: lock_thread_ok_def th)
    then show ?thesis by blast
  next
    case L_Try
    with step have c: "c < length (states s)"
      and s': "s' = set_thread t ((threads s t)\<lparr>t_seen := c, t_pc := L_Idle, t_got := Some False\<rparr>) s"
      by (auto split: if_split_asm)
    with L_Try have "mutex_at d h s'"
      unfolding s' by (intro local_thread) (simp_all add: lock_thread_ok_def th)
    then show ?thesis by blast
  next
    case (L_Spin n)
    with step have c: "c < length (states s)"
      and s': "s' = set_thread t (spin_head (n + 1) ((threads s t)\<lparr>t_seen := c\<rparr>)) s"
      by (auto split: if_split_asm)
    have "n < spin_count" "t_pauses (threads s t) = spin_pauses (n + 1)"
      using th(3) [of t] L_Spin by simp_all
    with c L_Spin spin_head_pauses [of "(threads s t)\<lparr>t_seen := c\<rparr>" "n + 1"] have "mutex_at d h s'"
      unfolding s' by (intro local_thread) (simp_all add: lock_thread_ok_def th)
    then show ?thesis by blast
  qed (use step in simp_all)
qed

lemma lock_step_at:
  assumes at: "mutex_at d h s" and step: "lock_step fx t (t_pc (threads s t)) s = Some s'"
  shows "\<exists>h'. mutex_at d h' s'"
proof -
  note th = mutex_at_thread [OF at] and local = mutex_at_local [OF at] and local_thread = mutex_at_local_thread [OF at]
  show ?thesis
  proof (cases "t_pc (threads s t)")
    case L_Exchange
    with step acquire_free [OF at, of Contended t] acquire_taken [OF at, of t] th(4)
    show ?thesis by (cases "cur_state s = Free") (auto simp: taken_bit_iff)
  next
    case L_Wait
    obtain r k where rk: "fx_wait fx t (state_code (cur_state s)) (state_code Contended) (kern s) = (r, k)"
      by fastforce
    have ok: "mutex_at d h (set_thread t ((threads s t)\<lparr>t_pc := l\<rparr>) (s\<lparr>kern := k\<rparr>))"
      if "l = L_Asleep \<or> l = L_Exchange" for l
      using that L_Wait by (intro local) (auto simp: lock_thread_ok_def th)
    show ?thesis
    proof (cases r)
      case Waits
      with step L_Wait rk ok [of L_Asleep] show ?thesis by auto
    next
      case (Errno e)
      with step L_Wait rk ok [of L_Exchange] mutex_at_kern(2) [OF at, where k = k and b = True]
      show ?thesis by (auto split: if_split_asm)
    qed
  next
    case L_Asleep
    with step have s': "s' = set_thread t ((threads s t)\<lparr>t_pc := L_Exchange\<rparr>) s"
      by (auto split: if_split_asm)
    with L_Asleep have "mutex_at d h s'"
      unfolding s' by (intro local_thread) (simp_all add: lock_thread_ok_def th)
    then show ?thesis by blast
  next
    case U_Wake
    obtain ok k where rk: "fx_wake fx (kern s) = (ok, k)" by fastforce
    have "mutex_at d h (set_thread t ((threads s t)\<lparr>t_pc := L_Idle\<rparr>) (s\<lparr>kern := k\<rparr>))"
      using U_Wake by (intro local) (auto simp: lock_thread_ok_def th)
    with step U_Wake rk mutex_at_kern(2) [OF at, where k = k and b = True]
    show ?thesis by (auto split: if_split_asm)
  qed (use step in simp_all)
qed

lemma update_step_at:
  assumes at: "mutex_at d h s" and step: "update_step t f (t_pc (threads s t)) s = Some s'"
  shows "\<exists>h'. mutex_at d h' s'"
proof -
  note th = mutex_at_thread [OF at] and local = mutex_at_local [OF at] and local_thread = mutex_at_local_thread [OF at]
  note A = mutex_atD [OF at]
  have holder: "h = Some t" if "holds (t_pc (threads s t))" using that A(5) by simp
  show ?thesis
  proof (cases "t_pc (threads s t)")
    case L_Critical
    with holder have h: "h = Some t" by simp
    from touch_at [OF at [unfolded h], of "L_Loaded (shared s)" "shared s" "updates s", OF _ _ A(8)]
    have "mutex_at d (Some t) (touch t (L_Loaded (shared s)) s)" by simp
    with step L_Critical show ?thesis by auto
  next
    case (L_Loaded x)
    with holder have h: "h = Some t" by simp
    with A(7) L_Loaded have "x = shared s" by simp
    with A(8) have "f x = fold (\<lambda>f. f) (updates s @ [f]) d" by simp
    from touch_at [OF at [unfolded h], of L_Critical "f x", OF _ _ this]
    have "mutex_at d (Some t) (touch t L_Critical (s\<lparr>shared := f x, updates := updates s @ [f]\<rparr>))" by simp
    with step L_Loaded show ?thesis by auto
  qed (use step in simp_all)
qed

lemma mutex_do_inv:
  assumes inv: "mutex_inv d s" and step: "mutex_do fx a s = Some s'"
  shows "mutex_inv d s'"
proof -
  from inv obtain h where at: "mutex_at d h s" by (auto simp: mutex_inv_def)
  note th = mutex_at_thread [OF at] and local_thread = mutex_at_local_thread [OF at]
  have "\<exists>h'. mutex_at d h' s'"
  proof (cases a)
    case (CallLock t)
    with step have "t_pc (threads s t) = L_Idle"
      and s': "s' = set_thread t ((threads s t)\<lparr>t_pc := L_Fast, t_pauses := 0\<rparr>) s"
      by (auto split: if_split_asm)
    then have "mutex_at d h s'" unfolding s'
      by (intro local_thread) (simp_all add: lock_thread_ok_def th)
    then show ?thesis by blast
  next
    case (CallTryLock t)
    with step have "t_pc (threads s t) = L_Idle"
      and s': "s' = set_thread t ((threads s t)\<lparr>t_pc := L_Try, t_got := None\<rparr>) s"
      by (auto split: if_split_asm)
    then have "mutex_at d h s'" unfolding s'
      by (intro local_thread) (simp_all add: lock_thread_ok_def th)
    then show ?thesis by blast
  next
    case (CallUnlock t)
    with step unlock_at [OF at] show ?thesis by (auto split: if_split_asm)
  next
    case (CasWins t)
    with step lock_cas_at [OF at, of t] show ?thesis by simp
  next
    case (CasFails t c)
    with step lock_cas_fails_at [OF at, of t c] show ?thesis by simp
  next
    case (Proceed t)
    with step lock_step_at [OF at, of fx t] show ?thesis by simp
  next
    case (Update t f)
    with step update_step_at [OF at, of t f] show ?thesis by simp
  next
    case (Interrupt t)
    with step mutex_at_kern(1) [OF at] show ?thesis by auto
  qed
  then show ?thesis by (simp add: mutex_inv_def)
qed

lemma mutex_act_inv: "mutex_inv d s \<Longrightarrow> mutex_act fx a s = Some s' \<Longrightarrow> mutex_inv d s'"
  by (auto simp: mutex_act_def split: if_split_asm intro: mutex_do_inv)

interpretation mutex_run: invariant_system "mutex_init fx d" "mutex_step fx" "mutex_inv d"
  for fx :: "'k futex" and d :: 'd
  by unfold_locales (auto simp: mutex_step_iff intro: mutex_inv_init mutex_act_inv)

section \<open>For the clients of the mutex\<close>

text \<open>The thread is in \<open>lock\<close>, in \<open>try_lock\<close> or holds the mutex.\<close>

fun in_body :: "'d lock_pc \<Rightarrow> bool" where
  "in_body L_Idle = False"
| "in_body U_Wake = False"
| "in_body _ = True"

text \<open>What the operations of the mutex leave alone.\<close>

fun actor :: "'d mutex_action \<Rightarrow> nat" where
  "actor (CallLock t) = t"
| "actor (CallTryLock t) = t"
| "actor (CallUnlock t) = t"
| "actor (CasWins t) = t"
| "actor (CasFails t c) = t"
| "actor (Proceed t) = t"
| "actor (Update t f) = t"
| "actor (Interrupt t) = t"

fun is_update :: "'d mutex_action \<Rightarrow> bool" where
  "is_update (Update t f) = True"
| "is_update _ = False"

lemma mutex_do_others:
  assumes "mutex_do fx a s = Some s'" and "u \<noteq> actor a"
  shows "threads s' u = threads s u"
proof (cases a)
  case (CasWins t)
  with assms show ?thesis
    by (cases "t_pc (threads s t)") (auto simp: acquire_rmw_def split: if_splits)
next
  case (CasFails t c)
  with assms show ?thesis by (cases "t_pc (threads s t)") (auto split: if_splits)
next
  case (Proceed t)
  with assms show ?thesis
    by (cases "t_pc (threads s t)"; cases "fx_wait fx t (state_code (cur_state s)) (state_code Contended) (kern s)";
        cases "fst (fx_wait fx t (state_code (cur_state s)) (state_code Contended) (kern s))";
        cases "fx_wake fx (kern s)") (auto simp: acquire_rmw_def split: if_splits)
next
  case (Update t f)
  with assms show ?thesis by (cases "t_pc (threads s t)") (auto simp: touch_def split: if_splits)
qed (use assms in \<open>auto simp: unlock_def release_rmw_def split: if_splits\<close>)

lemma mutex_do_updates:
  assumes "mutex_do fx a s = Some s'" and "\<not> is_update a"
  shows "updates s' = updates s"
proof (cases a)
  case (CasWins t)
  with assms show ?thesis
    by (cases "t_pc (threads s t)") (auto simp: acquire_rmw_def split: if_splits)
next
  case (CasFails t c)
  with assms show ?thesis by (cases "t_pc (threads s t)") (auto split: if_splits)
next
  case (Proceed t)
  with assms show ?thesis
    by (cases "t_pc (threads s t)"; cases "fx_wait fx t (state_code (cur_state s)) (state_code Contended) (kern s)";
        cases "fst (fx_wait fx t (state_code (cur_state s)) (state_code Contended) (kern s))";
        cases "fx_wake fx (kern s)") (auto simp: acquire_rmw_def split: if_splits)
qed (use assms in \<open>auto simp: unlock_def release_rmw_def split: if_splits\<close>)

fun is_access :: "'d mutex_action \<Rightarrow> bool" where
  "is_access (CasWins t) = True"
| "is_access (CasFails t c) = True"
| "is_access (Proceed t) = True"
| "is_access _ = False"

lemma mutex_do_access:
  assumes "mutex_do fx a s = Some s'" and "is_access a"
  shows "\<not> holds (t_pc (threads s (actor a)))"
    "in_body (t_pc (threads s' (actor a))) \<Longrightarrow> in_body (t_pc (threads s (actor a)))"
proof -
  have "\<not> holds (t_pc (threads s (actor a))) \<and>
      (in_body (t_pc (threads s' (actor a))) \<longrightarrow> in_body (t_pc (threads s (actor a))))"
  proof (cases a)
    case (CasWins t)
    with assms show ?thesis by (cases "t_pc (threads s t)") (auto split: if_splits)
  next
    case (CasFails t c)
    with assms show ?thesis by (cases "t_pc (threads s t)") (auto split: if_splits)
  next
    case (Proceed t)
    with assms show ?thesis
      by (cases "t_pc (threads s t)"; cases "fx_wake fx (kern s)") (auto split: if_splits)
  qed (use assms in simp_all)
  then show "\<not> holds (t_pc (threads s (actor a)))"
    "in_body (t_pc (threads s' (actor a))) \<Longrightarrow> in_body (t_pc (threads s (actor a)))" by blast+
qed

lemma mutex_access_stays:
  assumes "mutex_do fx a s = Some s'" and "is_access a" and "in_body (t_pc (threads s (actor a)))"
    and "t_pc (threads s (actor a)) \<noteq> L_Try"
  shows "in_body (t_pc (threads s' (actor a))) \<and> t_pc (threads s' (actor a)) \<noteq> L_Try"
proof (cases a)
  case (CasWins t)
  with assms show ?thesis by (cases "t_pc (threads s t)") (auto simp: acquire_rmw_def split: if_splits)
next
  case (CasFails t c)
  with assms show ?thesis by (cases "t_pc (threads s t)") (auto simp: spin_head_def split: if_splits)
next
  case (Proceed t)
  with assms show ?thesis
    by (cases "t_pc (threads s t)"; cases "fx_wait fx t (state_code (cur_state s)) (state_code Contended) (kern s)";
        cases "fst (fx_wait fx t (state_code (cur_state s)) (state_code Contended) (kern s))")
      (auto simp: acquire_rmw_def split: if_splits)
qed (use assms in simp_all)

lemma mutex_inv_shared: "mutex_inv d s \<Longrightarrow> shared s = fold (\<lambda>f. f) (updates s) d"
  by (auto simp: mutex_inv_def mutex_at_def)

lemma mutex_do_shared:
  assumes "mutex_inv d s" and "mutex_do fx a s = Some s'" and "\<not> is_update a"
  shows "shared s' = shared s"
  using mutex_inv_shared [OF assms(1)] mutex_inv_shared [OF mutex_do_inv [OF assms(1,2)]]
    mutex_do_updates [OF assms(2,3)] by simp

lemma mutex_loaded_current:
  assumes "mutex_inv d s" and "t_pc (threads s t) = L_Loaded x"
  shows "x = shared s"
proof -
  from assms(1) obtain h where at: "mutex_at d h s" by (auto simp: mutex_inv_def)
  from assms(2) mutex_atD(5) [OF at] have "h = Some t" by (metis holds.simps(2))
  with mutex_atD(7) [OF at] assms(2) show ?thesis by simp
qed

section \<open>No wake-up is lost\<close>

text \<open>Threads that will set the state to \<open>Contended\<close> next.\<close>

definition retries :: "'k futex \<Rightarrow> ('d, 'k) mutex_sys \<Rightarrow> nat \<Rightarrow> bool" where
  "retries fx s u \<longleftrightarrow> t_pc (threads s u) = L_Exchange \<or>
     t_pc (threads s u) = L_Asleep \<and> \<not> fx_asleep fx (kern s) u"

definition sleepers_ok :: "'k futex \<Rightarrow> ('d, 'k) mutex_sys \<Rightarrow> bool" where
  "sleepers_ok fx s \<longleftrightarrow> \<not> mx_terminated s \<and>
     (\<forall>t. fx_asleep fx (kern s) t \<longrightarrow> t_pc (threads s t) = L_Asleep) \<and>
     ((\<exists>t. fx_asleep fx (kern s) t) \<longrightarrow> cur_state s = Contended \<or>
        (\<exists>u. t_pc (threads s u) = U_Wake \<or> retries fx s u))"

lemma futex_lawsD:
  assumes "futex_laws fx"
  shows "fx_wait fx t w e k = (Waits, k') \<Longrightarrow> w = e \<and> fx_asleep fx k' = (fx_asleep fx k)(t := True)"
    "fx_wait fx t w e k = (Errno r, k') \<Longrightarrow> r \<noteq> EOTHER \<and> fx_asleep fx k' = fx_asleep fx k"
    "fx_wake fx k = (ok, k') \<Longrightarrow> ok \<and> ((\<forall>t. \<not> fx_asleep fx k t) \<and> fx_asleep fx k' = fx_asleep fx k \<or>
       (\<exists>u. fx_asleep fx k u \<and> fx_asleep fx k' = (fx_asleep fx k)(u := False)))"
    "fx_asleep fx (fx_interrupt fx t k) = (fx_asleep fx k)(t := False)"
  using assms unfolding futex_laws_def by blast+

text \<open>
  A step of a thread that is not about to wake or to retry, which leaves the kernel and
  \<open>Contended\<close> alone, keeps the promise to the sleepers.
\<close>

lemma sleepers_ok_frame:
  assumes ok: "sleepers_ok fx s" and k: "kern s' = kern s" "mx_terminated s' = mx_terminated s"
    and others: "\<And>u. u \<noteq> t \<Longrightarrow> t_pc (threads s' u) = t_pc (threads s u)"
    and t: "t_pc (threads s t) \<noteq> L_Asleep" "t_pc (threads s t) \<noteq> U_Wake" "t_pc (threads s t) \<noteq> L_Exchange"
    and st: "cur_state s = Contended \<Longrightarrow> cur_state s' = Contended \<or> t_pc (threads s' t) = U_Wake"
  shows "sleepers_ok fx s'"
proof -
  have "t_pc (threads s' x) = L_Asleep" if "fx_asleep fx (kern s) x" for x
    using ok that t(1) others [of x] by (cases "x = t") (auto simp: sleepers_ok_def)
  moreover have "cur_state s' = Contended \<or> (\<exists>u. t_pc (threads s' u) = U_Wake \<or> retries fx s' u)"
    if x: "fx_asleep fx (kern s) x" for x
  proof -
    from ok x consider "cur_state s = Contended" | u where "t_pc (threads s u) = U_Wake \<or> retries fx s u"
      by (auto simp: sleepers_ok_def)
    then show ?thesis
    proof cases
      case (2 u)
      with t have "u \<noteq> t" by (auto simp: retries_def)
      with others [of u] 2 k(1) have "t_pc (threads s' u) = U_Wake \<or> retries fx s' u"
        by (simp add: retries_def)
      then show ?thesis by blast
    qed (use st in blast)
  qed
  ultimately show ?thesis using ok k unfolding sleepers_ok_def by auto
qed

lemma rmw_simps [simp]:
  "states (acquire_rmw t new l s) = states s @ [new]" "kern (acquire_rmw t new l s) = kern s"
  "mx_terminated (acquire_rmw t new l s) = mx_terminated s"
  "t_pc (threads (acquire_rmw t new l s) u) = (if u = t then l else t_pc (threads s u))"
  "states (release_rmw t new l s) = states s @ [new]" "kern (release_rmw t new l s) = kern s"
  "mx_terminated (release_rmw t new l s) = mx_terminated s"
  "t_pc (threads (release_rmw t new l s) u) = (if u = t then l else t_pc (threads s u))"
  by (simp_all add: acquire_rmw_def release_rmw_def)

lemma touch_simps [simp]:
  "states (touch t l s) = states s" "kern (touch t l s) = kern s"
  "mx_terminated (touch t l s) = mx_terminated s"
  "u \<noteq> t \<Longrightarrow> t_pc (threads (touch t l s) u) = t_pc (threads s u)"
  by (simp_all add: touch_def)

lemma sleepers_ok_retry:
  assumes ok: "sleepers_ok fx s" and k: "fx_asleep fx (kern s') = fx_asleep fx (kern s)"
    "\<not> mx_terminated s'" and awake: "\<not> fx_asleep fx (kern s) t"
    and others: "\<And>u. u \<noteq> t \<Longrightarrow> t_pc (threads s' u) = t_pc (threads s u)"
    and t: "t_pc (threads s' t) = L_Exchange \<or> cur_state s' = Contended"
  shows "sleepers_ok fx s'"
proof -
  have "t_pc (threads s' x) = L_Asleep" if "fx_asleep fx (kern s) x" for x
    using ok that awake others [of x] by (cases "x = t") (auto simp: sleepers_ok_def)
  moreover have "cur_state s' = Contended \<or> (\<exists>u. t_pc (threads s' u) = U_Wake \<or> retries fx s' u)"
    using t by (auto simp: retries_def)
  ultimately show ?thesis using k unfolding sleepers_ok_def by auto
qed

lemma wake_sleepers_ok:
  assumes laws: "futex_laws fx" and ok: "sleepers_ok fx s" and pc: "t_pc (threads s t) = U_Wake"
    and wake: "fx_wake fx (kern s) = (r, k)"
  shows "sleepers_ok fx (wake_returns t (r, k) s)"
proof -
  from futex_lawsD(3) [OF laws wake] have r: r by blast
  let ?s = "set_thread t ((threads s t)\<lparr>t_pc := L_Idle\<rparr>) (s\<lparr>kern := k\<rparr>)"
  have t: "\<not> fx_asleep fx (kern s) t" using ok pc by (auto simp: sleepers_ok_def)
  from futex_lawsD(3) [OF laws wake] have "sleepers_ok fx ?s"
  proof (elim conjE disjE exE)
    assume "\<forall>t. \<not> fx_asleep fx (kern s) t" "fx_asleep fx k = fx_asleep fx (kern s)"
    with ok show ?thesis by (simp add: sleepers_ok_def)
  next
    fix u assume u: "fx_asleep fx (kern s) u" "fx_asleep fx k = (fx_asleep fx (kern s))(u := False)"
    with ok have "t_pc (threads s u) = L_Asleep" by (simp add: sleepers_ok_def)
    with u t have "retries fx ?s u" by (auto simp: retries_def)
    moreover have "t_pc (threads ?s x) = L_Asleep" if "fx_asleep fx k x" for x
    proof -
      from that u(2) have "fx_asleep fx (kern s) x" by (simp split: if_split_asm)
      with ok t show ?thesis by (auto simp: sleepers_ok_def)
    qed
    moreover have "\<not> mx_terminated ?s" "kern ?s = k" using ok by (simp_all add: sleepers_ok_def)
    ultimately show ?thesis unfolding sleepers_ok_def by metis
  qed
  with r show ?thesis by simp
qed

lemma wait_sleepers_ok:
  assumes laws: "futex_laws fx" and ok: "sleepers_ok fx s" and pc: "t_pc (threads s t) = L_Wait"
    and wait: "fx_wait fx t (state_code (cur_state s)) (state_code Contended) (kern s) = (r, k)"
  shows "sleepers_ok fx (wait_returns t (r, k) s)"
proof (cases r)
  case Waits
  with futex_lawsD(1) [OF laws] wait have "state_code (cur_state s) = state_code Contended"
    and k: "fx_asleep fx k = (fx_asleep fx (kern s))(t := True)" by blast+
  then have "cur_state s = Contended" by (simp only: state_code_inj)
  with Waits k ok show ?thesis by (auto simp: sleepers_ok_def)
next
  case (Errno e)
  with futex_lawsD(2) [OF laws] wait have e: "e \<noteq> EOTHER"
    and k: "fx_asleep fx k = fx_asleep fx (kern s)" by blast+
  have t: "\<not> fx_asleep fx (kern s) t" using ok pc by (auto simp: sleepers_ok_def)
  have nt: "\<not> mx_terminated s" using ok by (simp add: sleepers_ok_def)
  have "sleepers_ok fx (set_thread t ((threads s t)\<lparr>t_pc := L_Exchange\<rparr>) (s\<lparr>kern := k\<rparr>))"
    by (rule sleepers_ok_retry [OF ok _ _ t]) (simp_all add: k nt)
  with Errno e show ?thesis by (cases e) simp_all
qed

lemma interrupt_sleepers_ok:
  assumes laws: "futex_laws fx" and ok: "sleepers_ok fx s"
  shows "sleepers_ok fx (s\<lparr>kern := fx_interrupt fx t (kern s)\<rparr>)"
proof -
  let ?s = "s\<lparr>kern := fx_interrupt fx t (kern s)\<rparr>"
  note k = futex_lawsD(4) [OF laws, of t "kern s"]
  have "cur_state s = Contended \<or> (\<exists>u. t_pc (threads s u) = U_Wake \<or> retries fx ?s u)"
    if x: "fx_asleep fx (kern s) x" for x
  proof -
    from ok x consider "cur_state s = Contended" | u where "t_pc (threads s u) = U_Wake \<or> retries fx s u"
      by (auto simp: sleepers_ok_def)
    then show ?thesis
    proof cases
      case (2 u)
      then have "t_pc (threads s u) = U_Wake \<or> retries fx ?s u" by (auto simp: retries_def k)
      then show ?thesis by blast
    qed simp
  qed
  moreover have "fx_asleep fx (kern s) x" if "fx_asleep fx (kern ?s) x" for x
    using that by (simp add: k split: if_split_asm)
  moreover have "\<not> mx_terminated s" "\<And>x. fx_asleep fx (kern s) x \<Longrightarrow> t_pc (threads s x) = L_Asleep"
    using ok by (simp_all add: sleepers_ok_def)
  moreover have "cur_state ?s = cur_state s" "threads ?s = threads s" "mx_terminated ?s = mx_terminated s"
    by simp_all
  ultimately show ?thesis unfolding sleepers_ok_def by metis
qed

lemma proceed_sleepers:
  assumes laws: "futex_laws fx" and ok: "sleepers_ok fx s" and step: "mutex_do fx (Proceed t) s = Some s'"
  shows "sleepers_ok fx s'"
proof -
  have nt: "\<not> mx_terminated s" using ok by (simp add: sleepers_ok_def)
  show ?thesis
  proof (cases "t_pc (threads s t)")
    case L_Exchange
    then have "\<not> fx_asleep fx (kern s) t" using ok by (auto simp: sleepers_ok_def)
    with step L_Exchange nt show ?thesis by (intro sleepers_ok_retry [OF ok, of s' t]) auto
  next
    case L_Wait
    obtain r k where "fx_wait fx t (state_code (cur_state s)) (state_code Contended) (kern s) = (r, k)"
      by fastforce
    with wait_sleepers_ok [OF laws ok L_Wait this] step L_Wait show ?thesis by auto
  next
    case L_Asleep
    with step nt show ?thesis
      by (intro sleepers_ok_retry [OF ok, of s' t]) (auto split: if_split_asm)
  next
    case U_Wake
    obtain r k where "fx_wake fx (kern s) = (r, k)" by fastforce
    with wake_sleepers_ok [OF laws ok U_Wake this] step U_Wake show ?thesis by auto
  qed (use step in simp_all)
qed

lemma mutex_do_sleepers:
  assumes laws: "futex_laws fx" and ok: "sleepers_ok fx s" and step: "mutex_do fx a s = Some s'"
  shows "sleepers_ok fx s'"
proof (cases a)
  case (CallLock t)
  with step show ?thesis by (intro sleepers_ok_frame [OF ok, of s' t]) (auto split: if_split_asm)
next
  case (CallTryLock t)
  with step show ?thesis by (intro sleepers_ok_frame [OF ok, of s' t]) (auto split: if_split_asm)
next
  case (CallUnlock t)
  with step show ?thesis
    by (intro sleepers_ok_frame [OF ok, of s' t]) (auto simp: unlock_def split: if_split_asm)
next
  case (CasWins t)
  with step show ?thesis
    by (intro sleepers_ok_frame [OF ok, of s' t]; cases "t_pc (threads s t)")
      (auto split: if_split_asm)
next
  case (CasFails t c)
  with step show ?thesis
    by (intro sleepers_ok_frame [OF ok, of s' t]; cases "t_pc (threads s t)")
      (auto split: if_split_asm)
next
  case (Update t f)
  with step show ?thesis
    by (intro sleepers_ok_frame [OF ok, of s' t]; cases "t_pc (threads s t)") auto
next
  case (Interrupt t)
  with interrupt_sleepers_ok [OF laws ok] step show ?thesis by auto
next
  case (Proceed t)
  with proceed_sleepers [OF laws ok] step show ?thesis by simp
qed

interpretation mutex_sleep: invariant_system "\<lambda>s. futex_laws fx \<and> mutex_init fx d s" "mutex_step fx"
    "\<lambda>s. futex_laws fx \<and> sleepers_ok fx s"
  for fx :: "'k futex" and d :: 'd
proof unfold_locales
  fix s :: "('d, 'k) mutex_sys"
  assume "futex_laws fx \<and> mutex_init fx d s"
  then show "futex_laws fx \<and> sleepers_ok fx s"
    by (auto simp: mutex_init_def sleepers_ok_def)
next
  fix s t :: "('d, 'k) mutex_sys"
  assume "futex_laws fx \<and> sleepers_ok fx s" "mutex_step fx s t"
  then show "futex_laws fx \<and> sleepers_ok fx t"
    using mutex_do_sleepers by (auto simp: mutex_step_iff mutex_act_def split: if_split_asm)
qed

lemma mutex_reach_sleepers:
  assumes "futex_laws fx" and "mutex_reach fx d s"
  shows "sleepers_ok fx s"
  using mutex_sleep.reach_inv [of fx d s] assms by simp

section \<open>Lemmas for the properties\<close>

fun acts_alone :: "nat \<Rightarrow> 'd mutex_action \<Rightarrow> bool" where
  "acts_alone t (CasWins u) = (u = t)"
| "acts_alone t (Proceed u) = (u = t)"
| "acts_alone t _ = False"

fun in_lock :: "'d lock_pc \<Rightarrow> bool" where
  "in_lock L_Fast = True"
| "in_lock (L_Spin n) = True"
| "in_lock L_Exchange = True"
| "in_lock L_Wait = True"
| "in_lock L_Asleep = True"
| "in_lock _ = False"

lemma exchange_acquires:
  assumes "t_pc (threads s t) = L_Exchange" and "cur_state s = Free" and "mx_fault s = None"
    and "\<not> mx_terminated s"
  shows "mutex_act fx (Proceed t) s = Some (acquire_rmw t Contended L_Critical s)"
  using assms by (simp add: mutex_act_def taken_bit_iff)

text \<open>A thread in \<open>lock\<close> that is awake gets a free mutex within two steps of its own.\<close>

text \<open>The kernel does not put a thread to sleep on a mutex that is free.\<close>

lemma wait_refused:
  assumes laws: "futex_laws fx" and free: "cur_state s = Free" and pc: "t_pc (threads s t) = L_Wait"
    and s: "mx_fault s = None" "\<not> mx_terminated s"
  shows "\<exists>k. mutex_act fx (Proceed t) s = Some (set_thread t ((threads s t)\<lparr>t_pc := L_Exchange\<rparr>) (s\<lparr>kern := k\<rparr>))"
proof -
  obtain r k where rk: "fx_wait fx t (state_code (cur_state s)) (state_code Contended) (kern s) = (r, k)"
    by fastforce
  have "r \<noteq> Waits"
  proof
    assume "r = Waits"
    with futex_lawsD(1) [OF laws] rk have "state_code (cur_state s) = state_code Contended" by blast
    with free show False by (simp only: state_code_inj) simp
  qed
  then obtain e where e: "r = Errno e" by (cases r) auto
  with futex_lawsD(2) [OF laws] rk have "e \<noteq> EOTHER" by blast
  then have "wait_returns t (r, k) s = set_thread t ((threads s t)\<lparr>t_pc := L_Exchange\<rparr>) (s\<lparr>kern := k\<rparr>)"
    using e by (cases e) simp_all
  with pc rk s show ?thesis by (intro exI [of _ k]) (simp add: mutex_act_def)
qed

lemma free_acquired_aux:
  assumes laws: "futex_laws fx" and inv: "mutex_inv d s" and ok: "sleepers_ok fx s"
    and free: "cur_state s = Free" and pc: "in_lock (t_pc (threads s t))"
    and awake: "\<not> fx_asleep fx (kern s) t"
  shows "\<exists>as s'. mutex_sched fx as s = Some s' \<and> list_all (acts_alone t) as \<and> length as \<le> 2 \<and>
    t_pc (threads s' t) = L_Critical"
proof -
  have s: "mx_fault s = None" "\<not> mx_terminated s"
    using inv ok by (auto simp: mutex_inv_def mutex_at_def sleepers_ok_def)
  have two: ?thesis if step: "mutex_act fx (Proceed t) s = Some u" and u: "t_pc (threads u t) = L_Exchange"
    "states u = states s" "mx_fault u = None" "\<not> mx_terminated u" for u
  proof -
    have "mutex_sched fx [Proceed t, Proceed t] s = Some (acquire_rmw t Contended L_Critical u)"
      using step exchange_acquires [OF u(1) _ u(3,4), of fx] u(2) free by simp
    then show ?thesis by (intro exI [of _ "[Proceed t, Proceed t]"]) simp
  qed
  show ?thesis
  proof (cases "t_pc (threads s t)")
    case L_Fast
    with s free show ?thesis
      by (intro exI [of _ "[CasWins t]"]) (simp add: mutex_act_def)
  next
    case (L_Spin n)
    with s free show ?thesis
      by (intro exI [of _ "[CasWins t]"]) (simp add: mutex_act_def)
  next
    case L_Exchange
    with exchange_acquires [OF this free s, of fx] show ?thesis
      by (intro exI [of _ "[Proceed t]"]) simp
  next
    case L_Asleep
    show ?thesis
      by (rule two [of "set_thread t ((threads s t)\<lparr>t_pc := L_Exchange\<rparr>) s"])
        (use L_Asleep awake s in \<open>simp_all add: mutex_act_def\<close>)
  next
    case L_Wait
    from wait_refused [OF laws free this s] obtain k where "mutex_act fx (Proceed t) s =
        Some (set_thread t ((threads s t)\<lparr>t_pc := L_Exchange\<rparr>) (s\<lparr>kern := k\<rparr>))" by blast
    then show ?thesis by (rule two) (simp_all add: s)
  qed (use pc in simp_all)
qed

lemma mutex_sched_reach:
  "mutex_reach fx d s \<Longrightarrow> mutex_sched fx as s = Some t \<Longrightarrow> mutex_reach fx d t"
proof (induction as arbitrary: s)
  case (Cons a as)
  from Cons.prems(2) obtain u where u: "mutex_act fx a s = Some u"
    "mutex_sched fx as u = Some t" by (auto split: option.splits)
  from u(1) have "mutex_step fx s u" by (rule mutex_step.intros)
  with Cons.prems(1) have "mutex_reach fx d u" by (rule reach.reach_step)
  then show ?case using u(2) by (rule Cons.IH)
qed simp

text \<open>
  An example: thread 0 locks and loads the data; thread 1 fails in the fast path and in the
  22 rounds of the spin loop, marks the mutex contended and goes to sleep.
\<close>

definition mutex_start :: "(int, nat list) mutex_sys" where
  "mutex_start =
     \<lparr>states = [Free], handed = 0, shared = 0, accesses = 0, updates = [],
      threads = (\<lambda>t. \<lparr>t_pc = L_Idle, t_seen = 0, t_know = 0, t_pauses = 0, t_got = None\<rparr>),
      kern = [], mx_fault = None, mx_terminated = False\<rparr>"

definition mutex_demo :: "int mutex_action list" where
  "mutex_demo = [CallLock 0, CasWins 0, Update 0 (\<lambda>x. x + 1), CallLock 1] @
     [CasFails 1 1, CasFails 1 1, CasFails 1 1, CasFails 1 1, CasFails 1 1,
      CasFails 1 1, CasFails 1 1, CasFails 1 1, CasFails 1 1, CasFails 1 1, CasFails 1 1,
      CasFails 1 1, CasFails 1 1, CasFails 1 1, CasFails 1 1, CasFails 1 1, CasFails 1 1,
      CasFails 1 1, CasFails 1 1, CasFails 1 1, CasFails 1 1, CasFails 1 1, CasFails 1 1, Proceed 1, Proceed 1]"

lemma mutex_start_init: "mutex_reach list_futex 0 mutex_start"
  by (rule reach.reach_init) (auto simp: mutex_init_def mutex_start_def list_futex_def)

lemmas mutex_eval = mutex_act_def mutex_start_def list_futex_def acquire_rmw_def release_rmw_def
  set_thread_def spin_head_def spin_count_def backoff_eq unlock_def touch_def taken_bit_iff

lemma mutex_demo_state:
  obtains s :: "(int, nat list) mutex_sys"
  where "mutex_reach list_futex 0 s" "t_pc (threads s 0) = L_Loaded 0"
    "t_pc (threads s 1) = L_Asleep" "fx_asleep list_futex (kern s) 1" "states s = [Free, Locked, Contended]"
    "t_pauses (threads s 1) = 13311" "updates s = []"
proof -
  have "\<exists>s. mutex_sched list_futex mutex_demo mutex_start = Some s \<and> t_pc (threads s 0) = L_Loaded 0 \<and>
    t_pc (threads s 1) = L_Asleep \<and> fx_asleep list_futex (kern s) 1 \<and>
    states s = [Free, Locked, Contended] \<and> t_pauses (threads s 1) = 13311 \<and> updates s = []"
    by (simp add: mutex_demo_def mutex_eval)
  then show ?thesis by (elim exE conjE) (rule that [OF mutex_sched_reach [OF mutex_start_init]])
qed

section \<open>Properties\<close>

text \<open>
  C17: Mutual exclusion, whatever the kernel answers and whatever signals arrive: at most one
  thread is between \<open>lock\<close> (or a successful \<open>try_lock\<close>) and \<open>unlock\<close>, the state is
  \<open>Free\<close> exactly if none is, and no access to the protected data is a data race.
\<close>

theorem mutex_exclusive:
  assumes "mutex_reach fx d s"
  shows "mx_fault s = None \<and>
    (\<forall>t u. holds (t_pc (threads s t)) \<and> holds (t_pc (threads s u)) \<longrightarrow> t = u) \<and>
    (cur_state s = Free \<longleftrightarrow> (\<forall>t. \<not> holds (t_pc (threads s t))))"
proof -
  from mutex_run.reach_inv [OF assms] obtain h where "mutex_at d h s" by (auto simp: mutex_inv_def)
  note a = mutex_atD [OF this]
  from a(2,4,5) show ?thesis by (cases h) auto
qed

theorem mutex_exclusive_witness:
  "\<exists>s. mutex_reach list_futex (0 :: int) s \<and> holds (t_pc (threads s 0)) \<and> mx_fault s = None \<and>
    \<not> holds (t_pc (threads s 1))"
proof -
  obtain s :: "(int, nat list) mutex_sys" where
    s: "mutex_reach list_futex 0 s" "t_pc (threads s 0) = L_Loaded 0" by (rule mutex_demo_state)
  from s(2) have "holds (t_pc (threads s 0))" by simp
  with mutex_exclusive [OF s(1)] s(1) show ?thesis by (metis zero_neq_one)
qed

text \<open>
  C18: Updates are serialised: the protected data are the result of the completed updates, one
  after the other, although an update is a load and a later store; a value that a thread has
  loaded for its update is the current one.
\<close>

theorem mutex_serialises:
  assumes "mutex_reach fx d s"
  shows "shared s = fold (\<lambda>f. f) (updates s) d \<and>
    (\<forall>t x. t_pc (threads s t) = L_Loaded x \<longrightarrow> x = shared s)"
proof -
  from mutex_run.reach_inv [OF assms] obtain h where "mutex_at d h s" by (auto simp: mutex_inv_def)
  note a = mutex_atD [OF this]
  have "x = shared s" if "t_pc (threads s t) = L_Loaded x" for t x
  proof -
    from that a(5) have "h = Some t" by (metis holds.simps(2))
    with a(7) that show ?thesis by simp
  qed
  with a(8) show ?thesis by blast
qed

theorem mutex_serialises_witness:
  "\<exists>s. mutex_reach list_futex (0 :: int) s \<and> t_pc (threads s 0) = L_Loaded 0 \<and> shared s = 0"
proof -
  obtain s :: "(int, nat list) mutex_sys" where
    s: "mutex_reach list_futex 0 s" "t_pc (threads s 0) = L_Loaded 0" by (rule mutex_demo_state)
  with mutex_serialises [OF s(1)] show ?thesis by metis
qed

text \<open>
  C19: No wake-up is lost, under a kernel that keeps the documented laws of futexes: while a
  thread sleeps, another one is awake that holds the mutex, or is about to call
  \<open>FUTEX_WAKE\<close>, or is about to retry for the mutex and mark it contended. The process is
  not terminated.
\<close>

theorem mutex_no_lost_wakeup:
  assumes "futex_laws fx" and "mutex_reach fx d s" and "fx_asleep fx (kern s) t"
  shows "\<not> mx_terminated s \<and> (\<exists>u. \<not> fx_asleep fx (kern s) u \<and>
    (cur_state s = Contended \<and> holds (t_pc (threads s u)) \<or> t_pc (threads s u) = U_Wake \<or>
     t_pc (threads s u) = L_Exchange \<or> t_pc (threads s u) = L_Asleep))"
proof -
  note ok = mutex_reach_sleepers [OF assms(1,2)]
  from mutex_run.reach_inv [OF assms(2)] obtain h where "mutex_at d h s" by (auto simp: mutex_inv_def)
  note a = mutex_atD [OF this]
  have asleep: "t_pc (threads s u) = L_Asleep" if "fx_asleep fx (kern s) u" for u
    using ok that by (simp add: sleepers_ok_def)
  have nt: "\<not> mx_terminated s" using ok by (simp add: sleepers_ok_def)
  from ok assms(3) consider "cur_state s = Contended" | u where "t_pc (threads s u) = U_Wake"
    | u where "retries fx s u" by (auto simp: sleepers_ok_def)
  then show ?thesis
  proof cases
    case 1
    with a(4) obtain u where "h = Some u" by auto
    with a(5) have "holds (t_pc (threads s u))" by simp
    moreover from this have "\<not> fx_asleep fx (kern s) u" using asleep [of u] by auto
    ultimately show ?thesis using 1 nt by blast
  next
    case (2 u)
    then have "\<not> fx_asleep fx (kern s) u" using asleep [of u] by auto
    with 2 nt show ?thesis by blast
  next
    case (3 u)
    then have "\<not> fx_asleep fx (kern s) u" using asleep [of u] by (auto simp: retries_def)
    with 3 nt show ?thesis by (auto simp: retries_def)
  qed
qed

theorem mutex_no_lost_wakeup_witness:
  "\<exists>s. mutex_reach list_futex (0 :: int) s \<and> fx_asleep list_futex (kern s) 1 \<and> \<not> mx_terminated s \<and>
    (\<exists>u. \<not> fx_asleep list_futex (kern s) u)"
proof -
  obtain s :: "(int, nat list) mutex_sys" where
    s: "mutex_reach list_futex 0 s" "fx_asleep list_futex (kern s) 1" by (rule mutex_demo_state)
  from mutex_no_lost_wakeup [OF list_futex_laws s] s show ?thesis by blast
qed

text \<open>
  A mutex that is free is there for the taking: a thread that is anywhere in \<open>lock\<close>, on
  its way into the kernel or out of it included, and is awake, has it after at most two
  steps of its own, if no other thread interferes.
\<close>

lemma mutex_free_acquired:
  assumes "futex_laws fx" and "mutex_reach fx d s" and "cur_state s = Free"
    and "in_lock (t_pc (threads s t))" and "\<not> fx_asleep fx (kern s) t"
  shows "\<exists>as s'. mutex_sched fx as s = Some s' \<and> list_all (acts_alone t) as \<and> length as \<le> 2 \<and>
    t_pc (threads s' t) = L_Critical"
  by (rule free_acquired_aux [OF assms(1) mutex_run.reach_inv [OF assms(2)]
      mutex_reach_sleepers [OF assms(1,2)] assms(3-5)])

lemma mutex_free_acquired_example:
  "\<exists>s as s'. mutex_reach list_futex (0 :: int) s \<and> t_pc (threads s 0) = L_Fast \<and>
    mutex_sched list_futex as s = Some s' \<and> t_pc (threads s' 0) = L_Critical"
proof -
  have "\<exists>s. mutex_sched list_futex [CallLock 0] mutex_start = Some s \<and> t_pc (threads s 0) = L_Fast \<and>
      cur_state s = Free \<and> \<not> fx_asleep list_futex (kern s) 0"
    by (simp add: mutex_eval)
  then obtain s where s: "mutex_sched list_futex [CallLock 0] mutex_start = Some s"
    "t_pc (threads s 0) = L_Fast" "cur_state s = Free" "\<not> fx_asleep list_futex (kern s) 0" by blast
  note r = mutex_sched_reach [OF mutex_start_init s(1)]
  have "in_lock (t_pc (threads s 0))" by (simp add: s(2))
  from mutex_free_acquired [OF list_futex_laws r s(3) this s(4)] r s(2) show ?thesis by blast
qed

text \<open>
  A call of \<open>lock\<close> spins for at most 22 compare and swaps and 13311 pauses before it
  goes to the kernel; in the round \<open>spin\<close> of the loop it has paused exactly
  \<open>2^0 + \<dots> + 2^(min spin 10)\<close> times.
\<close>

lemma mutex_spin_bounded:
  assumes "mutex_reach fx d s"
  shows "t_pauses (threads s t) \<le> 13311 \<and>
    (\<forall>n. t_pc (threads s t) = L_Spin n \<longrightarrow> n < 22 \<and>
       t_pauses (threads s t) = (\<Sum>i\<le>n. 2 ^ min i 10))"
proof -
  from mutex_run.reach_inv [OF assms] obtain h where "mutex_at d h s" by (auto simp: mutex_inv_def)
  then have ok: "pauses_ok (t_pc (threads s t)) (t_pauses (threads s t))"
    by (simp add: mutex_at_def lock_thread_ok_def)
  have sum: "spin_pauses (Suc n) = (\<Sum>i\<le>n. 2 ^ min i 10)" for n
    by (induction n) (simp_all add: backoff_eq)
  have "t_pauses (threads s t) \<le> 13311"
    using pauses_ok_le [OF ok] by (simp only: spin_pauses_total)
  with ok sum show ?thesis by (auto simp: spin_count_def simp del: spin_pauses_Suc)
qed

lemma mutex_spin_bounded_example:
  "\<exists>s. mutex_reach list_futex (0 :: int) s \<and> t_pauses (threads s 1) = 13311 \<and>
    t_pauses (threads s 1) \<le> 13311"
proof -
  obtain s :: "(int, nat list) mutex_sys" where
    s: "mutex_reach list_futex 0 s" "t_pauses (threads s 1) = 13311" by (rule mutex_demo_state)
  from mutex_spin_bounded [OF s(1), of 1] s show ?thesis by blast
qed

end
