(* ===== verification/MutexChecks.thy ===== *)
theory MutexChecks
  imports Prelude
begin

text \<open>
  The owner checks that \<open>SYNC_TOOLS_ENABLE_DEADLOCK_CHECKS\<close> and ThreadSanitizer builds add to
  \<open>Mutex\<close> of include/sync_tools/mutex.hpp. Around the mutex proper, here a resource that
  one thread at a time holds (\<open>Mutex\<close> shows that it is one), \<open>lock\<close>, \<open>try_lock\<close> and \<open>unlock\<close>
  keep \<open>_owner\<close> and \<open>_owner_set\<close> and assert on them.

  The loads of the checks are not ordered by the mutex, so they may return any value that is
  not older than the last one the thread has seen; the stores happen under the mutex, in
  the order of its critical sections. Clients may misuse the mutex: a thread may call \<open>lock\<close>
  while it holds it and \<open>unlock\<close> while it does not.
\<close>

section \<open>State\<close>

datatype lock_call = Lock | TryLock

datatype chk_pc =
    K_Idle
  | K_LockSet lock_call      \<comment> \<open>load of \<open>_owner_set\<close> in \<open>lock\<close> or \<open>try_lock\<close>\<close>
  | K_LockOwner lock_call    \<comment> \<open>load of \<open>_owner\<close>\<close>
  | K_Acquire lock_call      \<comment> \<open>the accesses to \<open>_state\<close>\<close>
  | K_StoreOwner
  | K_StoreSet
  | K_Holds
  | K_UnlockSet              \<comment> \<open>load of \<open>_owner_set\<close> in \<open>unlock\<close>\<close>
  | K_UnlockOwner
  | K_ClearSet
  | K_ClearOwner
  | K_Exchange               \<comment> \<open>the release of \<open>_state\<close>\<close>

record chk_thread =
  k_pc :: chk_pc
  k_own :: nat     \<comment> \<open>index in the history of \<open>_owner\<close>\<close>
  k_set :: nat     \<comment> \<open>index in the history of \<open>_owner_set\<close>\<close>

text \<open>\<open>pthread_t{}\<close> is \<open>None\<close>.\<close>

record chk_sys =
  held :: "nat option"          \<comment> \<open>who holds the mutex\<close>
  owners :: "nat option list"   \<comment> \<open>history of \<open>_owner\<close>, the latest value last\<close>
  sets :: "bool list"           \<comment> \<open>history of \<open>_owner_set\<close>\<close>
  chk_threads :: "nat \<Rightarrow> chk_thread"
  failed :: "(nat \<times> bool) option"  \<comment> \<open>an assertion failed: whose, and whether in \<open>unlock\<close>\<close>

definition set_chk :: "nat \<Rightarrow> chk_thread \<Rightarrow> chk_sys \<Rightarrow> chk_sys" where
  "set_chk t th s = s\<lparr>chk_threads := (chk_threads s)(t := th)\<rparr>"

definition goto_pc :: "nat \<Rightarrow> chk_pc \<Rightarrow> chk_sys \<Rightarrow> chk_sys" where
  "goto_pc t l s = set_chk t ((chk_threads s t)\<lparr>k_pc := l\<rparr>) s"

definition store_owner :: "nat \<Rightarrow> nat option \<Rightarrow> chk_pc \<Rightarrow> chk_sys \<Rightarrow> chk_sys" where
  "store_owner t v l s =
     set_chk t ((chk_threads s t)\<lparr>k_pc := l, k_own := length (owners s)\<rparr>) (s\<lparr>owners := owners s @ [v]\<rparr>)"

definition store_set :: "nat \<Rightarrow> bool \<Rightarrow> chk_pc \<Rightarrow> chk_sys \<Rightarrow> chk_sys" where
  "store_set t v l s =
     set_chk t ((chk_threads s t)\<lparr>k_pc := l, k_set := length (sets s)\<rparr>) (s\<lparr>sets := sets s @ [v]\<rparr>)"

section \<open>Steps\<close>

text \<open>The checks: a load of the value number \<open>c\<close>, and what follows it.\<close>

fun owner_check :: "nat \<Rightarrow> nat \<Rightarrow> chk_pc \<Rightarrow> chk_sys \<Rightarrow> chk_sys option" where
  "owner_check t c (K_LockSet f) s =
     (if k_set (chk_threads s t) \<le> c \<and> c < length (sets s) then
        Some (set_chk t ((chk_threads s t)\<lparr>k_set := c,
          k_pc := if sets s ! c then K_LockOwner f else K_Acquire f\<rparr>) s)
      else None)"
| "owner_check t c (K_LockOwner f) s =
     (if k_own (chk_threads s t) \<le> c \<and> c < length (owners s) then
        (if owners s ! c = Some t then Some (s\<lparr>failed := Some (t, False)\<rparr>)
         else Some (set_chk t ((chk_threads s t)\<lparr>k_own := c, k_pc := K_Acquire f\<rparr>) s))
      else None)"
| "owner_check t c K_UnlockSet s =
     (if k_set (chk_threads s t) \<le> c \<and> c < length (sets s) then
        (if sets s ! c then Some (set_chk t ((chk_threads s t)\<lparr>k_set := c, k_pc := K_UnlockOwner\<rparr>) s)
         else Some (s\<lparr>failed := Some (t, True)\<rparr>))
      else None)"
| "owner_check t c K_UnlockOwner s =
     (if k_own (chk_threads s t) \<le> c \<and> c < length (owners s) then
        (if owners s ! c = Some t then Some (set_chk t ((chk_threads s t)\<lparr>k_own := c, k_pc := K_ClearSet\<rparr>) s)
         else Some (s\<lparr>failed := Some (t, True)\<rparr>))
      else None)"
| "owner_check t c _ s = None"

text \<open>The other accesses.\<close>

fun owner_step :: "nat \<Rightarrow> chk_pc \<Rightarrow> chk_sys \<Rightarrow> chk_sys option" where
  "owner_step t (K_Acquire f) s = (if held s = None then Some (goto_pc t K_StoreOwner (s\<lparr>held := Some t\<rparr>)) else None)"
| "owner_step t K_StoreOwner s = Some (store_owner t (Some t) K_StoreSet s)"
| "owner_step t K_StoreSet s = Some (store_set t True K_Holds s)"
| "owner_step t K_ClearSet s = Some (store_set t False K_ClearOwner s)"
| "owner_step t K_ClearOwner s = Some (store_owner t None K_Exchange s)"
| "owner_step t K_Exchange s = Some (goto_pc t K_Idle (s\<lparr>held := None\<rparr>))"
| "owner_step t _ s = None"

datatype chk_action =
    CallsLock nat lock_call
  | CallsUnlock nat
  | Loads nat nat
  | Steps nat
  | TryFails nat

fun chk_do :: "chk_action \<Rightarrow> chk_sys \<Rightarrow> chk_sys option" where
  "chk_do (CallsLock t f) s =
     (if k_pc (chk_threads s t) = K_Idle \<or> k_pc (chk_threads s t) = K_Holds then Some (goto_pc t (K_LockSet f) s) else None)"
| "chk_do (CallsUnlock t) s =
     (if k_pc (chk_threads s t) = K_Idle \<or> k_pc (chk_threads s t) = K_Holds then Some (goto_pc t K_UnlockSet s) else None)"
| "chk_do (Loads t c) s = owner_check t c (k_pc (chk_threads s t)) s"
| "chk_do (Steps t) s = owner_step t (k_pc (chk_threads s t)) s"
| "chk_do (TryFails t) s = (if k_pc (chk_threads s t) = K_Acquire TryLock then Some (goto_pc t K_Idle s) else None)"

inductive chk_step :: "chk_sys \<Rightarrow> chk_sys \<Rightarrow> bool" where
  "failed s = None \<Longrightarrow> chk_do a s = Some s' \<Longrightarrow> chk_step s s'"

inductive_cases chk_stepE: "chk_step s s'"

definition chk_init :: "chk_sys \<Rightarrow> bool" where
  "chk_init s \<longleftrightarrow> s = \<lparr>held = None, owners = [None], sets = [False],
     chk_threads = (\<lambda>_. \<lparr>k_pc = K_Idle, k_own = 0, k_set = 0\<rparr>), failed = None\<rparr>"

section \<open>The invariant\<close>

text \<open>Thread \<open>t\<close> cannot load its own identity from \<open>_owner\<close> \<dots>\<close>

definition unmarked :: "nat \<Rightarrow> chk_sys \<Rightarrow> bool" where
  "unmarked t s \<longleftrightarrow> (\<forall>i. k_own (chk_threads s t) \<le> i \<and> i < length (owners s) \<longrightarrow> owners s ! i \<noteq> Some t)"

text \<open>\<dots> or cannot load anything else, and nothing but \<open>true\<close> from \<open>_owner_set\<close>.\<close>

definition own_marked :: "nat \<Rightarrow> chk_sys \<Rightarrow> bool" where
  "own_marked t s \<longleftrightarrow> Suc (k_own (chk_threads s t)) = length (owners s) \<and> last (owners s) = Some t"

definition set_marked :: "nat \<Rightarrow> chk_sys \<Rightarrow> bool" where
  "set_marked t s \<longleftrightarrow> Suc (k_set (chk_threads s t)) = length (sets s) \<and> last (sets s)"

definition settled :: "nat \<Rightarrow> chk_sys \<Rightarrow> bool" where
  "settled t s \<longleftrightarrow> (if held s = Some t then own_marked t s \<and> set_marked t s else unmarked t s)"

fun pc_ok :: "nat \<Rightarrow> chk_pc \<Rightarrow> chk_sys \<Rightarrow> bool" where
  "pc_ok t K_Idle s \<longleftrightarrow> held s \<noteq> Some t \<and> unmarked t s"
| "pc_ok t (K_LockSet f) s \<longleftrightarrow> settled t s"
| "pc_ok t (K_LockOwner f) s \<longleftrightarrow> settled t s"
| "pc_ok t (K_Acquire f) s \<longleftrightarrow> held s \<noteq> Some t \<and> unmarked t s"
| "pc_ok t K_StoreOwner s \<longleftrightarrow> held s = Some t"
| "pc_ok t K_StoreSet s \<longleftrightarrow> held s = Some t \<and> own_marked t s"
| "pc_ok t K_Holds s \<longleftrightarrow> held s = Some t \<and> own_marked t s \<and> set_marked t s"
| "pc_ok t K_UnlockSet s \<longleftrightarrow> settled t s"
| "pc_ok t K_UnlockOwner s \<longleftrightarrow> settled t s"
| "pc_ok t K_ClearSet s \<longleftrightarrow> held s = Some t"
| "pc_ok t K_ClearOwner s \<longleftrightarrow> held s = Some t"
| "pc_ok t K_Exchange s \<longleftrightarrow> held s = Some t \<and> unmarked t s"

definition chk_bounds :: "chk_sys \<Rightarrow> bool" where
  "chk_bounds s \<longleftrightarrow> (\<forall>t. k_own (chk_threads s t) < length (owners s) \<and> k_set (chk_threads s t) < length (sets s))"

definition chk_inv :: "chk_sys \<Rightarrow> bool" where
  "chk_inv s \<longleftrightarrow> chk_bounds s \<and> (\<forall>t. pc_ok t (k_pc (chk_threads s t)) s) \<and>
     (\<forall>t u. failed s = Some (t, u) \<longrightarrow> (held s = Some t \<longleftrightarrow> \<not> u))"

lemma set_chk_simps [simp]:
  "held (set_chk t th s) = held s" "owners (set_chk t th s) = owners s" "sets (set_chk t th s) = sets s"
  "chk_threads (set_chk t th s) = (chk_threads s)(t := th)" "failed (set_chk t th s) = failed s"
  by (simp_all add: set_chk_def)

lemma unmarked_append: "unmarked t s \<Longrightarrow> chk_threads s' t = chk_threads s t \<Longrightarrow> owners s' = owners s @ vs \<Longrightarrow>
    Some t \<notin> set vs \<Longrightarrow> unmarked t s'"
  unfolding unmarked_def by (auto simp: nth_append) (metis add_diff_inverse_nat nat_add_left_cancel_less nth_mem)

text \<open>What a thread relies on is not touched by the others.\<close>

lemma pc_ok_frame:
  assumes "pc_ok u l s" and "chk_threads s' u = chk_threads s u" and "held s' = Some u \<longleftrightarrow> held s = Some u"
    and "owners s' = owners s @ vs" "sets s' = sets s @ ws" "Some u \<notin> set vs"
    and "held s = Some u \<Longrightarrow> vs = [] \<and> ws = []"
  shows "pc_ok u l s'"
proof (cases "held s = Some u")
  case True
  then have "owners s' = owners s" "sets s' = sets s" using assms(4,5,7) by simp_all
  then have "own_marked u s' = own_marked u s" "set_marked u s' = set_marked u s" "unmarked u s' = unmarked u s"
    using assms(2) by (simp_all add: own_marked_def set_marked_def unmarked_def)
  then show ?thesis using assms(1,3) True by (cases l) (simp_all add: settled_def)
next
  case False
  with unmarked_append [OF _ assms(2,4,6)] assms(1,3) show ?thesis
    by (cases l) (auto simp: settled_def)
qed

lemma chk_inv_update:
  assumes inv: "chk_inv s" and "chk_threads s' = (chk_threads s)(t := th)"
    and "\<And>u. u \<noteq> t \<Longrightarrow> held s' = Some u \<longleftrightarrow> held s = Some u"
    and "owners s' = owners s @ vs" "sets s' = sets s @ ws" "\<And>u. u \<noteq> t \<Longrightarrow> Some u \<notin> set vs"
    and "vs = [] \<and> ws = [] \<or> held s = Some t"
    and "k_own th < length (owners s')" "k_set th < length (sets s')"
    and "pc_ok t (k_pc th) s'" and "failed s' = None"
  shows "chk_inv s'"
proof -
  have "pc_ok u (k_pc (chk_threads s' u)) s'" for u
  proof (cases "u = t")
    case False
    show ?thesis
      by (rule pc_ok_frame [where s = s and vs = vs and ws = ws])
        (use False assms in \<open>auto simp: chk_inv_def\<close>)
  qed (use assms in simp)
  moreover have "chk_bounds s'"
    using inv assms(2,4,5,8,9) unfolding chk_inv_def chk_bounds_def by (auto intro: trans_less_add1)
  ultimately show ?thesis using assms(11) by (simp add: chk_inv_def)
qed

lemma chk_invD:
  assumes "chk_inv s"
  shows "k_own (chk_threads s t) < length (owners s)" "k_set (chk_threads s t) < length (sets s)"
    "pc_ok t (k_pc (chk_threads s t)) s"
  using assms by (simp_all add: chk_inv_def chk_bounds_def)

lemma pc_ok_cong:
  assumes "held s' = held s" "owners s' = owners s" "sets s' = sets s"
    "k_own (chk_threads s' t) = k_own (chk_threads s t)" "k_set (chk_threads s' t) = k_set (chk_threads s t)"
  shows "pc_ok t l s' = pc_ok t l s"
proof -
  have "unmarked t s' = unmarked t s" "own_marked t s' = own_marked t s" "set_marked t s' = set_marked t s"
    using assms by (simp_all add: unmarked_def own_marked_def set_marked_def)
  then show ?thesis using assms(1) by (cases l) (simp_all add: settled_def)
qed

lemma goto_inv:
  assumes "chk_inv s" and "failed s = None" and "pc_ok t l s"
  shows "chk_inv (goto_pc t l s)"
proof (rule chk_inv_update [OF assms(1), where t = t and vs = "[]" and ws = "[]"])
  have "pc_ok t l (goto_pc t l s) = pc_ok t l s" by (rule pc_ok_cong) (simp_all add: goto_pc_def)
  with assms(3) show "pc_ok t (k_pc ((chk_threads s t)\<lparr>k_pc := l\<rparr>)) (goto_pc t l s)" by simp
qed (use chk_invD [OF assms(1)] assms(2) in \<open>simp_all add: goto_pc_def\<close>)

text \<open>The loads.\<close>

lemma unmarked_load: "unmarked t s \<Longrightarrow> k_own (chk_threads s t) \<le> c \<Longrightarrow> c < length (owners s) \<Longrightarrow> owners s ! c \<noteq> Some t"
  by (simp add: unmarked_def)

lemma own_marked_load: "own_marked t s \<Longrightarrow> k_own (chk_threads s t) \<le> c \<Longrightarrow> c < length (owners s) \<Longrightarrow>
    owners s ! c = Some t \<and> c = k_own (chk_threads s t)"
  by (metis diff_Suc_1 last_conv_nth le_antisym length_0_conv less_Suc_eq_le not_less_zero own_marked_def)

lemma set_marked_load: "set_marked t s \<Longrightarrow> k_set (chk_threads s t) \<le> c \<Longrightarrow> c < length (sets s) \<Longrightarrow>
    sets s ! c \<and> c = k_set (chk_threads s t)"
  by (metis diff_Suc_1 last_conv_nth le_antisym length_0_conv less_Suc_eq_le not_less_zero set_marked_def)

lemma settled_load:
  assumes "settled t s" and "held s' = held s" "owners s' = owners s" "sets s' = sets s"
    and "k_own (chk_threads s t) \<le> k_own (chk_threads s' t)" "k_own (chk_threads s' t) < length (owners s)"
    and "k_set (chk_threads s t) \<le> k_set (chk_threads s' t)" "k_set (chk_threads s' t) < length (sets s)"
  shows "settled t s'"
proof (cases "held s = Some t")
  case True
  with assms(1) have m: "own_marked t s" "set_marked t s" by (simp_all add: settled_def)
  from own_marked_load [OF m(1) assms(5,6)] set_marked_load [OF m(2) assms(7,8)] m True assms(2-4)
  show ?thesis by (simp add: settled_def own_marked_def set_marked_def)
next
  case False
  with assms show ?thesis by (auto simp: settled_def unmarked_def)
qed

lemma fail_inv:
  assumes "chk_inv s" and "held s = Some t \<longleftrightarrow> \<not> u"
  shows "chk_inv (s\<lparr>failed := Some (t, u)\<rparr>)"
proof -
  let ?s = "s\<lparr>failed := Some (t, u)\<rparr>"
  have "pc_ok v l ?s = pc_ok v l s" for v l by (rule pc_ok_cong) simp_all
  with assms show ?thesis by (simp add: chk_inv_def chk_bounds_def)
qed

lemma load_inv:
  assumes inv: "chk_inv s" "failed s = None" and "settled t s"
    and idx: "k_own (chk_threads s t) \<le> i" "i < length (owners s)" "k_set (chk_threads s t) \<le> j" "j < length (sets s)"
    and th: "th = (chk_threads s t)\<lparr>k_own := i, k_set := j, k_pc := l\<rparr>"
    and l: "\<And>s'. settled t s' \<Longrightarrow> held s' = held s \<Longrightarrow> pc_ok t l s'"
  shows "chk_inv (set_chk t th s)"
proof (rule chk_inv_update [OF inv(1), where t = t and vs = "[]" and ws = "[]"])
  have "settled t (set_chk t th s)"
    by (rule settled_load [OF assms(3)]) (use idx in \<open>simp_all add: th\<close>)
  with l show "pc_ok t (k_pc th) (set_chk t th s)" by (simp add: th)
qed (use inv(2) idx in \<open>simp_all add: th\<close>)

lemma settled_owner_load:
  "settled t s \<Longrightarrow> k_own (chk_threads s t) \<le> c \<Longrightarrow> c < length (owners s) \<Longrightarrow>
    owners s ! c = Some t \<longleftrightarrow> held s = Some t"
  using own_marked_load unmarked_load by (auto simp: settled_def split: if_splits)

lemma settled_set_load:
  "settled t s \<Longrightarrow> k_set (chk_threads s t) \<le> c \<Longrightarrow> c < length (sets s) \<Longrightarrow> held s = Some t \<Longrightarrow> sets s ! c"
  using set_marked_load by (auto simp: settled_def)

lemma load_own_inv:
  assumes "chk_inv s" "failed s = None" and "settled t s" and "k_own (chk_threads s t) \<le> c" "c < length (owners s)"
    and "\<And>s'. settled t s' \<Longrightarrow> held s' = held s \<Longrightarrow> pc_ok t l s'"
  shows "chk_inv (set_chk t ((chk_threads s t)\<lparr>k_own := c, k_pc := l\<rparr>) s)"
  by (rule load_inv [OF assms(1-5) order_refl chk_invD(2) [OF assms(1)], where l = l]) (use assms(6) in simp_all)

lemma load_set_inv:
  assumes "chk_inv s" "failed s = None" and "settled t s" and "k_set (chk_threads s t) \<le> c" "c < length (sets s)"
    and "\<And>s'. settled t s' \<Longrightarrow> held s' = held s \<Longrightarrow> pc_ok t l s'"
  shows "chk_inv (set_chk t ((chk_threads s t)\<lparr>k_set := c, k_pc := l\<rparr>) s)"
  by (rule load_inv [OF assms(1-3) order_refl chk_invD(1) [OF assms(1)] assms(4,5), where l = l]) (use assms(6) in simp_all)

lemma owner_check_inv:
  assumes inv: "chk_inv s" "failed s = None" and "owner_check t c (k_pc (chk_threads s t)) s = Some s'"
  shows "chk_inv s'"
proof -
  note b = chk_invD(3) [OF inv(1), of t] and own = load_own_inv [OF inv] and set = load_set_inv [OF inv]
  show ?thesis
  proof (cases "k_pc (chk_threads s t)")
    case (K_LockSet f)
    with b have st: "settled t s" by simp
    from K_LockSet assms(3) settled_set_load [OF st, of c] show ?thesis
      by (auto intro!: set [OF st] simp: settled_def split: if_splits)
  next
    case (K_LockOwner f)
    with b have st: "settled t s" by simp
    from K_LockOwner assms(3) settled_owner_load [OF st, of c] fail_inv [OF inv(1), of t False] show ?thesis
      by (auto intro!: own [OF st] simp: settled_def split: if_splits)
  next
    case K_UnlockSet
    with b have st: "settled t s" by simp
    from K_UnlockSet assms(3) settled_set_load [OF st, of c] fail_inv [OF inv(1), of t True] show ?thesis
      by (auto intro!: set [OF st] split: if_splits)
  next
    case K_UnlockOwner
    with b have st: "settled t s" by simp
    from K_UnlockOwner assms(3) settled_owner_load [OF st, of c] fail_inv [OF inv(1), of t True] show ?thesis
      by (auto intro!: own [OF st] split: if_splits)
  qed (use assms(3) in simp_all)
qed

text \<open>The stores, under the mutex.\<close>

lemma store_owner_inv:
  assumes inv: "chk_inv s" "failed s = None" and h: "held s = Some t" and v: "v = Some t \<or> v = None"
    and l: "v = Some t \<Longrightarrow> l = K_StoreSet" "v = None \<Longrightarrow> l = K_Exchange"
  shows "chk_inv (store_owner t v l s)"
proof (rule chk_inv_update [OF inv(1), where t = t and vs = "[v]" and ws = "[]"])
  show "pc_ok t (k_pc ((chk_threads s t)\<lparr>k_pc := l, k_own := length (owners s)\<rparr>)) (store_owner t v l s)"
    using v l h by (auto simp: store_owner_def own_marked_def unmarked_def nth_append)
qed (use chk_invD [OF inv(1), of t] inv(2) h v in \<open>auto simp: store_owner_def\<close>)

lemma store_set_inv:
  assumes inv: "chk_inv s" "failed s = None" and h: "held s = Some t"
    and l: "v \<and> l = K_Holds \<and> own_marked t s \<or> \<not> v \<and> l = K_ClearOwner"
  shows "chk_inv (store_set t v l s)"
proof (rule chk_inv_update [OF inv(1), where t = t and vs = "[]" and ws = "[v]"])
  show "pc_ok t (k_pc ((chk_threads s t)\<lparr>k_pc := l, k_set := length (sets s)\<rparr>)) (store_set t v l s)"
    using l h by (auto simp: store_set_def own_marked_def set_marked_def)
qed (use chk_invD [OF inv(1), of t] inv(2) h in \<open>auto simp: store_set_def\<close>)

lemma owner_step_inv:
  assumes inv: "chk_inv s" "failed s = None" and "owner_step t (k_pc (chk_threads s t)) s = Some s'"
  shows "chk_inv s'"
proof -
  note b = chk_invD [OF inv(1), of t]
  show ?thesis
  proof (cases "k_pc (chk_threads s t)")
    case (K_Acquire f)
    with assms(3) have free: "held s = None" and s': "s' = goto_pc t K_StoreOwner (s\<lparr>held := Some t\<rparr>)"
      by (simp_all split: if_splits)
    show ?thesis unfolding s' goto_pc_def
      by (rule chk_inv_update [OF inv(1), where t = t and vs = "[]" and ws = "[]"
            and th = "(chk_threads s t)\<lparr>k_pc := K_StoreOwner\<rparr>"]) (use b inv(2) free in auto)
  next
    case K_Exchange
    with assms(3) have s': "s' = goto_pc t K_Idle (s\<lparr>held := None\<rparr>)" by simp
    from K_Exchange b(3) have h: "held s = Some t" "unmarked t s" by simp_all
    show ?thesis unfolding s' goto_pc_def
      by (rule chk_inv_update [OF inv(1), where t = t and vs = "[]" and ws = "[]"
            and th = "(chk_threads s t)\<lparr>k_pc := K_Idle\<rparr>"])
        (use b inv(2) h in \<open>auto simp: unmarked_def\<close>)
  next
    case K_StoreOwner
    with assms(3) b(3) store_owner_inv [OF inv, of t "Some t" K_StoreSet] show ?thesis by simp
  next
    case K_StoreSet
    with assms(3) b(3) store_set_inv [OF inv, of t True K_Holds] show ?thesis by simp
  next
    case K_ClearSet
    with assms(3) b(3) store_set_inv [OF inv, of t False K_ClearOwner] show ?thesis by simp
  next
    case K_ClearOwner
    with assms(3) b(3) store_owner_inv [OF inv, of t None K_Exchange] show ?thesis by simp
  qed (use assms(3) in simp_all)
qed

lemma chk_step_inv: "chk_inv s \<Longrightarrow> chk_step s s' \<Longrightarrow> chk_inv s'"
proof (erule chk_stepE)
  fix a assume inv: "chk_inv s" "failed s = None" and a: "chk_do a s = Some s'"
  show "chk_inv s'"
  proof (cases a)
    case (CallsLock t f)
    with a goto_inv [OF inv, of t "K_LockSet f"] chk_invD(3) [OF inv(1), of t] show ?thesis
      by (auto simp: settled_def split: if_splits)
  next
    case (CallsUnlock t)
    with a goto_inv [OF inv, of t K_UnlockSet] chk_invD(3) [OF inv(1), of t] show ?thesis
      by (auto simp: settled_def split: if_splits)
  next
    case (Loads t c)
    with a owner_check_inv [OF inv] show ?thesis by simp
  next
    case (Steps t)
    with a owner_step_inv [OF inv] show ?thesis by simp
  next
    case (TryFails t)
    with a goto_inv [OF inv, of t K_Idle] chk_invD(3) [OF inv(1), of t] show ?thesis
      by (auto split: if_splits)
  qed
qed

lemma chk_init_inv: "chk_init s \<Longrightarrow> chk_inv s"
  by (simp add: chk_init_def chk_inv_def chk_bounds_def unmarked_def)

interpretation chk_run: invariant_system chk_init chk_step chk_inv
  using chk_init_inv chk_step_inv by unfold_locales

fun chk_sched :: "chk_action list \<Rightarrow> chk_sys \<Rightarrow> chk_sys option" where
  "chk_sched [] s = Some s"
| "chk_sched (a # as) s =
     (if failed s = None then (case chk_do a s of None \<Rightarrow> None | Some s' \<Rightarrow> chk_sched as s') else None)"

lemma chk_sched_reach: "reach chk_init chk_step s \<Longrightarrow> chk_sched as s = Some t \<Longrightarrow> reach chk_init chk_step t"
proof (induction as arbitrary: s)
  case (Cons a as)
  from Cons.prems(2) obtain u where u: "failed s = None" "chk_do a s = Some u" "chk_sched as u = Some t"
    by (auto split: if_splits option.splits)
  from reach.reach_step [OF Cons.prems(1) chk_step.intros [OF u(1,2)]] u(3) show ?case by (rule Cons.IH)
qed simp

definition chk_start :: chk_sys where
  "chk_start = \<lparr>held = None, owners = [None], sets = [False],
     chk_threads = (\<lambda>_. \<lparr>k_pc = K_Idle, k_own = 0, k_set = 0\<rparr>), failed = None\<rparr>"

lemma chk_start_reach: "reach chk_init chk_step chk_start"
  by (rule reach.reach_init) (simp add: chk_init_def chk_start_def)

text \<open>Thread 0 locks the mutex and calls \<open>lock\<close> again.\<close>

definition chk_demo :: "chk_action list" where
  "chk_demo = [CallsLock 0 Lock, Loads 0 0, Steps 0, Steps 0, Steps 0, CallsLock 0 Lock, Loads 0 1]"

lemma chk_demo_state:
  obtains s where "reach chk_init chk_step s" "k_pc (chk_threads s 0) = K_LockOwner Lock" "held s = Some 0"
    "failed s = None" "k_own (chk_threads s 0) = 1" "owners s = [None, Some 0]"
proof -
  have "\<exists>s. chk_sched chk_demo chk_start = Some s \<and> k_pc (chk_threads s 0) = K_LockOwner Lock \<and> held s = Some 0 \<and>
    failed s = None \<and> k_own (chk_threads s 0) = 1 \<and> owners s = [None, Some 0]"
    by (simp add: chk_demo_def chk_start_def goto_pc_def set_chk_def store_owner_def store_set_def)
  then show ?thesis by (elim exE conjE) (rule that [OF chk_sched_reach [OF chk_start_reach]])
qed

section \<open>Properties\<close>

text \<open>
  The checks are right, for stale loads too. An assertion that fails in \<open>lock\<close> or \<open>try_lock\<close>
  is that of the thread that holds the mutex; one that fails in \<open>unlock\<close> is that of a thread
  that does not. Conversely no misuse gets past them: a thread that goes on to the state of the
  mutex in \<open>lock\<close> does not hold it, one that goes on to release it in \<open>unlock\<close> does.
\<close>

lemma mutex_checks_exact:
  assumes "reach chk_init chk_step s"
  shows "(failed s = Some (t, False) \<longrightarrow> held s = Some t) \<and>
    (failed s = Some (t, True) \<longrightarrow> held s \<noteq> Some t) \<and>
    (k_pc (chk_threads s t) = K_Acquire f \<longrightarrow> held s \<noteq> Some t) \<and>
    (k_pc (chk_threads s t) \<in> {K_ClearSet, K_ClearOwner, K_Exchange} \<longrightarrow> held s = Some t)"
proof -
  from chk_run.reach_inv [OF assms] have inv: "chk_inv s" .
  then have "failed s = Some (t, u) \<Longrightarrow> held s = Some t \<longleftrightarrow> \<not> u" for u by (simp add: chk_inv_def)
  with chk_invD(3) [OF inv, of t] show ?thesis by auto
qed

lemma mutex_checks_exact_example:
  "\<exists>s. reach chk_init chk_step s \<and> failed s = Some (0, False) \<and> held s = Some 0"
proof -
  obtain s where s: "reach chk_init chk_step s" "k_pc (chk_threads s 0) = K_LockOwner Lock" "failed s = None"
    "k_own (chk_threads s 0) = 1" "owners s = [None, Some 0]" by (rule chk_demo_state)
  then have "chk_do (Loads 0 1) s = Some (s\<lparr>failed := Some (0, False)\<rparr>)" by simp
  from reach.reach_step [OF s(1) chk_step.intros [OF s(3) this]]
  have r: "reach chk_init chk_step (s\<lparr>failed := Some (0, False)\<rparr>)" .
  from mutex_checks_exact [OF r, of 0 Lock] r show ?thesis by auto
qed

text \<open>
  The checks decide: a thread in a check can always take its next step, and every step it can
  take leads on or to the assertion as the use of the mutex demands. A thread that holds the
  mutex and has called \<open>lock\<close> again can only fail; a thread that holds it and calls \<open>unlock\<close>
  can only go on.
\<close>

lemma mutex_checks_decide:
  assumes "reach chk_init chk_step s" and "failed s = None"
  shows "(k_pc (chk_threads s t) \<in> {K_LockSet f, K_LockOwner f, K_UnlockSet, K_UnlockOwner} \<longrightarrow>
      (\<exists>c s'. chk_do (Loads t c) s = Some s')) \<and>
    (\<forall>c s'. chk_do (Loads t c) s = Some s' \<longrightarrow>
      (k_pc (chk_threads s t) = K_LockSet f \<and> held s = Some t \<longrightarrow> k_pc (chk_threads s' t) = K_LockOwner f) \<and>
      (k_pc (chk_threads s t) = K_LockOwner f \<longrightarrow> (failed s' = Some (t, False) \<longleftrightarrow> held s = Some t)) \<and>
      (k_pc (chk_threads s t) = K_UnlockSet \<and> held s = Some t \<longrightarrow> k_pc (chk_threads s' t) = K_UnlockOwner) \<and>
      (k_pc (chk_threads s t) = K_UnlockOwner \<longrightarrow> (failed s' = Some (t, True) \<longleftrightarrow> held s \<noteq> Some t)))"
proof -
  from chk_run.reach_inv [OF assms(1)] have inv: "chk_inv s" .
  let ?th = "chk_threads s t"
  note b = chk_invD [OF inv, of t]
  have st: "settled t s" if "k_pc ?th \<in> {K_LockSet f, K_LockOwner f, K_UnlockSet, K_UnlockOwner}"
    using that b(3) by auto
  have ld: "owners s ! c = Some t \<longleftrightarrow> held s = Some t" if "settled t s" "k_own ?th \<le> c" "c < length (owners s)" for c
    using that unmarked_load [of t s c] own_marked_load [of t s c] by (auto simp: settled_def split: if_splits)
  have sd: "sets s ! c" if "settled t s" "held s = Some t" "k_set ?th \<le> c" "c < length (sets s)" for c
    using that set_marked_load [of t s c] by (auto simp: settled_def)
  show ?thesis
  proof (intro conjI allI impI; (elim conjE)?)
    assume "k_pc ?th \<in> {K_LockSet f, K_LockOwner f, K_UnlockSet, K_UnlockOwner}"
    then consider "\<exists>s'. chk_do (Loads t (k_set ?th)) s = Some s'" | "\<exists>s'. chk_do (Loads t (k_own ?th)) s = Some s'"
      using b(1,2) by auto
    then show "\<exists>c s'. chk_do (Loads t c) s = Some s'" by cases blast+
  qed (use st ld sd assms(2) in \<open>auto split: if_splits\<close>)
qed

lemma mutex_checks_decide_example:
  "\<exists>s s'. reach chk_init chk_step s \<and> chk_do (Loads 0 1) s = Some s' \<and> failed s' = Some (0, False)"
proof -
  obtain s where s: "reach chk_init chk_step s" "k_pc (chk_threads s 0) = K_LockOwner Lock" "held s = Some 0"
    "failed s = None" "k_own (chk_threads s 0) = 1" "owners s = [None, Some 0]" by (rule chk_demo_state)
  then have "chk_do (Loads 0 1) s = Some (s\<lparr>failed := Some (0, False)\<rparr>)" by simp
  with mutex_checks_decide [OF s(1,4), of 0 Lock] s(1,2,3) show ?thesis by blast
qed

end
