(* ===== verification/CheckedMutex.thy ===== *)
theory CheckedMutex
  imports Mutex MutexChecks
begin

text \<open>
  \<open>Mutex\<close> of include/sync_tools/mutex.hpp as a build compiles it: the accesses to \<open>_state\<close>
  (\<open>Mutex\<close>) between the owner checks (\<open>MutexChecks\<close>), with the calls of the ThreadSanitizer
  hooks of utils/tsan_checks.hpp around them. The two models become one here: the checks
  ask for a resource that one thread holds, and the accesses to \<open>_state\<close> are that resource.
  Clients may call \<open>lock\<close> while they hold the mutex and \<open>unlock\<close> while they do not; they touch
  the data only after \<open>lock\<close> has returned.
\<close>

section \<open>What the preprocessor selects\<close>

record build =
  has_feature :: bool         \<comment> \<open>\<open>defined(__has_feature)\<close>\<close>
  thread_sanitizer :: bool    \<comment> \<open>\<open>__has_feature(thread_sanitizer)\<close>\<close>
  deadlock_checks :: bool     \<comment> \<open>\<open>defined(SYNC_TOOLS_ENABLE_DEADLOCK_CHECKS)\<close>\<close>

definition has_tsan :: "build \<Rightarrow> bool" where
  "has_tsan b \<longleftrightarrow> has_feature b \<and> thread_sanitizer b"

definition includes_pthread :: "build \<Rightarrow> bool" where
  "includes_pthread b \<longleftrightarrow> has_feature b \<and> (thread_sanitizer b \<or> deadlock_checks b)"

definition owner_checks :: "build \<Rightarrow> bool" where
  "owner_checks b \<longleftrightarrow> has_tsan b \<or> deadlock_checks b"

datatype hook = PreLock | PostLock | PreUnlock | PostUnlock

section \<open>State\<close>

text \<open>
  \<open>cm_hook\<close> is the hook a thread is about to call. \<open>cm_hooks\<close> are the calls that have been
  made, in their order; the macros call them in a ThreadSanitizer build only.
\<close>

record ('d, 'k) checked_sys =
  cm_mutex :: "('d, 'k) mutex_sys"
  cm_chk :: chk_sys
  cm_hook :: "nat \<Rightarrow> hook option"
  cm_hooks :: "(nat \<times> hook) list"

abbreviation cm_pc :: "('d, 'k) checked_sys \<Rightarrow> nat \<Rightarrow> chk_pc" where
  "cm_pc s t \<equiv> k_pc (chk_threads (cm_chk s) t)"

abbreviation cm_state_pc :: "('d, 'k) checked_sys \<Rightarrow> nat \<Rightarrow> 'd lock_pc" where
  "cm_state_pc s t \<equiv> t_pc (threads (cm_mutex s) t)"

definition cm_goto :: "nat \<Rightarrow> chk_pc \<Rightarrow> ('d, 'k) checked_sys \<Rightarrow> ('d, 'k) checked_sys" where
  "cm_goto t l s = s\<lparr>cm_chk := goto_pc t l (cm_chk s)\<rparr>"

definition before_hook :: "nat \<Rightarrow> hook \<Rightarrow> ('d, 'k) checked_sys \<Rightarrow> ('d, 'k) checked_sys" where
  "before_hook t h s = s\<lparr>cm_hook := (cm_hook s)(t := Some h)\<rparr>"

definition call_hook :: "build \<Rightarrow> nat \<Rightarrow> hook \<Rightarrow> ('d, 'k) checked_sys \<Rightarrow> ('d, 'k) checked_sys" where
  "call_hook b t h s =
     s\<lparr>cm_hook := (cm_hook s)(t := None), cm_hooks := if has_tsan b then cm_hooks s @ [(t, h)] else cm_hooks s\<rparr>"

section \<open>Operations\<close>

text \<open>
  The start of \<open>lock\<close>, \<open>try_lock\<close> and \<open>unlock\<close>, the way from the check of \<open>lock\<close> to its first
  compare and swap, and the stores of the owner.
\<close>

definition lock_called :: "build \<Rightarrow> nat \<Rightarrow> lock_call \<Rightarrow> ('d, 'k) checked_sys \<Rightarrow> ('d, 'k) checked_sys" where
  "lock_called b t f s = before_hook t PreLock (cm_goto t (if owner_checks b then K_LockSet f else K_Acquire f) s)"

definition unlock_called :: "build \<Rightarrow> nat \<Rightarrow> ('d, 'k) checked_sys \<Rightarrow> ('d, 'k) checked_sys" where
  "unlock_called b t s =
     (if owner_checks b then cm_goto t K_UnlockSet s else before_hook t PreUnlock (cm_goto t K_Exchange s))"

fun to_cas :: "lock_call \<Rightarrow> 'd lock_thread \<Rightarrow> 'd lock_thread" where
  "to_cas Lock th = th\<lparr>t_pc := L_Fast, t_pauses := 0\<rparr>"
| "to_cas TryLock th = th\<lparr>t_pc := L_Try, t_got := None\<rparr>"

fun enter_state :: "nat \<Rightarrow> chk_pc \<Rightarrow> ('d, 'k) checked_sys \<Rightarrow> ('d, 'k) checked_sys option" where
  "enter_state t (K_Acquire f) s =
     (if cm_state_pc s t = L_Idle \<or> cm_state_pc s t = L_Critical then
        Some (s\<lparr>cm_mutex := set_thread t (to_cas f (threads (cm_mutex s) t)) (cm_mutex s)\<rparr>)
      else None)"
| "enter_state t _ s = None"

fun owner_stores :: "nat \<Rightarrow> chk_pc \<Rightarrow> ('d, 'k) checked_sys \<Rightarrow> ('d, 'k) checked_sys option" where
  "owner_stores t K_StoreOwner s = Some (s\<lparr>cm_chk := store_owner t (Some t) K_StoreSet (cm_chk s)\<rparr>)"
| "owner_stores t K_StoreSet s =
     Some (before_hook t PostLock (s\<lparr>cm_chk := store_set t True K_Holds (cm_chk s)\<rparr>))"
| "owner_stores t K_ClearSet s = Some (s\<lparr>cm_chk := store_set t False K_ClearOwner (cm_chk s)\<rparr>)"
| "owner_stores t K_ClearOwner s =
     Some (before_hook t PreUnlock (s\<lparr>cm_chk := store_owner t None K_Exchange (cm_chk s)\<rparr>))"
| "owner_stores t _ s = None"

text \<open>
  What follows an access to \<open>_state\<close>, after which the thread is at \<open>m\<close> there: the mutex is
  locked, \<open>try_lock\<close> returns \<open>false\<close>, or the wake-up of \<open>unlock\<close> is done.
\<close>

fun after_access :: "build \<Rightarrow> nat \<Rightarrow> chk_pc \<Rightarrow> 'd lock_pc \<Rightarrow> ('d, 'k) checked_sys \<Rightarrow> ('d, 'k) checked_sys" where
  "after_access b t (K_Acquire f) L_Critical s =
     (let s' = s\<lparr>cm_chk := (cm_chk s)\<lparr>held := Some t\<rparr>\<rparr>
      in if owner_checks b then cm_goto t K_StoreOwner s' else before_hook t PostLock (cm_goto t K_Holds s'))"
| "after_access b t (K_Acquire f) L_Idle s = cm_goto t K_Idle s"
| "after_access b t K_Idle L_Idle s = before_hook t PostUnlock s"
| "after_access b t _ _ s = s"

text \<open>The exchange of \<open>unlock\<close>.\<close>

fun release_state :: "nat \<Rightarrow> chk_pc \<Rightarrow> ('d, 'k) checked_sys \<Rightarrow> ('d, 'k) checked_sys option" where
  "release_state t K_Exchange s =
     (let s' = cm_goto t K_Idle (s\<lparr>cm_mutex := unlock t (cm_mutex s), cm_chk := (cm_chk s)\<lparr>held := None\<rparr>\<rparr>)
      in Some (if cm_state_pc s' t = L_Idle then before_hook t PostUnlock s' else s'))"
| "release_state t _ s = None"

section \<open>Steps\<close>

datatype 'd checked_action =
    CmLock nat lock_call
  | CmUnlock nat
  | CmHook nat
  | CmLoad nat nat
  | CmEnter nat
  | CmAccess "'d mutex_action"
  | CmStore nat
  | CmRelease nat
  | CmUpdate nat "'d \<Rightarrow> 'd"
  | CmSignal nat

text \<open>A thread between two calls.\<close>

definition may_call :: "nat \<Rightarrow> ('d, 'k) checked_sys \<Rightarrow> bool" where
  "may_call t s \<longleftrightarrow> cm_hook s t = None \<and> (cm_pc s t = K_Idle \<or> cm_pc s t = K_Holds) \<and>
     (cm_state_pc s t = L_Idle \<or> cm_state_pc s t = L_Critical)"

fun cm_do ::
  "build \<Rightarrow> 'k futex \<Rightarrow> 'd checked_action \<Rightarrow> ('d, 'k) checked_sys \<Rightarrow> ('d, 'k) checked_sys option" where
  "cm_do b fx (CmLock t f) s = (if may_call t s then Some (lock_called b t f s) else None)"
| "cm_do b fx (CmUnlock t) s = (if may_call t s then Some (unlock_called b t s) else None)"
| "cm_do b fx (CmHook t) s = map_option (\<lambda>h. call_hook b t h s) (cm_hook s t)"
| "cm_do b fx (CmLoad t c) s =
     (if cm_hook s t = None then
        map_option (\<lambda>k. s\<lparr>cm_chk := k\<rparr>) (owner_check t c (cm_pc s t) (cm_chk s))
      else None)"
| "cm_do b fx (CmEnter t) s = (if cm_hook s t = None then enter_state t (cm_pc s t) s else None)"
| "cm_do b fx (CmAccess a) s =
     (if is_access a \<and> cm_hook s (actor a) = None then
        map_option (\<lambda>m. after_access b (actor a) (cm_pc s (actor a)) (t_pc (threads m (actor a))) (s\<lparr>cm_mutex := m\<rparr>))
          (mutex_act fx a (cm_mutex s))
      else None)"
| "cm_do b fx (CmStore t) s = (if cm_hook s t = None then owner_stores t (cm_pc s t) s else None)"
| "cm_do b fx (CmRelease t) s = (if cm_hook s t = None then release_state t (cm_pc s t) s else None)"
| "cm_do b fx (CmUpdate t f) s =
     (if cm_hook s t = None \<and> cm_pc s t = K_Holds then
        map_option (\<lambda>m. s\<lparr>cm_mutex := m\<rparr>) (mutex_act fx (Update t f) (cm_mutex s))
      else None)"
| "cm_do b fx (CmSignal t) s =
     map_option (\<lambda>m. s\<lparr>cm_mutex := m\<rparr>) (mutex_act fx (Interrupt t) (cm_mutex s))"

text \<open>A failed assertion, like \<open>std::terminate\<close>, ends the program.\<close>

definition cm_act ::
  "build \<Rightarrow> 'k futex \<Rightarrow> 'd checked_action \<Rightarrow> ('d, 'k) checked_sys \<Rightarrow> ('d, 'k) checked_sys option" where
  "cm_act b fx a s =
     (if failed (cm_chk s) = None \<and> mx_fault (cm_mutex s) = None \<and> \<not> mx_terminated (cm_mutex s)
      then cm_do b fx a s else None)"

inductive cm_step :: "build \<Rightarrow> 'k futex \<Rightarrow> ('d, 'k) checked_sys \<Rightarrow> ('d, 'k) checked_sys \<Rightarrow> bool"
  for b :: build and fx :: "'k futex" where
  "cm_act b fx a s = Some s' \<Longrightarrow> cm_step b fx s s'"

inductive_cases cm_stepE: "cm_step b fx s s'"

definition cm_init :: "'k futex \<Rightarrow> 'd \<Rightarrow> ('d, 'k) checked_sys \<Rightarrow> bool" where
  "cm_init fx d s \<longleftrightarrow> mutex_init fx d (cm_mutex s) \<and> chk_init (cm_chk s) \<and>
     cm_hook s = (\<lambda>_. None) \<and> cm_hooks s = []"

abbreviation cm_reach :: "build \<Rightarrow> 'k futex \<Rightarrow> 'd \<Rightarrow> ('d, 'k) checked_sys \<Rightarrow> bool" where
  "cm_reach b fx d \<equiv> reach (cm_init fx d) (cm_step b fx)"

fun cm_sched ::
  "build \<Rightarrow> 'k futex \<Rightarrow> 'd checked_action list \<Rightarrow> ('d, 'k) checked_sys \<Rightarrow> ('d, 'k) checked_sys option" where
  "cm_sched b fx [] s = Some s"
| "cm_sched b fx (a # as) s = (case cm_act b fx a s of None \<Rightarrow> None | Some s' \<Rightarrow> cm_sched b fx as s')"

section \<open>The two parts together\<close>

text \<open>Where a thread is in the checks, in the accesses to \<open>_state\<close>, and before which hook.\<close>

fun pc_link :: "chk_pc \<Rightarrow> 'd lock_pc \<Rightarrow> hook option \<Rightarrow> bool" where
  "pc_link K_Idle m h \<longleftrightarrow> m = L_Idle \<and> (h = None \<or> h = Some PostUnlock) \<or> m = U_Wake \<and> h = None"
| "pc_link (K_LockSet f) m h \<longleftrightarrow> (m = L_Idle \<or> m = L_Critical) \<and> (h = None \<or> h = Some PreLock)"
| "pc_link (K_LockOwner f) m h \<longleftrightarrow> (m = L_Idle \<or> m = L_Critical) \<and> h = None"
| "pc_link (K_Acquire f) m h \<longleftrightarrow>
     (m = L_Idle \<or> (if f = Lock then in_lock m else m = L_Try)) \<and> (h = None \<or> m = L_Idle \<and> h = Some PreLock)"
| "pc_link K_Holds m h \<longleftrightarrow> holds m \<and> (h = None \<or> m = L_Critical \<and> h = Some PostLock)"
| "pc_link K_UnlockSet m h \<longleftrightarrow> (m = L_Idle \<or> m = L_Critical) \<and> h = None"
| "pc_link K_UnlockOwner m h \<longleftrightarrow> (m = L_Idle \<or> m = L_Critical) \<and> h = None"
| "pc_link K_Exchange m h \<longleftrightarrow> m = L_Critical \<and> (h = None \<or> h = Some PreUnlock)"
| "pc_link _ m h \<longleftrightarrow> m = L_Critical \<and> h = None"

definition linked :: "('d, 'k) checked_sys \<Rightarrow> bool" where
  "linked s \<longleftrightarrow> (\<forall>t. (held (cm_chk s) = Some t \<longleftrightarrow> holds (cm_state_pc s t)) \<and>
     pc_link (cm_pc s t) (cm_state_pc s t) (cm_hook s t))"

definition cm_inv :: "'d \<Rightarrow> ('d, 'k) checked_sys \<Rightarrow> bool" where
  "cm_inv d s \<longleftrightarrow> mutex_inv d (cm_mutex s) \<and> chk_inv (cm_chk s) \<and> linked s"

lemma cm_simps [simp]:
  "cm_mutex (cm_goto t l s) = cm_mutex s" "cm_hook (cm_goto t l s) = cm_hook s"
  "cm_hooks (cm_goto t l s) = cm_hooks s" "cm_chk (cm_goto t l s) = goto_pc t l (cm_chk s)"
  "cm_mutex (before_hook t h s) = cm_mutex s" "cm_chk (before_hook t h s) = cm_chk s"
  "cm_hooks (before_hook t h s) = cm_hooks s" "cm_hook (before_hook t h s) = (cm_hook s)(t := Some h)"
  "cm_mutex (call_hook b t h s) = cm_mutex s" "cm_chk (call_hook b t h s) = cm_chk s"
  "cm_hook (call_hook b t h s) = (cm_hook s)(t := None)"
  "cm_hooks (call_hook b t h s) = (if has_tsan b then cm_hooks s @ [(t, h)] else cm_hooks s)"
  by (simp_all add: cm_goto_def before_hook_def call_hook_def)

lemma goto_pc_simps [simp]:
  "held (goto_pc t l k) = held k" "owners (goto_pc t l k) = owners k" "sets (goto_pc t l k) = sets k"
  "failed (goto_pc t l k) = failed k" "chk_threads (goto_pc t l k) = (chk_threads k)(t := (chk_threads k t)\<lparr>k_pc := l\<rparr>)"
  by (simp_all add: goto_pc_def)

lemma owner_store_simps [simp]:
  "held (store_owner t v l k) = held k" "failed (store_owner t v l k) = failed k"
  "k_pc (chk_threads (store_owner t v l k) u) = (if u = t then l else k_pc (chk_threads k u))"
  "held (store_set t w l k) = held k" "failed (store_set t w l k) = failed k"
  "k_pc (chk_threads (store_set t w l k) u) = (if u = t then l else k_pc (chk_threads k u))"
  by (simp_all add: store_owner_def store_set_def)

lemma linkedD:
  assumes "linked s"
  shows "held (cm_chk s) = Some t \<longleftrightarrow> holds (cm_state_pc s t)" "pc_link (cm_pc s t) (cm_state_pc s t) (cm_hook s t)"
  using assms by (simp_all add: linked_def)

text \<open>A step of thread \<open>t\<close>.\<close>

lemma linked_update:
  assumes "linked s"
    and "\<And>u. u \<noteq> t \<Longrightarrow> cm_pc s' u = cm_pc s u \<and> cm_state_pc s' u = cm_state_pc s u \<and> cm_hook s' u = cm_hook s u"
    and "\<And>u. u \<noteq> t \<Longrightarrow> held (cm_chk s') = Some u \<longleftrightarrow> held (cm_chk s) = Some u"
    and "held (cm_chk s') = Some t \<longleftrightarrow> holds (cm_state_pc s' t)"
    and "pc_link (cm_pc s' t) (cm_state_pc s' t) (cm_hook s' t)"
  shows "linked s'"
  unfolding linked_def
proof
  fix u
  show "(held (cm_chk s') = Some u \<longleftrightarrow> holds (cm_state_pc s' u)) \<and>
      pc_link (cm_pc s' u) (cm_state_pc s' u) (cm_hook s' u)"
    using assms(2,3) [of u] assms(4,5) linkedD [OF assms(1), of u] by (cases "u = t") simp_all
qed

text \<open>
  A step of the whole is a step or none of the mutex, and a step or none of the checks.
\<close>

definition simulated :: "'k futex \<Rightarrow> ('d, 'k) checked_sys \<Rightarrow> ('d, 'k) checked_sys \<Rightarrow> bool" where
  "simulated fx s s' \<longleftrightarrow> (cm_mutex s' = cm_mutex s \<or> mutex_step fx (cm_mutex s) (cm_mutex s')) \<and>
     (cm_chk s' = cm_chk s \<or> chk_step (cm_chk s) (cm_chk s'))"

lemma simulatedI:
  assumes "cm_mutex s' = cm_mutex s \<or> mutex_act fx a (cm_mutex s) = Some (cm_mutex s')"
    and "cm_chk s' = cm_chk s \<or> failed (cm_chk s) = None \<and> chk_do c (cm_chk s) = Some (cm_chk s')"
  shows "simulated fx s s'"
  using assms mutex_step.intros [of fx a] chk_step.intros [of _ c] by (auto simp: simulated_def)

lemma access_from:
  assumes "mutex_act fx a m = Some m'" and "is_access a"
  shows "in_lock (t_pc (threads m (actor a))) \<Longrightarrow>
      in_lock (t_pc (threads m' (actor a))) \<or> t_pc (threads m' (actor a)) = L_Critical"
    "t_pc (threads m (actor a)) = L_Try \<Longrightarrow>
      t_pc (threads m' (actor a)) = L_Idle \<or> t_pc (threads m' (actor a)) = L_Critical"
    "t_pc (threads m (actor a)) = U_Wake \<Longrightarrow>
      t_pc (threads m' (actor a)) = L_Idle \<or> t_pc (threads m' (actor a)) = U_Wake"
    "in_lock (t_pc (threads m (actor a))) \<or> t_pc (threads m (actor a)) = L_Try \<or> t_pc (threads m (actor a)) = U_Wake"
proof -
  let ?l = "t_pc (threads m (actor a))" and ?l' = "t_pc (threads m' (actor a))"
  have do: "mutex_do fx a m = Some m'" using assms(1) by (simp add: mutex_act_def split: if_splits)
  have "(in_lock ?l \<and> (in_lock ?l' \<or> ?l' = L_Critical)) \<or> (?l = L_Try \<and> (?l' = L_Idle \<or> ?l' = L_Critical)) \<or>
      (?l = U_Wake \<and> (?l' = L_Idle \<or> ?l' = U_Wake))"
  proof (cases a)
    case (CasWins t)
    with do show ?thesis by (cases "t_pc (threads m t)") (auto simp: acquire_rmw_def split: if_splits)
  next
    case (CasFails t c)
    with do show ?thesis by (cases "t_pc (threads m t)") (auto simp: spin_head_def split: if_splits)
  next
    case (Proceed t)
    with do show ?thesis
      by (cases "t_pc (threads m t)"; cases "fx_wait fx t (state_code (cur_state m)) (state_code Contended) (kern m)";
          cases "fst (fx_wait fx t (state_code (cur_state m)) (state_code Contended) (kern m))";
          cases "fx_wake fx (kern m)")
        (auto simp: acquire_rmw_def split: if_splits)
  qed (use assms(2) in simp_all)
  then show "in_lock ?l \<Longrightarrow> in_lock ?l' \<or> ?l' = L_Critical" "?l = L_Try \<Longrightarrow> ?l' = L_Idle \<or> ?l' = L_Critical"
    "?l = U_Wake \<Longrightarrow> ?l' = L_Idle \<or> ?l' = U_Wake" "in_lock ?l \<or> ?l = L_Try \<or> ?l = U_Wake"
    by (auto elim: in_lock.elims)
qed

definition cm_running :: "('d, 'k) checked_sys \<Rightarrow> bool" where
  "cm_running s \<longleftrightarrow> failed (cm_chk s) = None \<and> mx_fault (cm_mutex s) = None \<and> \<not> mx_terminated (cm_mutex s)"

lemma lock_called_ok:
  assumes "linked s" and "cm_running s" and "owner_checks b" and "may_call t s"
  shows "linked (lock_called b t f s)" "simulated fx s (lock_called b t f s)"
proof -
  note l = linkedD [OF assms(1), of t]
  show "linked (lock_called b t f s)"
    by (rule linked_update [OF assms(1), of t])
      (use l assms(3,4) in \<open>auto simp: lock_called_def may_call_def\<close>)
  show "simulated fx s (lock_called b t f s)"
    by (rule simulatedI [where c = "CallsLock t f"])
      (use assms in \<open>simp_all add: lock_called_def may_call_def cm_running_def\<close>)
qed

lemma unlock_called_ok:
  assumes "linked s" and "cm_running s" and "owner_checks b" and "may_call t s"
  shows "linked (unlock_called b t s)" "simulated fx s (unlock_called b t s)"
proof -
  note l = linkedD [OF assms(1), of t]
  show "linked (unlock_called b t s)"
    by (rule linked_update [OF assms(1), of t])
      (use l assms(3,4) in \<open>auto simp: unlock_called_def may_call_def\<close>)
  show "simulated fx s (unlock_called b t s)"
    by (rule simulatedI [where c = "CallsUnlock t"])
      (use assms in \<open>simp_all add: unlock_called_def may_call_def cm_running_def\<close>)
qed

lemma call_hook_ok:
  assumes "linked s" and "cm_hook s t = Some h"
  shows "linked (call_hook b t h s)" "simulated fx s (call_hook b t h s)"
proof -
  note l = linkedD [OF assms(1), of t]
  have "pc_link (cm_pc s t) (cm_state_pc s t) None" using l(2) assms(2) by (cases "cm_pc s t") auto
  then show "linked (call_hook b t h s)"
    by (intro linked_update [OF assms(1), of t]) (use l in simp_all)
  show "simulated fx s (call_hook b t h s)" by (simp add: simulated_def)
qed

lemma owner_check_frame:
  assumes "owner_check t c l k = Some k'"
  shows "held k' = held k" "u \<noteq> t \<Longrightarrow> k_pc (chk_threads k' u) = k_pc (chk_threads k u)"
  using assms by (cases "(t, c, l, k)" rule: owner_check.cases; auto split: if_splits)+

lemma load_ok:
  assumes "cm_inv d s" and "cm_running s" and "cm_hook s t = None"
    and "owner_check t c (cm_pc s t) (cm_chk s) = Some k"
  shows "linked (s\<lparr>cm_chk := k\<rparr>)" "simulated fx s (s\<lparr>cm_chk := k\<rparr>)"
proof -
  have inv: "chk_inv (cm_chk s)" and ln: "linked s" using assms(1) by (simp_all add: cm_inv_def)
  have do: "chk_do (Loads t c) (cm_chk s) = Some k" using assms(4) by simp
  have run: "failed (cm_chk s) = None" using assms(2) by (simp add: cm_running_def)
  have "chk_inv k" using chk_step_inv [OF inv chk_step.intros [OF run do]] .
  note k = chk_invD(3) [OF this, of t] and l = linkedD [OF ln, of t] and fr = owner_check_frame [OF assms(4)]
  show "simulated fx s (s\<lparr>cm_chk := k\<rparr>)" by (rule simulatedI [where c = "Loads t c"]) (use do run in simp_all)
  have "pc_link (k_pc (chk_threads k t)) (cm_state_pc s t) None"
    using assms(3,4) l k fr(1) by (cases "cm_pc s t") (auto split: if_splits)
  then show "linked (s\<lparr>cm_chk := k\<rparr>)"
    by (intro linked_update [OF ln, of t]) (use l fr(1,2) assms(3) in simp_all)
qed

lemma enter_ok:
  assumes "cm_inv d s" and "cm_running s" and "cm_hook s t = None" and "enter_state t (cm_pc s t) s = Some s'"
  shows "linked s'" "simulated fx s s'"
proof -
  have ln: "linked s" and inv: "chk_inv (cm_chk s)" using assms(1) by (simp_all add: cm_inv_def)
  note l = linkedD [OF ln, of t] and k = chk_invD(3) [OF inv, of t]
  from assms(4) obtain f where pc: "cm_pc s t = K_Acquire f"
    and s': "s' = s\<lparr>cm_mutex := set_thread t (to_cas f (threads (cm_mutex s) t)) (cm_mutex s)\<rparr>"
    and m: "cm_state_pc s t = L_Idle \<or> cm_state_pc s t = L_Critical"
    by (cases "cm_pc s t") (auto split: if_splits)
  have "held (cm_chk s) \<noteq> Some t" using k pc by simp
  with l m have idle: "cm_state_pc s t = L_Idle" by auto
  show "linked s'"
    by (rule linked_update [OF ln, of t])
      (use l pc idle assms(3) in \<open>cases f; auto simp: s'\<close>)+
  show "simulated fx s s'"
    by (rule simulatedI [where a = "case f of Lock \<Rightarrow> CallLock t | TryLock \<Rightarrow> CallTryLock t"])
      (use idle assms(2) in \<open>auto simp: s' mutex_act_def cm_running_def split: lock_call.splits\<close>)
qed

lemma store_ok:
  assumes "linked s" and "cm_running s" and "cm_hook s t = None" and "owner_stores t (cm_pc s t) s = Some s'"
  shows "linked s'" "simulated fx s s'"
proof -
  note l = linkedD [OF assms(1), of t]
  show "linked s'"
    by (rule linked_update [OF assms(1), of t]; cases "cm_pc s t") (use assms(3,4) l in auto)
  show "simulated fx s s'"
    by (rule simulatedI [where c = "Steps t"]; cases "cm_pc s t") (use assms(2,4) in \<open>auto simp: cm_running_def\<close>)
qed

text \<open>The access that locks the mutex: nobody held it.\<close>

lemma locked_linked:
  assumes inv: "cm_inv d s" and m: "mutex_act fx a (cm_mutex s) = Some m" and t: "actor a = t"
    and pc: "cm_pc s t = K_Acquire f" and crit: "t_pc (threads m t) = L_Critical" and oc: "owner_checks b"
    and hk: "cm_hook s t = None" and run: "cm_running s"
  shows "linked (after_access b t (K_Acquire f) L_Critical (s\<lparr>cm_mutex := m\<rparr>))"
    "simulated fx s (after_access b t (K_Acquire f) L_Critical (s\<lparr>cm_mutex := m\<rparr>))"
proof -
  let ?s = "after_access b t (K_Acquire f) L_Critical (s\<lparr>cm_mutex := m\<rparr>)"
  have ln: "linked s" and minv: "mutex_inv d (cm_mutex s)" and kinv: "chk_inv (cm_chk s)"
    using inv by (simp_all add: cm_inv_def)
  have do: "mutex_do fx a (cm_mutex s) = Some m" using m by (simp add: mutex_act_def split: if_splits)
  from mutex_act_inv [OF minv m] obtain h where h: "mutex_at d h m" by (auto simp: mutex_inv_def)
  have h': "h = Some t" using mutex_atD(5) [OF h, rule_format, of t] crit by simp
  have others: "threads m u = threads (cm_mutex s) u" if "u \<noteq> t" for u
    by (rule mutex_do_others [OF do]) (use that t in simp)
  have free: "held (cm_chk s) = None"
  proof (rule ccontr)
    assume "held (cm_chk s) \<noteq> None"
    then obtain u where u: "held (cm_chk s) = Some u" by auto
    have "u \<noteq> t" using chk_invD(3) [OF kinv, of t] pc u by auto
    with u linkedD(1) [OF ln, of u] others [of u] have "holds (t_pc (threads m u))" by simp
    with mutex_atD(5) [OF h] h' \<open>u \<noteq> t\<close> show False by auto
  qed
  show "linked ?s"
    by (rule linked_update [OF ln, of t]) (use others free oc crit hk in \<open>auto simp: Let_def\<close>)
  show "simulated fx s ?s"
    by (rule simulatedI [where a = a and c = "Steps t"])
      (use m pc free oc run in \<open>simp_all add: Let_def cm_running_def goto_pc_def set_chk_def\<close>)
qed

lemma in_lock_not_holds: "in_lock m \<Longrightarrow> \<not> holds m"
  by (cases m) simp_all

lemma access_ok:
  assumes inv: "cm_inv d s" and run: "cm_running s" and oc: "owner_checks b"
    and acc: "is_access a" and hk: "cm_hook s (actor a) = None" and m: "mutex_act fx a (cm_mutex s) = Some m"
  defines "t \<equiv> actor a"
  defines "s' \<equiv> after_access b t (cm_pc s t) (t_pc (threads m t)) (s\<lparr>cm_mutex := m\<rparr>)"
  shows "linked s'" "simulated fx s s'"
proof -
  have ln: "linked s" using inv by (simp add: cm_inv_def)
  note l = linkedD [OF ln, of t]
  note fr = access_from [OF m acc, folded t_def]
  have do: "mutex_do fx a (cm_mutex s) = Some m" using m by (simp add: mutex_act_def split: if_splits)
  have others: "threads m u = threads (cm_mutex s) u" if "u \<noteq> t" for u
    by (rule mutex_do_others [OF do]) (use that in \<open>simp add: t_def\<close>)
  have nh: "held (cm_chk s) \<noteq> Some t" using l(1) fr(4) by (auto elim: in_lock.elims)
  have "linked s' \<and> simulated fx s s'"
  proof (cases "cm_pc s t")
    case K_Idle
    then have "cm_state_pc s t = U_Wake" using l(2) fr(4) by auto
    from fr(3) [OF this] have "t_pc (threads m t) = L_Idle \<or> t_pc (threads m t) = U_Wake" .
    moreover have "linked s'"
      by (rule linked_update [OF ln, of t]) (use calculation others nh K_Idle hk in \<open>auto simp: s'_def t_def\<close>)
    moreover have "simulated fx s s'"
      by (rule simulatedI [where a = a]) (use calculation K_Idle m in \<open>auto simp: s'_def\<close>)
    ultimately show ?thesis by blast
  next
    case (K_Acquire f)
    consider "t_pc (threads m t) = L_Critical" | "f = TryLock" "t_pc (threads m t) = L_Idle" |
      "f = Lock" "in_lock (t_pc (threads m t))"
      using l(2) K_Acquire fr(1,2,4) by (cases f) auto
    then show ?thesis
    proof cases
      case 1
      have "actor a = t" "cm_hook s t = None" using hk by (simp_all add: t_def)
      with locked_linked [OF inv m _ K_Acquire 1 oc _ run] 1 K_Acquire show ?thesis
        by (simp add: s'_def)
    next
      case 2
      have "linked s'"
        by (rule linked_update [OF ln, of t]) (use 2 others nh K_Acquire hk in \<open>auto simp: s'_def t_def\<close>)
      moreover have "simulated fx s s'"
        by (rule simulatedI [where a = a and c = "TryFails t"])
          (use 2 K_Acquire m run in \<open>simp_all add: s'_def cm_running_def\<close>)
      ultimately show ?thesis by blast
    next
      case 3
      then have eq: "s' = s\<lparr>cm_mutex := m\<rparr>"
        using K_Acquire by (cases "t_pc (threads m t)") (simp_all add: s'_def)
      have "linked s'"
        by (rule linked_update [OF ln, of t])
          (use 3 others nh K_Acquire hk in \<open>auto simp: eq t_def elim: in_lock.elims\<close>)
      moreover have "simulated fx s s'" by (rule simulatedI [where a = a]) (use m in \<open>simp_all add: eq\<close>)
      ultimately show ?thesis by blast
    qed
  qed (use l(2) fr(4) in_lock_not_holds in auto)
  then show "linked s'" "simulated fx s s'" by blast+
qed

lemma release_ok:
  assumes inv: "cm_inv d s" and run: "cm_running s" and hk: "cm_hook s t = None"
    and rel: "release_state t (cm_pc s t) s = Some s'"
  shows "linked s'" "simulated fx s s'"
proof -
  have ln: "linked s" using inv by (simp add: cm_inv_def)
  note l = linkedD [OF ln, of t]
  from rel have pc: "cm_pc s t = K_Exchange" by (cases "cm_pc s t") simp_all
  with l have h: "held (cm_chk s) = Some t" "cm_state_pc s t = L_Critical" by simp_all
  let ?m = "unlock t (cm_mutex s)"
  let ?s1 = "cm_goto t K_Idle (s\<lparr>cm_mutex := ?m, cm_chk := (cm_chk s)\<lparr>held := None\<rparr>\<rparr>)"
  have s': "s' = (if t_pc (threads ?m t) = L_Idle then before_hook t PostUnlock ?s1 else ?s1)"
    using rel pc by (simp add: Let_def)
  have th: "threads ?m u = threads (cm_mutex s) u" if "u \<noteq> t" for u
    using that by (simp add: unlock_def release_rmw_def)
  have "t_pc (threads ?m t) = L_Idle \<or> t_pc (threads ?m t) = U_Wake" by (simp add: unlock_def release_rmw_def)
  then show "linked s'"
    by (intro linked_update [OF ln, of t]) (use th hk h in \<open>auto simp: s'\<close>)
  show "simulated fx s s'"
    by (rule simulatedI [where a = "CallUnlock t" and c = "Steps t"])
      (use h pc run in \<open>simp_all add: s' mutex_act_def cm_running_def goto_pc_def set_chk_def\<close>)
qed

lemma update_ok:
  assumes inv: "cm_inv d s" and hk: "cm_hook s t = None" and pc: "cm_pc s t = K_Holds"
    and m: "mutex_act fx (Update t f) (cm_mutex s) = Some m"
  shows "linked (s\<lparr>cm_mutex := m\<rparr>)" "simulated fx s (s\<lparr>cm_mutex := m\<rparr>)"
proof -
  have ln: "linked s" using inv by (simp add: cm_inv_def)
  have do: "mutex_do fx (Update t f) (cm_mutex s) = Some m" using m by (simp add: mutex_act_def split: if_splits)
  have others: "threads m u = threads (cm_mutex s) u" if "u \<noteq> t" for u
    by (rule mutex_do_others [OF do]) (use that in simp)
  have "holds (t_pc (threads m t))"
    using do by (cases "cm_state_pc s t") (auto simp: touch_def)
  then show "linked (s\<lparr>cm_mutex := m\<rparr>)"
    by (intro linked_update [OF ln, of t]) (use others linkedD [OF ln, of t] hk pc in auto)
  show "simulated fx s (s\<lparr>cm_mutex := m\<rparr>)" by (rule simulatedI [where a = "Update t f"]) (use m in simp_all)
qed

lemma signal_ok:
  assumes "linked s" and m: "mutex_act fx (Interrupt t) (cm_mutex s) = Some m"
  shows "linked (s\<lparr>cm_mutex := m\<rparr>)" "simulated fx s (s\<lparr>cm_mutex := m\<rparr>)"
proof -
  have "threads m = threads (cm_mutex s)" using m by (auto simp: mutex_act_def split: if_splits)
  then show "linked (s\<lparr>cm_mutex := m\<rparr>)" using assms(1) by (simp add: linked_def)
  show "simulated fx s (s\<lparr>cm_mutex := m\<rparr>)" by (rule simulatedI [where a = "Interrupt t"]) (use m in simp_all)
qed

lemma cm_do_ok:
  assumes inv: "cm_inv d s" and run: "cm_running s" and oc: "owner_checks b" and step: "cm_do b fx a s = Some s'"
  shows "linked s' \<and> simulated fx s s'"
proof -
  have ln: "linked s" using inv by (simp add: cm_inv_def)
  show ?thesis
  proof (cases a)
    case (CmLock t f)
    with step lock_called_ok [OF ln run oc, of t] show ?thesis by (auto split: if_splits)
  next
    case (CmUnlock t)
    with step unlock_called_ok [OF ln run oc, of t] show ?thesis by (auto split: if_splits)
  next
    case (CmHook t)
    with step call_hook_ok [OF ln, of t] show ?thesis by auto
  next
    case (CmLoad t c)
    with step load_ok [OF inv run, of t c] show ?thesis by (auto split: if_splits)
  next
    case (CmEnter t)
    with step enter_ok [OF inv run, of t s'] show ?thesis by (simp split: if_splits)
  next
    case (CmAccess x)
    with step access_ok [OF inv run oc, of x fx] show ?thesis by (auto split: if_splits)
  next
    case (CmStore t)
    with step store_ok [OF ln run, of t s'] show ?thesis by (simp split: if_splits)
  next
    case (CmRelease t)
    with step release_ok [OF inv run, of t s'] show ?thesis by (simp split: if_splits)
  next
    case (CmUpdate t f)
    with step update_ok [OF inv, of t fx f] show ?thesis by (auto split: if_splits)
  next
    case (CmSignal t)
    with step signal_ok [OF ln, of fx t] show ?thesis by auto
  qed
qed

lemma simulated_inv:
  assumes "cm_inv d s" and "simulated fx s s'" and "linked s'"
  shows "cm_inv d s'"
  using assms mutex_run.inv_step [of d "cm_mutex s" fx "cm_mutex s'"] chk_step_inv [of "cm_chk s" "cm_chk s'"]
  by (auto simp: cm_inv_def simulated_def)

lemma cm_step_ok:
  assumes "cm_inv d s" and "cm_step b fx s s'" and "owner_checks b"
  shows "cm_inv d s'" "simulated fx s s'"
proof -
  from assms(2) obtain a where "cm_act b fx a s = Some s'" by (rule cm_stepE)
  then have "cm_running s" "cm_do b fx a s = Some s'" by (simp_all add: cm_act_def cm_running_def split: if_splits)
  with cm_do_ok [OF assms(1) _ assms(3)] have "linked s' \<and> simulated fx s s'" by blast
  with simulated_inv [OF assms(1)] show "cm_inv d s'" "simulated fx s s'" by blast+
qed

lemma cm_init_inv: "cm_init fx d s \<Longrightarrow> cm_inv d s"
  by (auto simp: cm_init_def cm_inv_def linked_def mutex_inv_init chk_init_inv mutex_init_def chk_init_def)

lemma cm_init_sim: "cm_init fx d s \<Longrightarrow> cm_inv d s \<and> mutex_init fx d (cm_mutex s) \<and> chk_init (cm_chk s)"
  using cm_init_inv by (simp add: cm_init_def)

lemma cm_step_sim:
  assumes "cm_inv d s" and "cm_step b fx s s'" and "owner_checks b"
  shows "cm_inv d s' \<and> (cm_mutex s' = cm_mutex s \<or> mutex_step fx (cm_mutex s) (cm_mutex s')) \<and>
    (cm_chk s' = cm_chk s \<or> chk_step (cm_chk s) (cm_chk s'))"
  using cm_step_ok [OF assms] by (simp add: simulated_def)

interpretation checked_mutex: stutter_simulation "\<lambda>s. owner_checks b \<and> cm_init fx d s" "cm_step b fx"
  "\<lambda>s. owner_checks b \<and> cm_inv d s" "mutex_init fx d" "mutex_step fx" cm_mutex
  for b :: build and fx :: "'k futex" and d :: 'd
  by unfold_locales (blast dest: cm_init_sim, blast dest: cm_step_sim)

interpretation checked_checks: stutter_simulation "\<lambda>s. owner_checks b \<and> cm_init fx d s" "cm_step b fx"
  "\<lambda>s. owner_checks b \<and> cm_inv d s" chk_init chk_step cm_chk
  for b :: build and fx :: "'k futex" and d :: 'd
  by unfold_locales (blast dest: cm_init_sim, blast dest: cm_step_sim)

lemma cm_reachD:
  assumes "owner_checks b" and "cm_reach b fx d s"
  shows "cm_inv d s" "mutex_reach fx d (cm_mutex s)" "reach chk_init chk_step (cm_chk s)"
  using checked_mutex.reach_sim [of b fx d s] checked_checks.reach_sim [of b fx d s] assms by simp_all

section \<open>The protocol of the hooks\<close>

text \<open>
  What ThreadSanitizer sees of one thread: it starts to lock and has locked, starts to unlock
  and has unlocked. \<open>Relocking\<close> is \<open>lock\<close> on a mutex the thread holds.
\<close>

datatype phase = Outside | Locking | Inside | Relocking | Unlocking

fun phase_next :: "hook \<Rightarrow> phase \<Rightarrow> phase option" where
  "phase_next PreLock Outside = Some Locking"
| "phase_next PreLock Locking = Some Locking"   \<comment> \<open>after a \<open>try_lock\<close> that failed\<close>
| "phase_next PreLock Inside = Some Relocking"
| "phase_next PostLock Locking = Some Inside"
| "phase_next PreUnlock Inside = Some Unlocking"
| "phase_next PostUnlock Unlocking = Some Outside"
| "phase_next _ _ = None"

fun phase_run :: "hook list \<Rightarrow> phase \<Rightarrow> phase option" where
  "phase_run [] p = Some p"
| "phase_run (h # hs) p = (case phase_next h p of None \<Rightarrow> None | Some q \<Rightarrow> phase_run hs q)"

definition hooks_of :: "nat \<Rightarrow> (nat \<times> hook) list \<Rightarrow> hook list" where
  "hooks_of t hs = map snd (filter (\<lambda>x. fst x = t) hs)"



























section \<open>Examples\<close>

lemma cm_sched_reach: "cm_reach b fx d s \<Longrightarrow> cm_sched b fx as s = Some t \<Longrightarrow> cm_reach b fx d t"
proof (induction as arbitrary: s)
  case (Cons a as)
  from Cons.prems(2) obtain u where u: "cm_act b fx a s = Some u" "cm_sched b fx as u = Some t"
    by (auto split: option.splits)
  from reach.reach_step [OF Cons.prems(1) cm_step.intros [OF u(1)]] u(2) show ?case by (rule Cons.IH)
qed simp

definition cm_start :: "(int, nat list) checked_sys" where
  "cm_start = \<lparr>cm_mutex = mutex_start, cm_chk = chk_start, cm_hook = (\<lambda>_. None), cm_hooks = []\<rparr>"

lemma cm_start_reach: "cm_reach b list_futex 0 cm_start"
  by (rule reach.reach_init)
    (auto simp: cm_init_def cm_start_def mutex_init_def mutex_start_def chk_init_def chk_start_def list_futex_def)

lemmas cm_eval = cm_act_def cm_start_def chk_start_def mutex_eval may_call_def lock_called_def unlock_called_def
  cm_goto_def before_hook_def call_hook_def goto_pc_def set_chk_def store_owner_def store_set_def
  has_tsan_def owner_checks_def

text \<open>A ThreadSanitizer build, and one with neither hooks nor checks.\<close>

definition tsan_build :: build where
  "tsan_build = \<lparr>has_feature = True, thread_sanitizer = True, deadlock_checks = False\<rparr>"

definition plain_build :: build where
  "plain_build = \<lparr>has_feature = True, thread_sanitizer = False, deadlock_checks = False\<rparr>"

text \<open>Thread 0 locks; thread 1 tries to lock, in vain; thread 0 calls \<open>lock\<close> again.\<close>

definition cm_demo :: "int checked_action list" where
  "cm_demo =
     [CmLock 0 Lock, CmHook 0, CmLoad 0 0, CmEnter 0, CmAccess (CasWins 0), CmStore 0, CmStore 0, CmHook 0,
      CmLock 1 TryLock, CmHook 1, CmLoad 1 0, CmEnter 1, CmAccess (CasFails 1 1),
      CmLock 0 Lock, CmHook 0, CmLoad 0 1]"

lemma cm_demo_state:
  obtains s :: "(int, nat list) checked_sys" where "cm_reach tsan_build list_futex 0 s" "failed (cm_chk s) = None" "cm_pc s 0 = K_LockOwner Lock"
    "cm_hook s 0 = None" "cm_state_pc s 0 = L_Critical" "may_call 1 s" "cm_pc s 1 = K_Idle"
    "t_got (threads (cm_mutex s) 1) = Some False"
    "cm_hooks s = [(0, PreLock), (0, PostLock), (1, PreLock), (0, PreLock)]"
    "k_own (chk_threads (cm_chk s) 0) = 1" "owners (cm_chk s) = [None, Some 0]"
    "mx_fault (cm_mutex s) = None" "\<not> mx_terminated (cm_mutex s)"
proof -
  have "\<exists>s :: (int, nat list) checked_sys. cm_sched tsan_build list_futex cm_demo cm_start = Some s \<and> failed (cm_chk s) = None \<and>
    cm_pc s 0 = K_LockOwner Lock \<and> cm_hook s 0 = None \<and> cm_state_pc s 0 = L_Critical \<and> may_call 1 s \<and>
    cm_pc s 1 = K_Idle \<and> t_got (threads (cm_mutex s) 1) = Some False \<and>
    cm_hooks s = [(0, PreLock), (0, PostLock), (1, PreLock), (0, PreLock)] \<and>
    k_own (chk_threads (cm_chk s) 0) = 1 \<and> owners (cm_chk s) = [None, Some 0] \<and>
    mx_fault (cm_mutex s) = None \<and> \<not> mx_terminated (cm_mutex s)"
    by (simp add: cm_demo_def tsan_build_def cm_eval)
  then show ?thesis by (elim exE conjE) (rule that [OF cm_sched_reach [OF cm_start_reach]])
qed

text \<open>
  After a \<open>try_lock\<close> that fails, the thread is between two calls, but for ThreadSanitizer it
  is still locking: the hook that ends the attempt is not called.
\<close>

lemma failed_try_lock_open:
  "\<exists>s. cm_reach tsan_build list_futex 0 (s :: (int, nat list) checked_sys) \<and> may_call 1 s \<and>
     t_got (threads (cm_mutex s) 1) = Some False \<and> phase_run (hooks_of 1 (cm_hooks s)) Outside = Some Locking"
proof -
  obtain s :: "(int, nat list) checked_sys" where s: "cm_reach tsan_build list_futex 0 s" "may_call 1 s"
    "t_got (threads (cm_mutex s) 1) = Some False" "cm_hooks s = [(0, PreLock), (0, PostLock), (1, PreLock), (0, PreLock)]"
    by (rule cm_demo_state)
  then show ?thesis by (intro exI [of _ s]) (simp add: hooks_of_def)
qed

text \<open>
  Without the checks a thread that unlocks a mutex it does not hold opens it for a second
  owner.
\<close>

lemma unchecked_misuse:
  "\<exists>s. cm_reach plain_build list_futex 0 (s :: (int, nat list) checked_sys) \<and>
     cm_state_pc s 0 = L_Critical \<and> cm_state_pc s 2 = L_Critical"
proof -
  have "\<exists>s :: (int, nat list) checked_sys. cm_sched plain_build list_futex
      [CmLock 0 Lock, CmHook 0, CmEnter 0, CmAccess (CasWins 0), CmHook 0, CmUnlock 1, CmHook 1, CmRelease 1,
       CmLock 2 Lock, CmHook 2, CmEnter 2, CmAccess (CasWins 2)] cm_start = Some s \<and>
      cm_state_pc s 0 = L_Critical \<and> cm_state_pc s 2 = L_Critical"
    by (simp add: plain_build_def cm_eval)
  then show ?thesis using cm_sched_reach [OF cm_start_reach] by blast
qed

text \<open>The header of \<open>pthread_self\<close> is missing where the checks are compiled without \<open>__has_feature\<close>.\<close>

lemma pthread_header: "owner_checks b \<longleftrightarrow> includes_pthread b \<or> deadlock_checks b \<and> \<not> has_feature b"
  by (auto simp: owner_checks_def includes_pthread_def has_tsan_def)

section \<open>Properties\<close>

text \<open>
  C21: A build with owner checks is safe for any client, one that calls \<open>lock\<close> twice or \<open>unlock\<close>
  without \<open>lock\<close> too: the states of the mutex it reaches are states of the mutex that is used
  well, so that all that holds of that one (mutual exclusion, serialised updates, no lost
  wake-up) holds here, up to the assertion that ends the program. And the holder the checks
  reason about is who holds the mutex.
\<close>

theorem checked_refines_mutex:
  assumes "owner_checks b" and "cm_reach b fx d s"
  shows "mutex_reach fx d (cm_mutex s) \<and> reach chk_init chk_step (cm_chk s) \<and>
    (\<forall>t. held (cm_chk s) = Some t \<longleftrightarrow> holds (cm_state_pc s t))"
proof -
  note r = cm_reachD [OF assms]
  from r(1) have "\<forall>t. held (cm_chk s) = Some t \<longleftrightarrow> holds (cm_state_pc s t)"
    by (simp add: cm_inv_def linked_def)
  with r(2,3) show ?thesis by blast
qed

theorem checked_refines_mutex_witness:
  "\<exists>s. cm_reach tsan_build list_futex 0 (s :: (int, nat list) checked_sys) \<and>
     cm_hooks s = [(0, PreLock), (0, PostLock), (1, PreLock), (0, PreLock)] \<and>
     mutex_reach list_futex 0 (cm_mutex s) \<and> held (cm_chk s) = Some 0"
proof -
  obtain s :: "(int, nat list) checked_sys" where s: "cm_reach tsan_build list_futex 0 s" "cm_state_pc s 0 = L_Critical"
    "cm_hooks s = [(0, PreLock), (0, PostLock), (1, PreLock), (0, PreLock)]" by (rule cm_demo_state)
  have "owner_checks tsan_build" by (simp add: tsan_build_def owner_checks_def has_tsan_def)
  from checked_refines_mutex [OF this s(1)] s show ?thesis by (intro exI [of _ s]) auto
qed

text \<open>
  C22: The assertions of such a build are right about the mutex, for stale loads of the owner too.
  One that has failed in \<open>lock\<close> or \<open>try_lock\<close> is that of a thread that holds the mutex, one that
  has failed in \<open>unlock\<close> that of a thread that does not. A thread that holds the mutex and
  calls \<open>lock\<close> goes on to load the owner and then can only fail, one that does not and loads
  it in \<open>unlock\<close> too; the others pass. No thread that holds the mutex gets to the compare
  and swap, and no thread that does not gets to the exchange.
\<close>

theorem checked_asserts_exact:
  assumes "owner_checks b" and "cm_reach b fx d s"
  shows "(failed (cm_chk s) = Some (t, False) \<longrightarrow> holds (cm_state_pc s t)) \<and>
    (failed (cm_chk s) = Some (t, True) \<longrightarrow> \<not> holds (cm_state_pc s t)) \<and>
    (\<forall>c s'. cm_act b fx (CmLoad t c) s = Some s' \<longrightarrow>
       (cm_pc s t = K_LockSet f \<and> holds (cm_state_pc s t) \<longrightarrow> cm_pc s' t = K_LockOwner f) \<and>
       (cm_pc s t = K_LockOwner f \<longrightarrow> (failed (cm_chk s') = Some (t, False) \<longleftrightarrow> holds (cm_state_pc s t))) \<and>
       (cm_pc s t = K_UnlockSet \<and> holds (cm_state_pc s t) \<longrightarrow> cm_pc s' t = K_UnlockOwner) \<and>
       (cm_pc s t = K_UnlockOwner \<longrightarrow> (failed (cm_chk s') = Some (t, True) \<longleftrightarrow> \<not> holds (cm_state_pc s t)))) \<and>
    (cm_pc s t = K_Acquire f \<longrightarrow> \<not> holds (cm_state_pc s t)) \<and>
    (cm_pc s t = K_Exchange \<longrightarrow> cm_state_pc s t = L_Critical)"
proof -
  note inv = cm_reachD(1) [OF assms]
  then have ln: "linked s" and kinv: "chk_inv (cm_chk s)" by (simp_all add: cm_inv_def)
  note l = linkedD [OF ln, of t]
  have rc: "reach chk_init chk_step (cm_chk s)" by (rule cm_reachD(3) [OF assms])
  have load: "\<exists>k. chk_do (Loads t c) (cm_chk s) = Some k \<and> s' = s\<lparr>cm_chk := k\<rparr> \<and> failed (cm_chk s) = None"
    if "cm_act b fx (CmLoad t c) s = Some s'" for c s'
    using that by (auto simp: cm_act_def split: if_splits)
  note ex = mutex_checks_exact [OF rc, of t f]
  have dec: "(cm_pc s t = K_LockSet f \<and> holds (cm_state_pc s t) \<longrightarrow> cm_pc s' t = K_LockOwner f) \<and>
       (cm_pc s t = K_LockOwner f \<longrightarrow> (failed (cm_chk s') = Some (t, False) \<longleftrightarrow> holds (cm_state_pc s t))) \<and>
       (cm_pc s t = K_UnlockSet \<and> holds (cm_state_pc s t) \<longrightarrow> cm_pc s' t = K_UnlockOwner) \<and>
       (cm_pc s t = K_UnlockOwner \<longrightarrow> (failed (cm_chk s') = Some (t, True) \<longleftrightarrow> \<not> holds (cm_state_pc s t)))"
    if "cm_act b fx (CmLoad t c) s = Some s'" for c s'
  proof -
    from load [OF that] obtain k where k: "chk_do (Loads t c) (cm_chk s) = Some k" "s' = s\<lparr>cm_chk := k\<rparr>"
      "failed (cm_chk s) = None" by blast
    from mutex_checks_decide [OF rc k(3), of t f, THEN conjunct2, rule_format, OF k(1)] k(2) l(1) show ?thesis
      by simp
  qed
  show ?thesis
  proof (intro conjI allI impI)
    show "cm_pc s t = K_Exchange \<Longrightarrow> cm_state_pc s t = L_Critical" using l(2) by simp
  qed (use ex l(1) dec in blast)+
qed

theorem checked_asserts_exact_witness:
  "\<exists>s s'. cm_reach tsan_build list_futex 0 (s :: (int, nat list) checked_sys) \<and>
     cm_act tsan_build list_futex (CmLoad 0 1) s = Some s' \<and> failed (cm_chk s') = Some (0, False)"
proof -
  obtain s :: "(int, nat list) checked_sys" where s: "cm_reach tsan_build list_futex 0 s" "failed (cm_chk s) = None"
    "cm_pc s 0 = K_LockOwner Lock" "cm_hook s 0 = None" "cm_state_pc s 0 = L_Critical"
    "k_own (chk_threads (cm_chk s) 0) = 1" "owners (cm_chk s) = [None, Some 0]"
    "mx_fault (cm_mutex s) = None" "\<not> mx_terminated (cm_mutex s)" by (rule cm_demo_state)
  have oc: "owner_checks tsan_build" by (simp add: tsan_build_def owner_checks_def has_tsan_def)
  let ?s' = "s\<lparr>cm_chk := (cm_chk s)\<lparr>failed := Some (0, False)\<rparr>\<rparr>"
  have step: "cm_act tsan_build list_futex (CmLoad 0 1) s = Some ?s'" using s(2-) by (simp add: cm_act_def)
  from checked_asserts_exact [OF oc s(1), of 0 Lock] step s(3,5) have "failed (cm_chk ?s') = Some (0, False)"
    by (metis holds.simps(1))
  with s(1) step show ?thesis by blast
qed



end
