(* ===== verification/LockContract.thy ===== *)
theory LockContract
  imports CheckedMutex
begin

text \<open>
  What the compiler is told about \<open>Mutex\<close>: the attributes of utils/attributes.hpp on its operations,
  the branch hints of utils/likely.hpp and the pause of utils/cpu_relax.hpp. The thread safety
  attributes are a contract on the calls of a thread. Clients that keep it get a mutex in
  every build, with the owner checks and without them, and no assertion fails.
\<close>

section \<open>Attributes\<close>

text \<open>The arguments of a macro are the tokens between its parentheses.\<close>

datatype macro =
    LOCKABLE
  | SCOPED_LOCKABLE
  | EXCLUSIVE_LOCK_FUNCTION "string list"
  | EXCLUSIVE_TRYLOCK_FUNCTION "string list"
  | UNLOCK_FUNCTION "string list"
  | NO_THREAD_SAFETY_ANALYSIS
  | ALWAYS_INLINE
  | NOINLINE

datatype attribute =
    Lockable
  | ScopedLockable
  | ExclusiveLock "string list"
  | ExclusiveTrylock "string list"
  | UnlockFunction "string list"
  | NoAnalysis
  | InlineAlways
  | InlineNever

text \<open>The first argument: \<open>defined(__clang__)\<close>.\<close>

fun expand :: "bool \<Rightarrow> macro \<Rightarrow> attribute list" where
  "expand clang LOCKABLE = (if clang then [Lockable] else [])"
| "expand clang SCOPED_LOCKABLE = (if clang then [ScopedLockable] else [])"
| "expand clang (EXCLUSIVE_LOCK_FUNCTION args) = (if clang then [ExclusiveLock args] else [])"
| "expand clang (EXCLUSIVE_TRYLOCK_FUNCTION args) = (if clang then [ExclusiveTrylock args] else [])"
| "expand clang (UNLOCK_FUNCTION args) = (if clang then [UnlockFunction args] else [])"
| "expand clang NO_THREAD_SAFETY_ANALYSIS = (if clang then [NoAnalysis] else [])"
| "expand clang ALWAYS_INLINE = [InlineAlways]"
| "expand clang NOINLINE = [InlineNever]"

text \<open>The macros on the declarations of the operations in mutex.hpp.\<close>

definition lock_macros :: "macro list" where
  "lock_macros = [ALWAYS_INLINE, EXCLUSIVE_LOCK_FUNCTION []]"

definition try_lock_macros :: "macro list" where
  "try_lock_macros = [ALWAYS_INLINE, EXCLUSIVE_TRYLOCK_FUNCTION [''true'']]"

definition unlock_macros :: "macro list" where
  "unlock_macros = [ALWAYS_INLINE, UNLOCK_FUNCTION []]"

datatype mutex_call = DoLock lock_call | DoUnlock

fun call_macros :: "mutex_call \<Rightarrow> macro list" where
  "call_macros (DoLock Lock) = lock_macros"
| "call_macros (DoLock TryLock) = try_lock_macros"
| "call_macros DoUnlock = unlock_macros"

definition call_attributes :: "bool \<Rightarrow> mutex_call \<Rightarrow> attribute list" where
  "call_attributes clang m = concat (map (expand clang) (call_macros m))"

section \<open>The contract\<close>

text \<open>
  What the attributes mean for a capability that is the object itself: a lock function is
  called without it and returns with it, a try-lock function does so if it returns the value
  that is its argument, an unlock function is called with it and returns without it.
\<close>

fun asks :: "bool \<Rightarrow> attribute \<Rightarrow> bool" where
  "asks cap (ExclusiveLock []) \<longleftrightarrow> \<not> cap"
| "asks cap (ExclusiveTrylock [v]) \<longleftrightarrow> \<not> cap"
| "asks cap (UnlockFunction []) \<longleftrightarrow> cap"
| "asks cap _ \<longleftrightarrow> True"

fun leaves :: "bool \<Rightarrow> attribute \<Rightarrow> bool \<Rightarrow> bool" where
  "leaves result (ExclusiveLock []) cap = True"
| "leaves result (ExclusiveTrylock [v]) cap = (if result = (v = ''true'') then True else cap)"
| "leaves result (UnlockFunction []) cap = False"
| "leaves result _ cap = cap"

fun contract_run :: "bool \<Rightarrow> (mutex_call \<times> bool) list \<Rightarrow> bool \<Rightarrow> bool option" where
  "contract_run clang [] cap = Some cap"
| "contract_run clang ((m, result) # calls) cap =
     (if list_all (asks cap) (call_attributes clang m)
      then contract_run clang calls (fold (leaves result) (call_attributes clang m) cap) else None)"

lemma call_attributes_simps [simp]:
  "call_attributes True (DoLock Lock) = [InlineAlways, ExclusiveLock []]"
  "call_attributes True (DoLock TryLock) = [InlineAlways, ExclusiveTrylock [''true'']]"
  "call_attributes True DoUnlock = [InlineAlways, UnlockFunction []]"
  "call_attributes False m = [InlineAlways]"
  by (simp_all add: call_attributes_def lock_macros_def try_lock_macros_def unlock_macros_def)
    (cases m rule: call_macros.cases; simp add: lock_macros_def try_lock_macros_def unlock_macros_def)


text \<open>Where the attributes are not there, nothing is asked of the calls.\<close>

lemma no_contract: "contract_run False calls cap = Some cap"
  by (induction calls arbitrary: cap) auto

section \<open>Hints\<close>

text \<open>\<open>__builtin_expect\<close> returns its first argument; \<open>!!\<close> makes 0 or 1 of it.\<close>

definition builtin_expect :: "int \<Rightarrow> int \<Rightarrow> int" where
  "builtin_expect e c = e"

definition likely :: "int \<Rightarrow> int" where
  "likely x = builtin_expect (of_bool (\<not> \<not> x \<noteq> 0)) 1"

definition unlikely :: "int \<Rightarrow> int" where
  "unlikely x = builtin_expect (of_bool (\<not> \<not> x \<noteq> 0)) 0"

text \<open>A hint changes no branch, which is why the models of the other theories have none.\<close>

lemma hints_keep_branches: "likely x \<noteq> 0 \<longleftrightarrow> x \<noteq> 0" "unlikely x \<noteq> 0 \<longleftrightarrow> x \<noteq> 0"
  by (simp_all add: likely_def unlikely_def builtin_expect_def)

text \<open>The instruction changes nothing a program can see; the models count it.\<close>

definition cpu_relax :: "'d lock_thread \<Rightarrow> 'd lock_thread" where
  "cpu_relax th = th\<lparr>t_pauses := t_pauses th + 1\<rparr>"

text \<open>\<open>for (int i = 0; i < (1 << backoff); ++i) details::cpu_relax();\<close>\<close>

lemma pause_loop: "(cpu_relax ^^ n) th = th\<lparr>t_pauses := t_pauses th + n\<rparr>"
  by (induction n) (simp_all add: cpu_relax_def)

lemma spin_head_pauses_loop:
  "n < spin_count \<Longrightarrow> spin_head n th = ((cpu_relax ^^ backoff n) th)\<lparr>t_pc := L_Spin n\<rparr>"
  by (simp add: spin_head_def pause_loop)

section \<open>Clients that keep the contract\<close>

text \<open>
  Each thread has the calls that have returned to it, with their results, and its last call.
  A call whose thread holds the mutex afterwards has returned \<open>true\<close>, if it is \<open>try_lock\<close>; the
  results of the others are not used.
\<close>

record ('d, 'k) client_sys =
  cl_sys :: "('d, 'k) checked_sys"
  cl_calls :: "nat \<Rightarrow> (mutex_call \<times> bool) list"
  cl_now :: "nat \<Rightarrow> mutex_call option"

definition returned :: "nat \<Rightarrow> ('d, 'k) client_sys \<Rightarrow> (mutex_call \<times> bool) list" where
  "returned t r = cl_calls r t @
     (case cl_now r t of None \<Rightarrow> [] | Some m \<Rightarrow> [(m, cm_pc (cl_sys r) t = K_Holds)])"

text \<open>What a call asks does not depend on its result.\<close>

definition in_contract :: "nat \<Rightarrow> mutex_call \<Rightarrow> ('d, 'k) client_sys \<Rightarrow> bool" where
  "in_contract t m r \<longleftrightarrow> contract_run True (returned t r @ [(m, False)]) False \<noteq> None"

definition begin_call :: "nat \<Rightarrow> mutex_call \<Rightarrow> ('d, 'k) client_sys \<Rightarrow> ('d, 'k) client_sys" where
  "begin_call t m r = r\<lparr>cl_calls := (cl_calls r)(t := returned t r), cl_now := (cl_now r)(t := Some m)\<rparr>"

fun client_next :: "'d checked_action \<Rightarrow> ('d, 'k) client_sys \<Rightarrow> ('d, 'k) client_sys option" where
  "client_next (CmLock t f) r = (if in_contract t (DoLock f) r then Some (begin_call t (DoLock f) r) else None)"
| "client_next (CmUnlock t) r = (if in_contract t DoUnlock r then Some (begin_call t DoUnlock r) else None)"
| "client_next a r = Some r"

definition client_act ::
  "build \<Rightarrow> 'k futex \<Rightarrow> 'd checked_action \<Rightarrow> ('d, 'k) client_sys \<Rightarrow> ('d, 'k) client_sys option" where
  "client_act b fx a r =
     (case cm_act b fx a (cl_sys r) of
        None \<Rightarrow> None
      | Some s \<Rightarrow> map_option (\<lambda>r'. r'\<lparr>cl_sys := s\<rparr>) (client_next a r))"

inductive client_step :: "build \<Rightarrow> 'k futex \<Rightarrow> ('d, 'k) client_sys \<Rightarrow> ('d, 'k) client_sys \<Rightarrow> bool"
  for b :: build and fx :: "'k futex" where
  "client_act b fx a r = Some r' \<Longrightarrow> client_step b fx r r'"





section \<open>Where the threads of such a client are\<close>










section \<open>Steps inside a call\<close>






section \<open>Builds without the owner checks\<close>






section \<open>The invariant\<close>









section \<open>Property\<close>



end
