(* ===== verification/MutexExample.thy ===== *)
theory MutexExample
  imports Mutex
begin

text \<open>
  examples/mutex.cpp: eight threads increment a shared counter 100000 times each, every time
  under the mutex, and the main thread prints the counter when it has joined them. The
  workers are clients of the mutex of \<open>Mutex\<close>: they call its operations in the order of the
  loop, and its accesses interleave freely.
\<close>

section \<open>The program\<close>

text \<open>\<open>for (int i = 0; i < 100'000; ++i)\<close> in eight threads\<close>

definition worker_count :: nat where
  "worker_count = 8"

definition iterations :: nat where
  "iterations = 100000"

record 'k counter_run =
  run_sys :: "(int, 'k) mutex_sys"
  run_i :: "nat \<Rightarrow> nat"       \<comment> \<open>the loop variable of each worker\<close>
  run_added :: "nat \<Rightarrow> bool"  \<comment> \<open>it is past its \<open>++shared\<close> in this iteration\<close>

text \<open>What a worker does next: the calls of the loop body, and the accesses of its calls.\<close>

fun worker_next :: "int mutex_action \<Rightarrow> 'k counter_run \<Rightarrow> 'k counter_run option" where
  "worker_next (CallLock t) r = (if t < worker_count \<and> run_i r t < iterations then Some r else None)"
| "worker_next (Update t f) r =
     (if \<not> run_added r t \<and> f = (\<lambda>x. x + 1) then
        Some (case t_pc (threads (run_sys r) t) of
                L_Loaded x \<Rightarrow> r\<lparr>run_added := (run_added r)(t := True)\<rparr>
              | _ \<Rightarrow> r)
      else None)"
| "worker_next (CallUnlock t) r =
     (if run_added r t then
        Some (r\<lparr>run_added := (run_added r)(t := False), run_i := (run_i r)(t := run_i r t + 1)\<rparr>)
      else None)"
| "worker_next (CallTryLock t) r = None"
| "worker_next a r = Some r"

inductive counter_step :: "'k futex \<Rightarrow> 'k counter_run \<Rightarrow> 'k counter_run \<Rightarrow> bool"
  for fx :: "'k futex" where
  "mutex_act fx a (run_sys r) = Some s \<Longrightarrow> worker_next a r = Some r' \<Longrightarrow>
     counter_step fx r (r'\<lparr>run_sys := s\<rparr>)"

inductive_cases counter_stepE: "counter_step fx r r'"

definition counter_init :: "'k futex \<Rightarrow> 'k counter_run \<Rightarrow> bool" where
  "counter_init fx r \<longleftrightarrow> mutex_init fx 0 (run_sys r) \<and> run_i r = (\<lambda>_. 0) \<and> run_added r = (\<lambda>_. False)"

text \<open>\<open>join\<close> returns: every worker has left its loop.\<close>

definition workers_joined :: "'k counter_run \<Rightarrow> bool" where
  "workers_joined r \<longleftrightarrow>
     (\<forall>t<worker_count. run_i r t = iterations \<and> t_pc (threads (run_sys r) t) = L_Idle)"

section \<open>The invariant\<close>

definition added_count :: "'k counter_run \<Rightarrow> nat" where
  "added_count r = (\<Sum>t<worker_count. run_i r t + of_bool (run_added r t))"

definition counter_inv :: "'k counter_run \<Rightarrow> bool" where
  "counter_inv r \<longleftrightarrow> mutex_inv 0 (run_sys r) \<and> set (updates (run_sys r)) \<subseteq> {\<lambda>x. x + 1} \<and>
     length (updates (run_sys r)) = added_count r \<and>
     (\<forall>t. run_added r t \<longrightarrow> holds (t_pc (threads (run_sys r) t))) \<and>
     (\<forall>t. run_i r t \<le> iterations \<and> (in_body (t_pc (threads (run_sys r) t)) \<longrightarrow> t < worker_count \<and> run_i r t < iterations))"

lemma fold_increments: "set fs \<subseteq> {\<lambda>x. x + 1} \<Longrightarrow> fold (\<lambda>f. f) fs (d :: int) = d + int (length fs)"
  by (induction fs arbitrary: d) auto

lemma added_count_bound:
  assumes "counter_inv r"
  shows "added_count r \<le> worker_count * iterations"
proof -
  have "run_i r t + of_bool (run_added r t) \<le> iterations" for t
  proof (cases "run_added r t")
    case True
    with assms have "holds (t_pc (threads (run_sys r) t))" by (simp add: counter_inv_def)
    then have "in_body (t_pc (threads (run_sys r) t))" by (cases "t_pc (threads (run_sys r) t)") simp_all
    with assms True show ?thesis by (auto simp: counter_inv_def Suc_le_eq)
  qed (use assms in \<open>simp add: counter_inv_def\<close>)
  then have "added_count r \<le> (\<Sum>t<worker_count. iterations)" unfolding added_count_def by (intro sum_mono)
  then show ?thesis by simp
qed

lemma added_count_update:
  assumes "t < worker_count" and "\<And>u. u \<noteq> t \<Longrightarrow> run_i r' u = run_i r u \<and> run_added r' u = run_added r u"
  shows "added_count r' + (run_i r t + of_bool (run_added r t)) =
    added_count r + (run_i r' t + of_bool (run_added r' t))"
proof -
  let ?f = "\<lambda>r t. run_i r t + of_bool (run_added r t) :: nat"
  have t: "t \<in> {..<worker_count}" using assms(1) by simp
  have "(\<Sum>u\<in>{..<worker_count} - {t}. ?f r' u) = (\<Sum>u\<in>{..<worker_count} - {t}. ?f r u)"
    using assms(2) by (intro sum.cong) auto
  with sum.remove [OF _ t, of "?f r"] sum.remove [OF _ t, of "?f r'"] show ?thesis
    unfolding added_count_def by simp
qed

lemma counter_invD:
  assumes "counter_inv r"
  shows "mutex_inv 0 (run_sys r)" "set (updates (run_sys r)) \<subseteq> {\<lambda>x. x + 1}"
    "length (updates (run_sys r)) = added_count r"
    "run_added r t \<Longrightarrow> holds (t_pc (threads (run_sys r) t))"
    "run_i r t \<le> iterations"
    "in_body (t_pc (threads (run_sys r) t)) \<Longrightarrow> t < worker_count \<and> run_i r t < iterations"
  using assms by (simp_all add: counter_inv_def)

text \<open>A step after which no loop variable or flag has changed.\<close>

lemma counter_inv_same:
  assumes inv: "counter_inv r" and "mutex_inv 0 s'" and "updates s' = updates (run_sys r)"
    and "\<And>u. run_added r u \<Longrightarrow> holds (t_pc (threads s' u))"
    and "\<And>u. in_body (t_pc (threads s' u)) \<Longrightarrow> u < worker_count \<and> run_i r u < iterations"
  shows "counter_inv (r\<lparr>run_sys := s'\<rparr>)"
proof -
  have "added_count (r\<lparr>run_sys := s'\<rparr>) = added_count r" by (simp add: added_count_def)
  with assms counter_invD(2,3,5) [OF inv] show ?thesis by (simp add: counter_inv_def)
qed

lemma counter_unlock_inv:
  assumes inv: "counter_inv r" and act: "mutex_act fx (CallUnlock t) (run_sys r) = Some s'"
    and nxt: "worker_next (CallUnlock t) r = Some r'"
  shows "counter_inv (r'\<lparr>run_sys := s'\<rparr>)"
proof -
  let ?a = "CallUnlock t"
  let ?s = "run_sys r"
  obtain r1 where r1: "r1 = r'\<lparr>run_sys := s'\<rparr>" by simp
  note i = counter_invD [OF inv]
  have minv: "mutex_inv 0 s'" using mutex_act_inv [OF i(1) act] .
  have do: "mutex_do fx ?a ?s = Some s'" using act by (simp add: mutex_act_def split: if_splits)
  note others = mutex_do_others [OF do]
  with nxt have a: "run_added r t"
    and r': "r' = r\<lparr>run_added := (run_added r)(t := False), run_i := (run_i r)(t := run_i r t + 1)\<rparr>"
    by (simp_all split: if_splits)
  from do have pc: "t_pc (threads ?s t) = L_Critical" and s': "s' = unlock t ?s"
    by (simp_all split: if_splits)
  have t: "t < worker_count \<and> run_i r t < iterations" using i(6) [of t] pc by simp
  have "added_count r1 + (run_i r t + 1) = added_count r + (run_i r t + 1)"
    using added_count_update [of t r1 r] t a by (simp add: r1 r')
  then have "added_count r1 = added_count r" by simp
  moreover have "\<not> in_body (t_pc (threads s' t))" by (simp add: s' unlock_def release_rmw_def)
  moreover have "updates s' = updates ?s" by (rule mutex_do_updates [OF do]) simp
  moreover have "threads s' u = threads ?s u" if "u \<noteq> t" for u using others [of u] that by simp
  moreover have "holds (t_pc (threads s' u))" if "run_added r u" "u \<noteq> t" for u
    using i(4) [OF that(1)] others [of u] that(2) by simp
  moreover have "u < worker_count \<and> run_i r1 u < iterations" if "in_body (t_pc (threads s' u))" for u
    using i(6) [of u] others [of u] that \<open>\<not> in_body (t_pc (threads s' t))\<close>
    by (cases "u = t") (auto simp: r1 r')
  ultimately have "counter_inv r1" using minv i(2,3,5) t
    unfolding counter_inv_def by (auto simp: r1 r' Suc_le_eq)
  then show ?thesis by (simp add: r1)
qed

lemma counter_update_inv:
  assumes inv: "counter_inv r" and act: "mutex_act fx (Update t f) (run_sys r) = Some s'"
    and nxt: "worker_next (Update t f) r = Some r'"
  shows "counter_inv (r'\<lparr>run_sys := s'\<rparr>)"
proof -
  let ?a = "Update t f"
  let ?s = "run_sys r"
  obtain r1 where r1: "r1 = r'\<lparr>run_sys := s'\<rparr>" by simp
  note i = counter_invD [OF inv]
  have minv: "mutex_inv 0 s'" using mutex_act_inv [OF i(1) act] .
  have do: "mutex_do fx ?a ?s = Some s'" using act by (simp add: mutex_act_def split: if_splits)
  note others = mutex_do_others [OF do]
  with nxt have na: "\<not> run_added r t" and f: "f = (\<lambda>x. x + 1)"
    and r': "r' = (case t_pc (threads ?s t) of L_Loaded x \<Rightarrow> r\<lparr>run_added := (run_added r)(t := True)\<rparr> | _ \<Rightarrow> r)"
    by (simp_all split: if_splits)
  have same: "threads s' u = threads ?s u" if "u \<noteq> t" for u using others [of u] that by simp
  from do have pc: "holds (t_pc (threads ?s t))" "holds (t_pc (threads s' t))"
    by (cases "t_pc (threads ?s t)"; auto simp: touch_def)+
  have body: "in_body (t_pc (threads ?s t))" using pc(1) by (cases "t_pc (threads ?s t)") simp_all
  note t = i(6) [OF body]
  have hold: "holds (t_pc (threads s' u))" if "run_added r u \<or> u = t" for u
    using that i(4) [of u] same [of u] pc(2) by (cases "u = t") auto
  have inb: "u < worker_count \<and> run_i r u < iterations" if "in_body (t_pc (threads s' u))" for u
    using that i(6) [of u] same [of u] t by (cases "u = t") auto
  show ?thesis
  proof (cases "\<exists>x. t_pc (threads ?s t) = L_Loaded x")
    case False
    then have "r' = r" "updates s' = updates ?s"
      using r' do pc(1) by (cases "t_pc (threads ?s t)"; auto simp: touch_def)+
    with counter_inv_same [OF inv minv _ hold inb] show ?thesis by simp
  next
    case True
    then have r'': "r' = r\<lparr>run_added := (run_added r)(t := True)\<rparr>" and up: "updates s' = updates ?s @ [f]"
      using r' do by (auto simp: touch_def)
    have "added_count r1 + run_i r t = added_count r + (run_i r t + 1)"
      using added_count_update [of t r1 r] t na by (simp add: r1 r'')
    then have "added_count r1 = Suc (added_count r)" by simp
    with minv i(2,3,5) hold inb up f have "counter_inv r1" unfolding counter_inv_def by (auto simp: r1 r'')
    then show ?thesis by (simp add: r1)
  qed
qed

lemma counter_step_inv:
  assumes inv: "counter_inv r" and step: "counter_step fx r r1"
  shows "counter_inv r1"
  using step
proof (rule counter_stepE)
  fix a s' r'
  assume r1: "r1 = r'\<lparr>run_sys := s'\<rparr>" and act: "mutex_act fx a (run_sys r) = Some s'"
    and nxt: "worker_next a r = Some r'"
  let ?s = "run_sys r"
  note i = counter_invD [OF inv]
  have minv: "mutex_inv 0 s'" using mutex_act_inv [OF i(1) act] .
  have do: "mutex_do fx a ?s = Some s'" using act by (simp add: mutex_act_def split: if_splits)
  note others = mutex_do_others [OF do]
  have acc: "counter_inv r1" if "is_access a"
  proof -
    from that nxt have r': "r' = r" by (cases a) simp_all
    show ?thesis unfolding r1 r'
    proof (rule counter_inv_same [OF inv minv])
      show "updates s' = updates ?s" using that by (intro mutex_do_updates [OF do]) (cases a; simp)
      fix u show "run_added r u \<Longrightarrow> holds (t_pc (threads s' u))"
        using i(4) [of u] others [of u] mutex_do_access(1) [OF do that] by (cases "u = actor a") auto
      show "in_body (t_pc (threads s' u)) \<Longrightarrow> u < worker_count \<and> run_i r u < iterations"
        using i(6) [of u] others [of u] mutex_do_access(2) [OF do that] by (cases "u = actor a") auto
    qed
  qed
  show "counter_inv r1"
  proof (cases a)
    case (CallLock t)
    with nxt have r': "r' = r" "t < worker_count" "run_i r t < iterations" by (simp_all split: if_splits)
    from CallLock do have s': "t_pc (threads ?s t) = L_Idle"
      "s' = set_thread t ((threads ?s t)\<lparr>t_pc := L_Fast, t_pauses := 0\<rparr>) ?s" by (simp_all split: if_splits)
    show ?thesis unfolding r1 r'(1)
      by (rule counter_inv_same [OF inv minv]) (use i(4,6) i(4) [of t] r' s' in \<open>auto split: if_splits\<close>)
  next
    case (Interrupt t)
    with nxt do have r': "r' = r" and s': "threads s' = threads ?s" "updates s' = updates ?s" by auto
    show ?thesis unfolding r1 r'
      by (rule counter_inv_same [OF inv minv]) (use i(4,6) s' in auto)
  next
    case (CallUnlock t)
    with act nxt counter_unlock_inv [OF inv] show ?thesis by (simp add: r1)
  next
    case (Update t f)
    with act nxt counter_update_inv [OF inv] show ?thesis by (simp add: r1)
  qed (use acc nxt in simp_all)
qed

lemma counter_init_inv:
  assumes "counter_init fx r"
  shows "counter_inv r"
proof -
  from assms have m: "mutex_init fx 0 (run_sys r)" by (simp add: counter_init_def)
  with mutex_inv_init [OF m] assms show ?thesis
    by (auto simp: counter_inv_def counter_init_def mutex_init_def added_count_def iterations_def)
qed

interpretation counter_run: invariant_system "counter_init fx" "counter_step fx" counter_inv
  using counter_init_inv counter_step_inv by unfold_locales

abbreviation counter_reach :: "'k futex \<Rightarrow> 'k counter_run \<Rightarrow> bool" where
  "counter_reach fx \<equiv> reach (counter_init fx) (counter_step fx)"

section \<open>A complete run\<close>

text \<open>Between iterations nobody is in a call.\<close>

definition quiet :: "'k counter_run \<Rightarrow> bool" where
  "quiet r \<longleftrightarrow> (\<forall>t. t_pc (threads (run_sys r) t) = L_Idle \<and> \<not> run_added r t) \<and>
     cur_state (run_sys r) = Free \<and> \<not> mx_terminated (run_sys r)"

lemma counter_go:
  assumes "counter_reach fx r" and "mutex_do fx a (run_sys r) = Some s" and "\<not> mx_terminated (run_sys r)"
    and "worker_next a r = Some r'"
  shows "counter_reach fx (r'\<lparr>run_sys := s\<rparr>)" "mx_fault s = None"
proof -
  from counter_run.reach_inv [OF assms(1)] have "mx_fault (run_sys r) = None"
    by (auto simp: counter_inv_def mutex_inv_def dest: mutex_atD)
  with assms(2,3) have "mutex_act fx a (run_sys r) = Some s" by (simp add: mutex_act_def)
  from reach.reach_step [OF assms(1) counter_step.intros [OF this assms(4)]]
  show r: "counter_reach fx (r'\<lparr>run_sys := s\<rparr>)" .
  from counter_run.reach_inv [OF r] show "mx_fault s = None"
    by (auto simp: counter_inv_def mutex_inv_def dest: mutex_atD)
qed

lemma touch_ok: "mx_fault (touch t l s) = None \<Longrightarrow> t_pc (threads (touch t l s) t) = l"
  by (simp add: touch_def split: if_splits)

lemma one_iteration:
  assumes r: "counter_reach fx r" "quiet r" and t: "t < worker_count" "run_i r t < iterations"
  shows "\<exists>r'. counter_reach fx r' \<and> quiet r' \<and> run_i r' = (run_i r)(t := run_i r t + 1)"
proof -
  let ?s = "run_sys r"
  have q: "t_pc (threads ?s u) = L_Idle" "\<not> run_added r u" "cur_state ?s = Free" "\<not> mx_terminated ?s" for u
    using r(2) by (simp_all add: quiet_def)
  let ?s1 = "set_thread t ((threads ?s t)\<lparr>t_pc := L_Fast, t_pauses := 0\<rparr>) ?s"
  let ?r1 = "r\<lparr>run_sys := ?s1\<rparr>"
  have r1: "counter_reach fx ?r1"
    using counter_go(1) [OF r(1), of "CallLock t" ?s1 r] q t by simp
  let ?s2 = "acquire_rmw t Locked L_Critical ?s1"
  let ?r2 = "r\<lparr>run_sys := ?s2\<rparr>"
  have r2: "counter_reach fx ?r2"
    using counter_go(1) [OF r1, of "CasWins t" ?s2 ?r1] q by simp
  let ?s3 = "touch t (L_Loaded (shared ?s2)) ?s2"
  let ?r3 = "r\<lparr>run_sys := ?s3\<rparr>"
  have d3: "mutex_do fx (Update t (\<lambda>x. x + 1)) ?s2 = Some ?s3" by simp
  have w3: "worker_next (Update t (\<lambda>x. x + 1)) ?r2 = Some ?r2" using q(2) by simp
  have r3: "counter_reach fx ?r3" and f3: "mx_fault ?s3 = None"
    using counter_go [OF r2 _ _ w3, of ?s3] d3 q(4) by simp_all
  have pc3: "t_pc (threads ?s3 t) = L_Loaded (shared ?s2)" by (rule touch_ok [OF f3])
  let ?s4 = "touch t L_Critical (?s3\<lparr>shared := shared ?s2 + 1, updates := updates ?s3 @ [\<lambda>x. x + 1]\<rparr>)"
  let ?r4 = "r\<lparr>run_added := (run_added r)(t := True), run_sys := ?s4\<rparr>"
  have d4: "mutex_do fx (Update t (\<lambda>x. x + 1)) ?s3 = Some ?s4" by (simp add: pc3)
  have w4: "worker_next (Update t (\<lambda>x. x + 1)) ?r3 = Some (?r3\<lparr>run_added := (run_added r)(t := True)\<rparr>)"
    using q(2) by (simp add: pc3)
  have r4: "counter_reach fx ?r4" and f4: "mx_fault ?s4 = None"
    using counter_go [OF r3 _ _ w4, of ?s4] d4 q(4) by simp_all
  have pc4: "t_pc (threads ?s4 t) = L_Critical" by (rule touch_ok [OF f4])
  let ?s5 = "unlock t ?s4"
  let ?r5 = "r\<lparr>run_added := (run_added r)(t := False), run_i := (run_i r)(t := run_i r t + 1), run_sys := ?s5\<rparr>"
  have d5: "mutex_do fx (CallUnlock t) ?s4 = Some ?s5" by (simp add: pc4)
  have w5: "worker_next (CallUnlock t) ?r4 =
      Some (?r4\<lparr>run_added := (run_added r)(t := False), run_i := (run_i r)(t := run_i r t + 1)\<rparr>)" by simp
  have r5: "counter_reach fx ?r5"
    using counter_go(1) [OF r4 _ _ w5, of ?s5] d5 q(4) by simp
  have "quiet ?r5" using q by (simp add: quiet_def unlock_def)
  with r5 show ?thesis by (intro exI [of _ ?r5]) simp
qed

lemma run_to:
  assumes "counter_reach fx r" and "quiet r" and "\<forall>t. n t \<le> iterations" and "\<forall>t. worker_count \<le> t \<longrightarrow> n t = 0"
    and "run_i r = (\<lambda>_. 0)"
  shows "\<exists>r'. counter_reach fx r' \<and> quiet r' \<and> run_i r' = n"
  using assms(3,4)
proof (induction "\<Sum>t<worker_count. n t" arbitrary: n)
  case 0
  then have "n t = 0" for t by (cases "t < worker_count") simp_all
  then have "n = (\<lambda>_. 0)" by auto
  with assms show ?case by auto
next
  case (Suc k)
  then obtain t where t: "t < worker_count" "0 < n t" by (metis gr0I lessThan_iff nat.distinct(1) sum.neutral)
  let ?n = "n(t := n t - 1)"
  have "(\<Sum>u\<in>{..<worker_count} - {t}. ?n u) = (\<Sum>u\<in>{..<worker_count} - {t}. n u)" by (intro sum.cong) auto
  with sum.remove [of "{..<worker_count}" t n] sum.remove [of "{..<worker_count}" t ?n] t Suc.hyps(2)
  have "k = (\<Sum>t<worker_count. ?n t)" by simp
  moreover have "\<forall>u. ?n u \<le> iterations" using Suc.prems(1) by (auto intro: le_trans [OF diff_le_self])
  moreover have "\<forall>u. worker_count \<le> u \<longrightarrow> ?n u = 0" using Suc.prems(2) by simp
  ultimately have "\<exists>r'. counter_reach fx r' \<and> quiet r' \<and> run_i r' = ?n" by (rule Suc.hyps(1))
  then obtain r' where r': "counter_reach fx r'" "quiet r'" "run_i r' = ?n" by blast
  have lt: "run_i r' t < iterations"
    using r'(3) t(2) spec [OF Suc.prems(1), of t] by simp
  have "(run_i r')(t := run_i r' t + 1) = n" using r'(3) t(2) by simp
  with one_iteration [OF r'(1,2) t(1) lt] show ?case by simp
qed

lemma counter_shared:
  assumes "counter_inv r"
  shows "shared (run_sys r) = int (added_count r)"
proof -
  note i = counter_invD [OF assms]
  from i(1) have "shared (run_sys r) = fold (\<lambda>f. f) (updates (run_sys r)) 0"
    by (auto simp: mutex_inv_def mutex_at_def)
  then show ?thesis using fold_increments [OF i(2)] i(3) by simp
qed

lemma counter_total_joined:
  assumes inv: "counter_inv r" and j: "workers_joined r"
  shows "shared (run_sys r) = 800000"
proof -
  have "\<not> run_added r t" if "t < worker_count" for t
    using counter_invD(4) [OF inv, of t] j that by (auto simp: workers_joined_def)
  with j have "added_count r = (\<Sum>t<worker_count. iterations)"
    unfolding added_count_def workers_joined_def by (intro sum.cong) auto
  then show ?thesis by (simp add: counter_shared [OF inv] worker_count_def iterations_def)
qed

lemma counter_run_complete: "\<exists>r. counter_reach list_futex r \<and> workers_joined r"
proof -
  let ?r = "\<lparr>run_sys = mutex_start, run_i = (\<lambda>_. 0), run_added = (\<lambda>_. False)\<rparr>"
  have init: "counter_reach list_futex ?r"
    by (rule reach.reach_init) (auto simp: counter_init_def mutex_init_def mutex_start_def list_futex_def)
  let ?n = "\<lambda>t. if t < worker_count then iterations else 0"
  have q: "quiet ?r" by (simp add: quiet_def mutex_start_def)
  have n: "\<forall>t. ?n t \<le> iterations" "\<forall>t. worker_count \<le> t \<longrightarrow> ?n t = 0" by simp_all
  have "run_i ?r = (\<lambda>_. 0)" by simp
  from run_to [OF init q n this] obtain r where
    r: "counter_reach list_futex r" "quiet r" "run_i r = ?n" by blast
  then have "workers_joined r" by (simp add: workers_joined_def quiet_def)
  with r(1) show ?thesis by blast
qed

section \<open>Properties\<close>

text \<open>
  The program prints 800000: when all eight workers have left their loops, the shared counter
  has been incremented exactly 8 times 100000 times, although an increment is a load and a
  store. At no time is it negative or larger, so the additions of \<open>int\<close> do not overflow.
\<close>

lemma counter_total:
  assumes "counter_reach fx r"
  shows "0 \<le> shared (run_sys r) \<and> shared (run_sys r) \<le> 800000 \<and>
    (workers_joined r \<longrightarrow> shared (run_sys r) = 800000)"
proof -
  from counter_run.reach_inv [OF assms] have inv: "counter_inv r" .
  with counter_shared [OF inv] added_count_bound [OF inv] counter_total_joined [OF inv] show ?thesis
    by (simp add: worker_count_def iterations_def)
qed

lemma counter_total_example:
  "\<exists>r. counter_reach list_futex r \<and> workers_joined r \<and> shared (run_sys r) = 800000"
proof -
  obtain r where r: "counter_reach list_futex r" "workers_joined r" using counter_run_complete by blast
  with counter_total [OF r(1)] show ?thesis by blast
qed

end
