(* ===== verification/MutexProgress.thy ===== *)
theory MutexProgress
  imports Mutex Fairness
begin

text \<open>
  Progress of \<open>Mutex\<close> (include/sync_tools/mutex.hpp) under a weakly fair scheduler: the accesses
  that \<open>lock\<close>, \<open>try_lock\<close> and \<open>unlock\<close> have begun are not passed over for ever; the clients
  call and update as they like, and nothing else is asked of them.
\<close>

text \<open>Who takes an access of the mutex. Calls, updates and signals are not owed by anybody.\<close>

fun accessor :: "'d mutex_action \<Rightarrow> nat option" where
  "accessor (CasWins t) = Some t"
| "accessor (CasFails t c) = Some t"
| "accessor (Proceed t) = Some t"
| "accessor _ = None"

section \<open>How far a thread is from a free mutex\<close>

fun lock_rank :: "'d lock_pc \<Rightarrow> nat" where
  "lock_rank U_Wake = 31"
| "lock_rank L_Idle = 30"
| "lock_rank L_Fast = 25"
| "lock_rank (L_Spin n) = 24 - n"
| "lock_rank L_Wait = 1"
| "lock_rank L_Asleep = 1"
| "lock_rank _ = 0"

lemma lock_rank_in_lock: "in_lock l \<Longrightarrow> lock_rank l \<le> 25"
  by (cases l) simp_all

lemma cas_fails_rank:
  assumes "lock_cas_fails t c l s = Some s'" and "l \<noteq> L_Try" and "t_pc (threads s t) = l"
    and "\<forall>n. l = L_Spin n \<longrightarrow> n < spin_count"
  shows "states s' = states s \<and> kern s' = kern s \<and> lock_rank (t_pc (threads s' t)) < lock_rank l \<and>
    in_lock l \<and> in_lock (t_pc (threads s' t))"
  using assms by (cases l) (auto simp: spin_head_def spin_count_def split: if_splits)

lemma proceed_free_rank:
  assumes laws: "futex_laws fx" and do: "mutex_do fx (Proceed t) s = Some s'"
    and free: "cur_state s = Free" and ok: "mx_fault s = None" "\<not> mx_terminated s"
  shows "cur_state s' \<noteq> Free \<or>
    states s' = states s \<and> lock_rank (t_pc (threads s' t)) < lock_rank (t_pc (threads s t)) \<and>
    (t_pc (threads s t) = U_Wake \<and> t_pc (threads s' t) = L_Idle \<or>
     in_lock (t_pc (threads s t)) \<and> t_pc (threads s' t) = L_Exchange)"
proof (cases "t_pc (threads s t)")
  case L_Wait
  from wait_refused [OF laws free L_Wait ok] do obtain k where
    "s' = set_thread t ((threads s t)\<lparr>t_pc := L_Exchange\<rparr>) (s\<lparr>kern := k\<rparr>)"
    by (auto simp: mutex_act_def ok)
  with L_Wait show ?thesis by simp
next
  case U_Wake
  obtain b k where w: "fx_wake fx (kern s) = (b, k)" by fastforce
  from futex_lawsD(3) [OF laws w] have b by blast
  with U_Wake do w show ?thesis by auto
qed (use do in \<open>auto split: if_splits\<close>)

text \<open>Only its own wait puts a thread to sleep.\<close>

lemma awake_stays:
  assumes laws: "futex_laws fx" and do: "mutex_do fx a s = Some s'" and awake: "\<not> fx_asleep fx (kern s) u"
    and u: "accessor a \<noteq> Some u \<or> t_pc (threads s u) \<noteq> L_Wait"
  shows "\<not> fx_asleep fx (kern s') u"
proof (cases a)
  case (CasWins t)
  with do awake show ?thesis by (cases "t_pc (threads s t)") (auto split: if_splits)
next
  case (CasFails t c)
  with do awake show ?thesis by (cases "t_pc (threads s t)") (auto split: if_splits)
next
  case (Update t f)
  with do awake show ?thesis by (cases "t_pc (threads s t)") auto
next
  case (Interrupt t)
  with do awake futex_lawsD(4) [OF laws] show ?thesis by (auto split: if_splits)
next
  case (Proceed t)
  obtain wr wk where w: "fx_wait fx t (state_code (cur_state s)) (state_code Contended) (kern s) = (wr, wk)"
    by fastforce
  obtain b k where wake: "fx_wake fx (kern s) = (b, k)" by fastforce
  have waits: "u \<noteq> t \<or> t_pc (threads s t) \<noteq> L_Wait" using u Proceed by auto
  have asleep: "\<not> fx_asleep fx wk u" if "u \<noteq> t"
  proof (cases wr)
    case Waits
    with futex_lawsD(1) [OF laws] w awake that show ?thesis by simp
  next
    case (Errno e)
    with futex_lawsD(2) [OF laws] w awake show ?thesis by simp
  qed
  have "\<not> fx_asleep fx k u" using futex_lawsD(3) [OF laws wake] awake by (auto split: if_splits)
  with do Proceed awake waits asleep w wake show ?thesis
    by (cases "t_pc (threads s t)"; cases wr) (auto split: if_splits)
qed (use do awake in \<open>auto simp: unlock_def split: if_splits\<close>)

section \<open>Who helps a free mutex to be locked\<close>

definition mx_ready :: "'k futex \<Rightarrow> nat \<Rightarrow> ('d, 'k) mutex_sys \<Rightarrow> bool" where
  "mx_ready fx t s \<longleftrightarrow> (in_lock (t_pc (threads s t)) \<or> t_pc (threads s t) = U_Wake) \<and> \<not> fx_asleep fx (kern s) t"

definition nearest :: "'k futex \<Rightarrow> ('d, 'k) mutex_sys \<Rightarrow> nat" where
  "nearest fx s = (LEAST n. \<exists>t. mx_ready fx t s \<and> lock_rank (t_pc (threads s t)) = n)"

definition mx_helps :: "'k futex \<Rightarrow> nat \<Rightarrow> ('d, 'k) mutex_sys \<Rightarrow> bool" where
  "mx_helps fx t s \<longleftrightarrow> mx_ready fx t s \<and> lock_rank (t_pc (threads s t)) = nearest fx s"

definition wanted :: "'d \<Rightarrow> 'k futex \<Rightarrow> ('d, 'k) mutex_sys \<Rightarrow> bool" where
  "wanted d fx s \<longleftrightarrow> futex_laws fx \<and> mutex_inv d s \<and> sleepers_ok fx s \<and> (\<exists>t. in_lock (t_pc (threads s t)))"

lemma nearest_le: "mx_ready fx t s \<Longrightarrow> nearest fx s \<le> lock_rank (t_pc (threads s t))"
  unfolding nearest_def by (rule Least_le) blast

lemma wanted_helper:
  assumes "wanted d fx s" and "cur_state s = Free"
  shows "\<exists>t. mx_helps fx t s"
proof -
  obtain t where t: "in_lock (t_pc (threads s t))" and sl: "sleepers_ok fx s"
    using assms(1) by (auto simp: wanted_def)
  have "\<exists>u. mx_ready fx u s"
  proof (cases "fx_asleep fx (kern s) t")
    case False
    with t show ?thesis by (auto simp: mx_ready_def)
  next
    case True
    with sl assms(2) obtain u where u: "t_pc (threads s u) = U_Wake \<or> retries fx s u"
      unfolding sleepers_ok_def by (metis mutex_state.distinct(3))
    have "t_pc (threads s u) = U_Wake \<Longrightarrow> \<not> fx_asleep fx (kern s) u"
      "t_pc (threads s u) = L_Exchange \<Longrightarrow> \<not> fx_asleep fx (kern s) u"
      using sl unfolding sleepers_ok_def by (metis lock_pc.distinct)+
    with u have "mx_ready fx u s" by (auto simp: mx_ready_def retries_def)
    then show ?thesis ..
  qed
  then have "\<exists>n u. mx_ready fx u s \<and> lock_rank (t_pc (threads s u)) = n" by blast
  from LeastI_ex [OF this] show ?thesis unfolding mx_helps_def nearest_def by blast
qed

lemma wantedD:
  assumes "wanted d fx s" and "cur_state s = Free"
  shows "futex_laws fx" "mutex_inv d s" "sleepers_ok fx s" "mx_fault s = None" "\<not> mx_terminated s"
    "\<not> holds (t_pc (threads s t))" "\<forall>n. t_pc (threads s t) = L_Spin n \<longrightarrow> n < spin_count"
proof -
  show "futex_laws fx" "mutex_inv d s" "sleepers_ok fx s" using assms(1) by (simp_all add: wanted_def)
  then obtain h where at: "mutex_at d h s" by (auto simp: mutex_inv_def)
  with \<open>sleepers_ok fx s\<close> assms(2) show "mx_fault s = None" "\<not> mx_terminated s" "\<not> holds (t_pc (threads s t))"
    by (simp_all add: mutex_at_def sleepers_ok_def)
  have "pauses_ok (t_pc (threads s t)) (t_pauses (threads s t))"
    using at by (simp add: mutex_at_def lock_thread_ok_def)
  then show "\<forall>n. t_pc (threads s t) = L_Spin n \<longrightarrow> n < spin_count" by auto
qed

lemma helper_access:
  assumes w: "wanted d fx s" and free: "cur_state s = Free" and t: "mx_helps fx t s"
  shows "can_go (mutex_act fx) accessor t s"
proof -
  note i = wantedD(1-5) [OF w free] wantedD(6,7) [OF w free, of t]
  have go: ?thesis if "mutex_do fx a s = Some s'" "accessor a = Some t" for a s'
    using that i(4,5) by (auto simp: can_go_def mutex_act_def)
  from t have rd: "in_lock (t_pc (threads s t)) \<or> t_pc (threads s t) = U_Wake" "\<not> fx_asleep fx (kern s) t"
    by (simp_all add: mx_helps_def mx_ready_def)
  show ?thesis
  proof (cases "t_pc (threads s t)")
    case L_Fast
    with free go [of "CasWins t"] show ?thesis by simp
  next
    case (L_Spin n)
    with free go [of "CasWins t"] show ?thesis by simp
  qed (use rd go [of "Proceed t"] in simp_all)
qed

text \<open>An access by a thread in \<open>lock\<close> or \<open>unlock\<close> while the mutex stays free.\<close>

lemma own_access:
  assumes w: "wanted d fx s" and free: "cur_state s = Free" and do: "mutex_do fx a s = Some s'"
    and t: "accessor a = Some t" and free': "cur_state s' = Free"
    and pc: "in_lock (t_pc (threads s t)) \<or> t_pc (threads s t) = U_Wake"
  shows "lock_rank (t_pc (threads s' t)) < lock_rank (t_pc (threads s t)) \<and>
    (in_lock (t_pc (threads s t)) \<and> in_lock (t_pc (threads s' t)) \<or> t_pc (threads s t) = U_Wake \<and> a = Proceed t)"
proof -
  note i = wantedD(1-5) [OF w free] wantedD(6,7) [OF w free, of t]
  have nt: "t_pc (threads s t) \<noteq> L_Try" using pc by auto
  show ?thesis
  proof (cases a)
    case (CasWins u)
    with t do free' nt show ?thesis by (cases "t_pc (threads s t)") (auto split: if_splits)
  next
    case (CasFails u c)
    with t do have "lock_cas_fails t c (t_pc (threads s t)) s = Some s'" by simp
    from cas_fails_rank [OF this nt refl i(7)] show ?thesis by simp
  next
    case (Proceed u)
    with t do have "mutex_do fx (Proceed t) s = Some s'" by simp
    from proceed_free_rank [OF i(1) this free i(4,5)] free' Proceed t show ?thesis by auto
  qed (use t in simp_all)
qed

text \<open>Anything else leaves a thread in \<open>lock\<close> or \<open>unlock\<close> where it is.\<close>

lemma pc_stays:
  assumes do: "mutex_do fx a s = Some s'" and t: "accessor a \<noteq> Some t"
    and pc: "in_lock (t_pc (threads s t)) \<or> t_pc (threads s t) = U_Wake"
  shows "t_pc (threads s' t) = t_pc (threads s t)"
proof (cases "t = actor a")
  case False
  with mutex_do_others [OF do] show ?thesis by simp
next
  case True
  with t have "accessor a = None" by (cases a) auto
  with do True pc show ?thesis by (cases a; cases "t_pc (threads s t)") (auto split: if_splits)
qed

lemma wanted_act:
  assumes w: "wanted d fx s" and free: "cur_state s = Free" and act: "mutex_act fx a s = Some s'"
    and free': "cur_state s' = Free"
  shows "wanted d fx s'"
proof -
  note i = wantedD [OF w free]
  from act have do: "mutex_do fx a s = Some s'" by (simp add: mutex_act_def split: if_splits)
  obtain t where t: "in_lock (t_pc (threads s t))" using w by (auto simp: wanted_def)
  have "in_lock (t_pc (threads s' t))"
  proof (cases "accessor a = Some t")
    case True
    from own_access [OF w free do True free'] t show ?thesis by auto
  next
    case False
    from pc_stays [OF do False] t show ?thesis by simp
  qed
  with i(1) mutex_act_inv [OF i(2) act] mutex_do_sleepers [OF i(1,3) do] show ?thesis
    by (auto simp: wanted_def)
qed

text \<open>A step that leaves the mutex free brings some thread nearer to it, or lets the helper be.\<close>

lemma wake_brings_near:
  assumes w: "wanted d fx s" and free: "cur_state s = Free" and t: "mx_helps fx t s" "t_pc (threads s t) = U_Wake"
    and do: "mutex_do fx (Proceed t) s = Some s'"
  shows "nearest fx s' < nearest fx s"
proof -
  note i = wantedD [OF w free]
  have near: "nearest fx s = 31" using t by (simp add: mx_helps_def)
  obtain v where v: "in_lock (t_pc (threads s v))" using w by (auto simp: wanted_def)
  have "fx_asleep fx (kern s) v"
  proof (rule ccontr)
    assume "\<not> ?thesis"
    with v have "mx_ready fx v s" by (simp add: mx_ready_def)
    from nearest_le [OF this] lock_rank_in_lock [OF v] near show False by simp
  qed
  moreover obtain b k where wk: "fx_wake fx (kern s) = (b, k)" by fastforce
  ultimately obtain u where u: "b" "fx_asleep fx (kern s) u" "fx_asleep fx k = (fx_asleep fx (kern s))(u := False)"
    using futex_lawsD(3) [OF i(1) wk] by blast
  with i(3) have pcu: "t_pc (threads s u) = L_Asleep" by (simp add: sleepers_ok_def)
  with t(2) have "u \<noteq> t" by auto
  with do t(2) wk u pcu have "mx_ready fx u s'" "lock_rank (t_pc (threads s' u)) = 1"
    by (auto simp: mx_ready_def)
  with nearest_le [of fx u s'] near show ?thesis by simp
qed

lemma helper_progress:
  assumes w: "wanted d fx s" and free: "cur_state s = Free" and t: "mx_helps fx t s"
    and act: "mutex_act fx a s = Some s'" and free': "cur_state s' = Free"
  shows "nearest fx s' < nearest fx s \<or>
    accessor a \<noteq> Some t \<and> nearest fx s' = nearest fx s \<and> mx_helps fx t s'"
proof -
  note i = wantedD [OF w free]
  from act have do: "mutex_do fx a s = Some s'" by (simp add: mutex_act_def split: if_splits)
  from t have rd: "in_lock (t_pc (threads s t)) \<or> t_pc (threads s t) = U_Wake" "\<not> fx_asleep fx (kern s) t"
    "lock_rank (t_pc (threads s t)) = nearest fx s" by (simp_all add: mx_helps_def mx_ready_def)
  show ?thesis
  proof (cases "accessor a = Some t")
    case False
    have pc: "t_pc (threads s' t) = t_pc (threads s t)" by (rule pc_stays [OF do False rd(1)])
    have "mx_ready fx t s'"
      using awake_stays [OF i(1) do rd(2)] False rd(1) by (simp add: mx_ready_def pc)
    with nearest_le [OF this] pc rd(3) False show ?thesis by (auto simp: mx_helps_def)
  next
    case True
    from own_access [OF w free do True free' rd(1)] show ?thesis
    proof (elim conjE disjE)
      assume s1: "lock_rank (t_pc (threads s' t)) < lock_rank (t_pc (threads s t))"
        "in_lock (t_pc (threads s t))" "in_lock (t_pc (threads s' t))"
      have "\<not> fx_asleep fx (kern s') t"
      proof (cases "t_pc (threads s t) = L_Wait")
        case True
        with do \<open>accessor a = Some t\<close> have "a = Proceed t" by (cases a) auto
        with do have do: "mutex_do fx (Proceed t) s = Some s'" by simp
        from wait_refused [OF i(1) free True i(4,5)] this do obtain k where
          "t_pc (threads s' t) = L_Exchange" by (auto simp: mutex_act_def i)
        with mutex_do_sleepers [OF i(1,3) do] show ?thesis by (auto simp: sleepers_ok_def)
      qed (use awake_stays [OF i(1) do rd(2)] in blast)
      with s1(3) have "mx_ready fx t s'" by (simp add: mx_ready_def)
      with nearest_le [OF this] s1(1) rd(3) show ?thesis by simp
    next
      assume "t_pc (threads s t) = U_Wake" "a = Proceed t"
      with wake_brings_near [OF w free t] do show ?thesis by simp
    qed
  qed
qed

interpretation mutex_progress: fair_progress "mutex_act fx" accessor "wanted d fx" "\<lambda>s. cur_state s \<noteq> Free"
    "mx_helps fx" "nearest fx" less_than
  for fx :: "'k futex" and d :: 'd
proof unfold_locales
  fix s s' :: "('d, 'k) mutex_sys" and a t
  assume w: "wanted d fx s" and "\<not> cur_state s \<noteq> Free"
  then have free: "cur_state s = Free" by simp
  show "\<exists>t. mx_helps fx t s" by (rule wanted_helper [OF w free])
  show "can_go (mutex_act fx) accessor t s" if "mx_helps fx t s" by (rule helper_access [OF w free that])
  show "wanted d fx s'" if "mutex_act fx a s = Some s'" "\<not> cur_state s' \<noteq> Free"
    using wanted_act [OF w free that(1)] that(2) by simp
  show "cur_state s' \<noteq> Free \<or> (nearest fx s', nearest fx s) \<in> less_than \<or>
      accessor a \<noteq> Some t \<and> nearest fx s' = nearest fx s \<and> mx_helps fx t s'"
    if "mx_helps fx t s" "mutex_act fx a s = Some s'"
    using helper_progress [OF w free that] by auto
qed simp

section \<open>Property\<close>

text \<open>
  C20: A free mutex that is asked for is locked: under any scheduler that does not pass over for ever
  the accesses of the calls in progress, and whatever the clients do, whenever a thread is in
  \<open>lock\<close> and the mutex is free there is a later moment at which some thread holds it. No kernel
  that keeps the laws of futex(2), no signal and no stale value can leave all of them waiting.
\<close>

theorem mutex_fair_progress:
  assumes "futex_laws fx" and "is_run (mutex_act fx) as rs" and "mutex_init fx d (rs 0)"
    and "is_fair (mutex_act fx) accessor as rs" and "in_lock (t_pc (threads (rs i) t))"
  shows "\<exists>m\<ge>i. \<exists>u. holds (t_pc (threads (rs m) u))"
proof -
  have reach: "mutex_reach fx d (rs m)" for m
    by (rule run_reach [where act = "mutex_act fx" and as = as]) (use assms(2,3) mutex_step.intros in blast)+
  have held: "\<exists>u. holds (t_pc (threads (rs m) u))" if "cur_state (rs m) \<noteq> Free" for m
    using mutex_run.reach_inv [OF reach [of m]] that by (auto simp: mutex_inv_def mutex_at_def)
  have "wanted d fx (rs i)"
    using assms(1,5) mutex_run.reach_inv [OF reach] mutex_reach_sleepers [OF assms(1) reach]
    by (auto simp: wanted_def)
  from mutex_progress.fair_goal [OF assms(2,4) this] held show ?thesis by blast
qed

theorem mutex_fair_progress_witness:
  "\<exists>as rs. is_run (mutex_act list_futex) as rs \<and> mutex_init list_futex (0 :: int) (rs 0) \<and>
     is_fair (mutex_act list_futex) accessor as rs \<and> in_lock (t_pc (threads (rs 1) 0)) \<and>
     (\<exists>m\<ge>1. \<exists>u. holds (t_pc (threads (rs m) u)))"
proof -
  have "\<exists>s1 s2. mutex_act list_futex (CallLock 0) mutex_start = Some s1 \<and>
      mutex_act list_futex (CasWins 0) s1 = Some s2 \<and> in_lock (t_pc (threads s1 0)) \<and>
      t_pc (threads s2 0) = L_Critical \<and> (\<forall>t. t \<noteq> 0 \<longrightarrow> t_pc (threads s2 t) = L_Idle)"
    by (simp add: mutex_eval)
  then obtain s1 s2 where s: "mutex_act list_futex (CallLock 0) mutex_start = Some s1"
    "mutex_act list_futex (CasWins 0) s1 = Some s2" "in_lock (t_pc (threads s1 0))"
    "t_pc (threads s2 0) = L_Critical" "\<And>t. t \<noteq> 0 \<Longrightarrow> t_pc (threads s2 t) = L_Idle" by blast
  let ?as = "\<lambda>i. if i = 0 then Some (CallLock 0) else if i = 1 then Some (CasWins 0) else None"
  let ?rs = "\<lambda>i::nat. if i = 0 then mutex_start else if i = 1 then s1 else s2"
  have run: "is_run (mutex_act list_futex) ?as ?rs" by (rule two_actions_run [where act = "mutex_act list_futex"]) (rule s)+
  have init: "mutex_init list_futex 0 (?rs 0)"
    by (auto simp: mutex_init_def mutex_start_def list_futex_def)
  have "\<not> can_go (mutex_act list_futex) accessor t s2" for t
  proof
    assume "can_go (mutex_act list_futex) accessor t s2"
    then obtain a s' where a: "accessor a = Some t" "mutex_do list_futex a s2 = Some s'"
      by (auto simp: can_go_def mutex_act_def split: if_splits)
    have "t_pc (threads s2 t) = L_Critical \<or> t_pc (threads s2 t) = L_Idle" using s(4,5) by (cases "t = 0") auto
    with a show False by (cases a) auto
  qed
  then have fair: "is_fair (mutex_act list_futex) accessor ?as ?rs" by (intro standstill_fair [of 2]) auto
  have "in_lock (t_pc (threads (?rs 1) 0))" using s(3) by simp
  with mutex_fair_progress [OF list_futex_laws run init fair this] run init fair show ?thesis by blast
qed

end
