(* ===== verification/CounterProgress.thy ===== *)
theory CounterProgress
  imports MutexExample MutexProgress
begin

text \<open>
  examples/mutex.cpp ends: the progress of its eight workers under a weakly fair scheduler and
  a kernel that keeps the laws of futex(2), signals and spurious returns of \<open>FUTEX_WAIT\<close>
  included. While a worker holds the mutex it helps; while the mutex is free every worker
  that can go on helps, since each of its steps takes it nearer to the mutex.
\<close>

section \<open>The program as a system of threads\<close>

definition counter_act :: "'k futex \<Rightarrow> int mutex_action \<Rightarrow> 'k counter_run \<Rightarrow> 'k counter_run option" where
  "counter_act fx a r =
     (case mutex_act fx a (run_sys r) of
        None \<Rightarrow> None
      | Some s \<Rightarrow> map_option (\<lambda>r'. r'\<lparr>run_sys := s\<rparr>) (worker_next a r))"

text \<open>A signal is the act of no worker.\<close>

fun worker_of :: "int mutex_action \<Rightarrow> nat option" where
  "worker_of (Interrupt t) = None"
| "worker_of a = Some (actor a)"

lemma counter_act_step: "counter_step fx r r' \<longleftrightarrow> (\<exists>a. counter_act fx a r = Some r')"
  by (auto simp: counter_act_def split: option.splits intro: counter_step.intros elim!: counter_stepE)

lemma counter_actD:
  assumes "counter_act fx a r = Some r1"
  obtains s r' where "mutex_do fx a (run_sys r) = Some s" and "worker_next a r = Some r'"
    and "r1 = r'\<lparr>run_sys := s\<rparr>" and "mutex_act fx a (run_sys r) = Some s"
  using assms by (auto simp: counter_act_def mutex_act_def split: option.splits if_splits)

section \<open>The invariant\<close>

abbreviation w_pc :: "'k counter_run \<Rightarrow> nat \<Rightarrow> int lock_pc" where
  "w_pc r t \<equiv> t_pc (threads (run_sys r) t)"

definition only_workers :: "'k counter_run \<Rightarrow> bool" where
  "only_workers r \<longleftrightarrow> (\<forall>t. w_pc r t \<noteq> L_Try \<and> (worker_count \<le> t \<longrightarrow> w_pc r t = L_Idle) \<and>
     (run_added r t \<longrightarrow> w_pc r t = L_Critical))"

definition progress_inv :: "'k futex \<Rightarrow> 'k counter_run \<Rightarrow> bool" where
  "progress_inv fx r \<longleftrightarrow> counter_inv r \<and> sleepers_ok fx (run_sys r) \<and> only_workers r"

lemma progress_invD:
  assumes "progress_inv fx r"
  shows "counter_inv r" "sleepers_ok fx (run_sys r)" "w_pc r t \<noteq> L_Try"
    "w_pc r t \<noteq> L_Idle \<Longrightarrow> t < worker_count" "mx_fault (run_sys r) = None" "\<not> mx_terminated (run_sys r)"
    "cur_state (run_sys r) = Free \<longleftrightarrow> (\<forall>u. \<not> holds (w_pc r u))"
    "holds (w_pc r t) \<Longrightarrow> holds (w_pc r u) \<Longrightarrow> u = t"
    "t_seen (threads (run_sys r) t) < length (states (run_sys r))" "run_added r t \<Longrightarrow> w_pc r t = L_Critical"
proof -
  show inv: "counter_inv r" and sl: "sleepers_ok fx (run_sys r)" and
    "w_pc r t \<noteq> L_Try" and "run_added r t \<Longrightarrow> w_pc r t = L_Critical" and "w_pc r t \<noteq> L_Idle \<Longrightarrow> t < worker_count"
    using assms by (auto simp: progress_inv_def only_workers_def not_le [symmetric])
  from inv obtain h where at: "mutex_at 0 h (run_sys r)" by (auto simp: counter_inv_def mutex_inv_def)
  show "mx_fault (run_sys r) = None" "\<not> mx_terminated (run_sys r)"
    using at sl by (auto simp: mutex_at_def sleepers_ok_def)
  show "cur_state (run_sys r) = Free \<longleftrightarrow> (\<forall>u. \<not> holds (w_pc r u))"
    "holds (w_pc r t) \<Longrightarrow> holds (w_pc r u) \<Longrightarrow> u = t" using at by (auto simp: mutex_at_def)
  show "t_seen (threads (run_sys r) t) < length (states (run_sys r))"
    using at by (simp add: mutex_at_def lock_thread_ok_def)
qed

text \<open>What a step does to the worker that takes it.\<close>

lemma step_others:
  assumes "counter_act fx a r = Some r1" and "u \<noteq> actor a"
  shows "w_pc r1 u = w_pc r u" "run_i r1 u = run_i r u" "run_added r1 u = run_added r u"
proof -
  obtain s r' where s: "mutex_do fx a (run_sys r) = Some s" "worker_next a r = Some r'"
    "r1 = r'\<lparr>run_sys := s\<rparr>" "mutex_act fx a (run_sys r) = Some s" by (rule counter_actD [OF assms(1)])
  show "w_pc r1 u = w_pc r u" using mutex_do_others [OF s(1) assms(2)] s(3) by simp
  from s(2) assms(2) have "run_i r' u = run_i r u \<and> run_added r' u = run_added r u"
    by (cases a) (auto split: if_splits lock_pc.splits)
  then show "run_i r1 u = run_i r u" "run_added r1 u = run_added r u" by (simp_all add: s(3))
qed

lemma touch_free:
  assumes "progress_inv fx r" and "mutex_do fx a (run_sys r) = Some s"
  shows "mx_fault s = None"
  using mutex_do_inv [OF counter_invD(1) [OF progress_invD(1) [OF assms(1)]] assms(2)]
  by (auto simp: mutex_inv_def mutex_at_def)

lemma access_pc:
  assumes inv: "progress_inv fx r" and do: "mutex_do fx a (run_sys r) = Some s" and acc: "is_access a"
  shows "actor a < worker_count \<and> t_pc (threads s (actor a)) \<noteq> L_Try"
proof -
  note i = progress_invD [OF inv]
  let ?t = "actor a"
  have busy: "w_pc r ?t \<noteq> L_Idle" using do acc by (cases a) auto
  have "t_pc (threads s ?t) \<noteq> L_Try"
  proof (cases "w_pc r ?t = U_Wake")
    case True
    with do acc show ?thesis by (cases a; cases "fx_wake fx (kern (run_sys r))") (auto split: if_splits)
  next
    case False
    with busy i(3) [of ?t] have "in_body (w_pc r ?t)" by (cases "w_pc r ?t") simp_all
    with mutex_access_stays [OF do acc] i(3) show ?thesis by simp
  qed
  with i(4) [OF busy] show ?thesis by simp
qed

lemma actor_pc:
  assumes inv: "progress_inv fx r" and do: "mutex_do fx a (run_sys r) = Some s"
    and nxt: "worker_next a r = Some r'" and r1: "r1 = r'\<lparr>run_sys := s\<rparr>"
  shows "w_pc r1 (actor a) \<noteq> L_Try \<and> (worker_count \<le> actor a \<longrightarrow> w_pc r1 (actor a) = L_Idle) \<and>
    (run_added r1 (actor a) \<longrightarrow> w_pc r1 (actor a) = L_Critical)"
proof (cases "is_access a")
  case True
  from mutex_do_access(1) [OF do True] progress_invD(10) [OF inv, of "actor a"] nxt True
  have "\<not> run_added r1 (actor a)" by (cases a) (auto simp: r1)
  with access_pc [OF inv do True] show ?thesis by (simp add: r1)
next
  case False
  note i = progress_invD(3,4,10) [OF inv, of "actor a"]
  show ?thesis
  proof (cases a)
    case (Update t f)
    with do nxt i(1,2) touch_free [OF inv do] show ?thesis
      by (cases "w_pc r t") (auto simp: r1 touch_ok split: if_splits)
  next
    case (Interrupt t)
    with do nxt i show ?thesis by (cases "w_pc r t = L_Idle") (auto simp: r1)
  qed (use False do nxt i in \<open>auto simp: r1 unlock_def split: if_splits\<close>)
qed

lemma progress_act_inv:
  assumes laws: "futex_laws fx" and inv: "progress_inv fx r" and act: "counter_act fx a r = Some r1"
  shows "progress_inv fx r1"
proof -
  note i = progress_invD [OF inv]
  obtain s r' where s: "mutex_do fx a (run_sys r) = Some s" "worker_next a r = Some r'"
    "r1 = r'\<lparr>run_sys := s\<rparr>" "mutex_act fx a (run_sys r) = Some s" by (rule counter_actD [OF act])
  have "counter_inv r1" using counter_step_inv [OF i(1)] act counter_act_step by blast
  moreover have "sleepers_ok fx (run_sys r1)"
    using mutex_do_sleepers [OF laws i(2) s(1)] by (simp add: s(3))
  moreover have "w_pc r1 t \<noteq> L_Try \<and> (worker_count \<le> t \<longrightarrow> w_pc r1 t = L_Idle) \<and>
      (run_added r1 t \<longrightarrow> w_pc r1 t = L_Critical)" for t
  proof (cases "t = actor a")
    case False
    with step_others [OF act False] i(3,4,10) [of t] show ?thesis by (auto simp: not_le [symmetric])
  next
    case True
    with actor_pc [OF inv s(1-3)] show ?thesis by simp
  qed
  ultimately show ?thesis by (simp add: progress_inv_def only_workers_def)
qed

section \<open>The measure\<close>

text \<open>
  The iterations that are left come first, then how far the holder is in its loop body, and
  while the mutex is free how far each worker is on its way to it.
\<close>

fun hold_rank :: "int lock_pc \<Rightarrow> bool \<Rightarrow> nat" where
  "hold_rank L_Critical added = (if added then 1 else 3)"
| "hold_rank (L_Loaded x) added = 2"
| "hold_rank _ added = 0"

definition over_workers :: "(nat \<Rightarrow> nat) \<Rightarrow> nat" where
  "over_workers f = (\<Sum>t<worker_count. f t)"

definition mutex_free :: "'k counter_run \<Rightarrow> bool" where
  "mutex_free r \<longleftrightarrow> cur_state (run_sys r) = Free"

definition work_left :: "'k counter_run \<Rightarrow> nat \<times> nat \<times> nat" where
  "work_left r =
     (over_workers (\<lambda>t. iterations - run_i r t),
      if mutex_free r then 4 else over_workers (\<lambda>t. hold_rank (w_pc r t) (run_added r t)),
      if mutex_free r then over_workers (\<lambda>t. lock_rank (w_pc r t)) else 0)"

definition less_work :: "((nat \<times> nat \<times> nat) \<times> (nat \<times> nat \<times> nat)) set" where
  "less_work = less_than <*lex*> less_than <*lex*> less_than"

lemma wf_less_work: "wf less_work"
  unfolding less_work_def by (intro wf_lex_prod wf_less_than)

lemma over_workers_same:
  assumes "\<And>u. u < worker_count \<Longrightarrow> f u = g u"
  shows "over_workers f = over_workers g"
  unfolding over_workers_def using assms by (intro sum.cong) auto

lemma over_workers_less:
  assumes "\<And>u. u \<noteq> t \<Longrightarrow> f u = g u" and "t < worker_count" and "f t < g t"
  shows "over_workers f < over_workers g"
proof -
  have "\<forall>u\<in>{..<worker_count}. f u \<le> g u" using assms(1,3) by (metis less_imp_le order_refl)
  with assms(2,3) show ?thesis unfolding over_workers_def by (intro sum_strict_mono_ex1) auto
qed

lemma over_workers_one:
  assumes "\<And>u. u \<noteq> t \<Longrightarrow> f u = 0" and "t < worker_count"
  shows "over_workers f = f t"
proof -
  have "over_workers f = f t + (\<Sum>u\<in>{..<worker_count} - {t}. f u)"
    unfolding over_workers_def by (rule sum.remove) (use assms(2) in simp_all)
  moreover have "(\<Sum>u\<in>{..<worker_count} - {t}. f u) = 0" using assms(1) by (intro sum.neutral) simp
  ultimately show ?thesis by simp
qed

lemma hold_rank_0: "hold_rank l b = 0 \<longleftrightarrow> \<not> holds l"
  by (cases l) simp_all

lemma hold_rank_le: "hold_rank l b \<le> 3"
  by (cases l) simp_all

lemma one_holder:
  assumes inv: "progress_inv fx r" and t: "holds (w_pc r t)"
  shows "over_workers (\<lambda>u. hold_rank (w_pc r u) (run_added r u)) = hold_rank (w_pc r t) (run_added r t)"
    "\<not> mutex_free r" "t < worker_count"
proof -
  note i = progress_invD [OF inv]
  from t have "w_pc r t \<noteq> L_Idle" by auto
  then show lt: "t < worker_count" by (rule i(4))
  from i(7) t show "\<not> mutex_free r" unfolding mutex_free_def by blast
  show "over_workers (\<lambda>u. hold_rank (w_pc r u) (run_added r u)) = hold_rank (w_pc r t) (run_added r t)"
    by (rule over_workers_one [OF _ lt]) (use i(8) t in \<open>auto simp: hold_rank_0\<close>)
qed

section \<open>Steps while the mutex is free, and while it is held\<close>

lemma free_step:
  assumes laws: "futex_laws fx" and inv: "progress_inv fx r" and act: "counter_act fx a r = Some r1"
    and free: "mutex_free r" and w: "worker_of a = Some t"
  shows "run_i r1 = run_i r \<and> t < worker_count \<and>
    (\<not> mutex_free r1 \<or> lock_rank (w_pc r1 t) < lock_rank (w_pc r t))"
proof -
  note i = progress_invD [OF inv]
  obtain s r' where s: "mutex_do fx a (run_sys r) = Some s" "worker_next a r = Some r'"
    "r1 = r'\<lparr>run_sys := s\<rparr>" "mutex_act fx a (run_sys r) = Some s" by (rule counter_actD [OF act])
  from free have st: "cur_state (run_sys r) = Free" by (simp add: mutex_free_def)
  with i(7) have nh: "\<not> holds (w_pc r t)" by blast
  from i(1) obtain h where at: "mutex_at 0 h (run_sys r)" by (auto simp: counter_inv_def mutex_inv_def)
  then have "pauses_ok (w_pc r t) (t_pauses (threads (run_sys r) t))"
    by (simp add: mutex_at_def lock_thread_ok_def)
  then have spin: "\<forall>n. w_pc r t = L_Spin n \<longrightarrow> n < spin_count" by auto
  show ?thesis
  proof (cases a)
    case (CallLock u)
    with w s st show ?thesis by (auto split: if_splits)
  next
    case (CasWins u)
    with w s i(3) [of t] have "cur_state s \<noteq> Free" "w_pc r t \<noteq> L_Idle"
      by (cases "w_pc r t"; auto split: if_splits)+
    with CasWins w s(2,3) i(4) [of t] show ?thesis by (simp add: mutex_free_def)
  next
    case (CasFails u c)
    with w s(1) have "lock_cas_fails t c (w_pc r t) (run_sys r) = Some s" "w_pc r t \<noteq> L_Idle" by auto
    with cas_fails_rank [OF this(1) i(3) refl spin] CasFails w s(2,3) i(4) [of t] show ?thesis by simp
  next
    case (Proceed u)
    with w s(1) have "mutex_do fx (Proceed t) (run_sys r) = Some s" "w_pc r t \<noteq> L_Idle" by auto
    with proceed_free_rank [OF laws this(1) st i(5,6)] Proceed w s(2,3) i(4) [of t] show ?thesis
      by (auto simp: mutex_free_def)
  next
    case (Update u f)
    with w s(1) nh show ?thesis by (cases "w_pc r t") simp_all
  qed (use w s nh in \<open>auto split: if_splits\<close>)
qed

lemma held_step:
  assumes inv: "progress_inv fx r" and act: "counter_act fx a r = Some r1" and t: "holds (w_pc r t)"
    and w: "worker_of a = Some t"
  shows "run_i r1 t = run_i r t + 1 \<and> run_i r t < iterations \<or>
    run_i r1 = run_i r \<and> holds (w_pc r1 t) \<and> hold_rank (w_pc r1 t) (run_added r1 t) < hold_rank (w_pc r t) (run_added r t)"
proof -
  note i = progress_invD [OF inv]
  obtain s r' where s: "mutex_do fx a (run_sys r) = Some s" "worker_next a r = Some r'"
    "r1 = r'\<lparr>run_sys := s\<rparr>" "mutex_act fx a (run_sys r) = Some s" by (rule counter_actD [OF act])
  from t have "in_body (w_pc r t)" by (cases "w_pc r t") simp_all
  with counter_invD(6) [OF i(1)] have it: "run_i r t < iterations" by blast
  note nf = touch_free [OF inv s(1)]
  show ?thesis
  proof (cases a)
    case (CallUnlock u)
    with w s(2,3) it show ?thesis by (auto split: if_splits)
  next
    case (Update u f)
    with w s nf t show ?thesis by (cases "w_pc r t") (auto simp: touch_ok split: if_splits)
  next
    case (CasWins u)
    with w s(1) t show ?thesis by (cases "w_pc r t") simp_all
  next
    case (CasFails u c)
    with w s(1) t show ?thesis by (cases "w_pc r t") simp_all
  next
    case (Proceed u)
    with w s(1) t show ?thesis by (cases "w_pc r t") simp_all
  qed (use w s(1) t in \<open>auto split: if_splits\<close>)
qed

lemma other_step:
  assumes inv: "progress_inv fx r" and act: "counter_act fx a r = Some r1" and t: "holds (w_pc r t)"
    and w: "worker_of a \<noteq> Some t"
  shows "run_i r1 = run_i r \<and> w_pc r1 t = w_pc r t \<and> run_added r1 t = run_added r t"
proof -
  note i = progress_invD [OF inv]
  obtain s r' where s: "mutex_do fx a (run_sys r) = Some s" "worker_next a r = Some r'"
    "r1 = r'\<lparr>run_sys := s\<rparr>" "mutex_act fx a (run_sys r) = Some s" by (rule counter_actD [OF act])
  show ?thesis
  proof (cases "t = actor a")
    case True
    with w obtain u where "a = Interrupt u" by (cases a) auto
    with s show ?thesis by auto
  next
    case False
    have "run_i r' = run_i r"
    proof (cases a)
      case (CallUnlock u)
      with s(1) have "holds (w_pc r u)" by (simp split: if_splits)
      with i(8) [OF t this] CallUnlock False show ?thesis by simp
    qed (use s(2) in \<open>auto split: if_splits lock_pc.splits\<close>)
    with step_others [OF act False] s(3) show ?thesis by simp
  qed
qed

section \<open>Who helps\<close>

definition ready :: "'k futex \<Rightarrow> nat \<Rightarrow> 'k counter_run \<Rightarrow> bool" where
  "ready fx t r \<longleftrightarrow>
     (if w_pc r t = L_Idle then run_i r t < iterations else \<not> fx_asleep fx (kern (run_sys r)) t)"

definition helping :: "'k futex \<Rightarrow> nat \<Rightarrow> 'k counter_run \<Rightarrow> bool" where
  "helping fx t r \<longleftrightarrow> t < worker_count \<and> (if mutex_free r then ready fx t r else holds (w_pc r t))"

lemma some_helper:
  assumes inv: "progress_inv fx r" and go: "\<not> workers_joined r"
  shows "\<exists>t. helping fx t r"
proof (cases "mutex_free r")
  case False
  with progress_invD(7) [OF inv] obtain u where u: "holds (w_pc r u)" by (auto simp: mutex_free_def)
  with one_holder(3) [OF inv u] False show ?thesis by (auto simp: helping_def)
next
  case True
  note i = progress_invD [OF inv]
  show ?thesis
  proof (cases "\<exists>x. fx_asleep fx (kern (run_sys r)) x")
    case False
    from go obtain t where "t < worker_count" "run_i r t \<noteq> iterations \<or> w_pc r t \<noteq> L_Idle"
      by (auto simp: workers_joined_def)
    moreover have "run_i r t \<le> iterations" for t by (rule counter_invD(5) [OF i(1)])
    ultimately have "helping fx t r" using False True by (auto simp: helping_def ready_def le_neq_implies_less)
    then show ?thesis ..
  next
    case asleep: True
    with i(2) True obtain u where "w_pc r u = U_Wake \<or> retries fx (run_sys r) u"
      by (auto simp: sleepers_ok_def mutex_free_def)
    then have "w_pc r u \<noteq> L_Idle \<and> \<not> fx_asleep fx (kern (run_sys r)) u"
      using i(2) by (auto simp: retries_def sleepers_ok_def)
    with i(4) [of u] True have "helping fx u r" by (simp add: helping_def ready_def)
    then show ?thesis ..
  qed
qed

lemma helper_can_go:
  assumes inv: "progress_inv fx r" and t: "helping fx t r"
  shows "can_go (counter_act fx) worker_of t r"
proof -
  note i = progress_invD [OF inv]
  have go: ?thesis if "mutex_do fx a (run_sys r) = Some s" "worker_next a r = Some r'" "worker_of a = Some t" for a s r'
    using that i(5,6) unfolding can_go_def
    by (intro exI [of _ a] exI [of _ "r'\<lparr>run_sys := s\<rparr>"]) (simp add: counter_act_def mutex_act_def)
  show ?thesis
  proof (cases "mutex_free r")
    case True
    with t have rd: "t < worker_count" "ready fx t r" "cur_state (run_sys r) = Free"
      by (simp_all add: helping_def mutex_free_def)
    with i(7) have nh: "\<not> holds (w_pc r t)" by blast
    show ?thesis
    proof (cases "w_pc r t")
      case L_Idle
      with rd go [of "CallLock t"] show ?thesis by (simp add: ready_def)
    next
      case L_Fast
      with rd go [of "CasWins t"] show ?thesis by simp
    next
      case (L_Spin n)
      with rd go [of "CasWins t"] show ?thesis by simp
    qed (use rd nh i(3) [of t] go [of "Proceed t"] in \<open>simp_all add: ready_def\<close>)
  next
    case False
    with t have h: "holds (w_pc r t)" by (simp add: helping_def)
    show ?thesis
    proof (cases "w_pc r t")
      case L_Critical
      with go [of "CallUnlock t"] go [of "Update t (\<lambda>x. x + 1)"] show ?thesis by (cases "run_added r t") simp_all
    next
      case (L_Loaded x)
      with i(10) [of t] go [of "Update t (\<lambda>x. x + 1)"] show ?thesis by (cases "run_added r t") simp_all
    qed (use h in simp_all)
  qed
qed

lemma step_progress:
  assumes laws: "futex_laws fx" and inv: "progress_inv fx r" and t: "helping fx t r"
    and act: "counter_act fx a r = Some r1"
  shows "(work_left r1, work_left r) \<in> less_work \<or>
    worker_of a \<noteq> Some t \<and> work_left r1 = work_left r \<and> helping fx t r1"
proof (cases "mutex_free r")
  case False
  with t have h: "holds (w_pc r t)" and lt: "t < worker_count" by (simp_all add: helping_def)
  note inv1 = progress_act_inv [OF laws inv act] and one = one_holder [OF inv h]
  show ?thesis
  proof (cases "worker_of a = Some t")
    case True
    note step = held_step [OF inv act h True]
    show ?thesis
    proof (cases "run_i r1 = run_i r")
      case False
      from True have a: "t = actor a" by (cases a) auto
      with False step_others(2) [OF act] have "run_i r1 t \<noteq> run_i r t" by (metis ext)
      with step have "over_workers (\<lambda>u. iterations - run_i r1 u) < over_workers (\<lambda>u. iterations - run_i r u)"
        using step_others(2) [OF act] a by (intro over_workers_less [OF _ lt]) auto
      then show ?thesis by (simp add: work_left_def less_work_def)
    next
      case True
      with step have s1: "holds (w_pc r1 t)"
        "hold_rank (w_pc r1 t) (run_added r1 t) < hold_rank (w_pc r t) (run_added r t)" by auto
      with one_holder [OF inv1 s1(1)] one True show ?thesis by (simp add: work_left_def less_work_def)
    qed
  next
    case other: False
    from other_step [OF inv act h other] have s1: "run_i r1 = run_i r" "w_pc r1 t = w_pc r t"
      "run_added r1 t = run_added r t" by simp_all
    with h have h1: "holds (w_pc r1 t)" by simp
    with one_holder [OF inv1 h1] one s1 lt other show ?thesis by (simp add: work_left_def helping_def)
  qed
next
  case True
  with t have lt: "t < worker_count" and rd: "ready fx t r" by (simp_all add: helping_def)
  note inv1 = progress_act_inv [OF laws inv act]
  show ?thesis
  proof (cases "worker_of a")
    case None
    then obtain u where a: "a = Interrupt u" by (cases a) auto
    have "work_left r1 = work_left r \<and> helping fx t r1"
      using act a True t futex_lawsD(4) [OF laws]
      by (auto simp: counter_act_def mutex_act_def work_left_def mutex_free_def helping_def ready_def split: if_splits)
    with None show ?thesis by simp
  next
    case (Some u)
    from free_step [OF laws inv act True Some] have s1: "run_i r1 = run_i r" "u < worker_count"
      "\<not> mutex_free r1 \<or> lock_rank (w_pc r1 u) < lock_rank (w_pc r u)" by simp_all
    show ?thesis
    proof (cases "mutex_free r1")
      case False
      with progress_invD(7) [OF inv1] obtain v where v: "holds (w_pc r1 v)" by (auto simp: mutex_free_def)
      with one_holder [OF inv1 v] hold_rank_le [of "w_pc r1 v" "run_added r1 v"] True s1(1) show ?thesis
        by (simp add: work_left_def less_work_def)
    next
      case free1: True
      from Some have "u = actor a" by (cases a) auto
      with step_others(1) [OF act] s1(2,3) free1
      have "over_workers (\<lambda>u. lock_rank (w_pc r1 u)) < over_workers (\<lambda>u. lock_rank (w_pc r u))"
        by (intro over_workers_less [OF _ s1(2)]) auto
      with True free1 s1(1) show ?thesis by (simp add: work_left_def less_work_def)
    qed
  qed
qed

interpretation counter_progress: fair_progress "counter_act fx" worker_of
    "\<lambda>r. futex_laws fx \<and> progress_inv fx r" workers_joined "helping fx" work_left less_work
  for fx :: "'k futex"
proof unfold_locales
  show "wf less_work" by (rule wf_less_work)
qed (use progress_act_inv some_helper helper_can_go step_progress in \<open>blast+\<close>)

text \<open>Who has been joined does nothing any more.\<close>

lemma joined_over:
  assumes inv: "progress_inv fx r" and j: "workers_joined r" and act: "counter_act fx a r = Some r1"
  shows "worker_of a = None \<and> workers_joined r1"
proof -
  obtain s r' where s: "mutex_do fx a (run_sys r) = Some s" "worker_next a r = Some r'"
    "r1 = r'\<lparr>run_sys := s\<rparr>" "mutex_act fx a (run_sys r) = Some s" by (rule counter_actD [OF act])
  have idle: "w_pc r t = L_Idle" for t using j progress_invD(4) [OF inv, of t] by (auto simp: workers_joined_def)
  have "worker_of a = None"
  proof (cases a)
    case (CallLock t)
    with s(2) j show ?thesis by (auto simp: workers_joined_def split: if_splits)
  qed (use s idle in \<open>auto split: if_splits\<close>)
  then obtain t where "a = Interrupt t" by (cases a) auto
  with s j have "workers_joined r1" by (auto simp: workers_joined_def)
  with \<open>worker_of a = None\<close> show ?thesis by simp
qed

lemma counter_init_progress: "counter_init fx r \<Longrightarrow> progress_inv fx r"
  using counter_init_inv [of fx r]
  by (auto simp: progress_inv_def only_workers_def counter_init_def mutex_init_def sleepers_ok_def)

lemma counter_reach_progress:
  assumes "futex_laws fx" and "counter_reach fx r"
  shows "progress_inv fx r"
  using assms(2)
proof (induction rule: reach.induct)
  case (reach_step r r1)
  with counter_act_step obtain a where "counter_act fx a r = Some r1" by blast
  from progress_act_inv [OF assms(1) reach_step.IH this] show ?case .
qed (rule counter_init_progress)

section \<open>Property\<close>

text \<open>
  C36: The program of examples/mutex.cpp ends and prints 800000: under any scheduler that passes over
  no worker for ever, with any kernel that keeps the laws of futex(2), however many signals and
  spurious returns there are and however old the values are that a failing compare and swap
  sees, a time comes from which on all eight workers have left their loops and the counter is
  800000. At no time is it negative or larger, so the additions of \<open>int\<close> do not overflow.
\<close>

theorem counter_example_ends:
  assumes "futex_laws fx" and "is_run (counter_act fx) as rs" and "counter_init fx (rs 0)"
    and "is_fair (counter_act fx) worker_of as rs"
  shows "(\<exists>n. \<forall>m\<ge>n. workers_joined (rs m) \<and> shared (run_sys (rs m)) = 800000) \<and>
    (\<forall>m. 0 \<le> shared (run_sys (rs m)) \<and> shared (run_sys (rs m)) \<le> 800000)"
proof -
  have reach: "counter_reach fx (rs m)" for m
    by (rule run_reach [where act = "counter_act fx" and as = as]) (use assms(2,3) counter_act_step in blast)+
  from counter_progress.fair_goal [OF assms(2,4), of 0] counter_init_progress [OF assms(3)] assms(1)
  obtain n where n: "workers_joined (rs n)" by blast
  have "workers_joined (rs m)" if "n \<le> m" for m
    using that
  proof (induction m rule: dec_induct)
    case (step m)
    show ?case
    proof (cases "as m")
      case None
      with is_runD(1) [OF assms(2)] step.IH show ?thesis by simp
    next
      case (Some a)
      from joined_over [OF counter_reach_progress [OF assms(1) reach] step.IH is_runD(2) [OF assms(2) Some]]
      show ?thesis by simp
    qed
  qed (rule n)
  then have "\<forall>m\<ge>n. workers_joined (rs m) \<and> shared (run_sys (rs m)) = 800000"
    using counter_run.reach_inv [OF reach] counter_total_joined by blast
  moreover have "0 \<le> shared (run_sys (rs m)) \<and> shared (run_sys (rs m)) \<le> 800000" for m
    using counter_total [OF reach [of m]] by blast
  ultimately show ?thesis by blast
qed

theorem counter_example_ends_witness:
  "\<exists>as rs n. is_run (counter_act list_futex) as rs \<and> counter_init list_futex (rs 0) \<and>
     is_fair (counter_act list_futex) worker_of as rs \<and> shared (run_sys (rs n)) = 800000"
proof -
  obtain r where r: "counter_reach list_futex r" "workers_joined r" using counter_run_complete by blast
  have "\<exists>as rs n. is_run (counter_act list_futex) as rs \<and> counter_init list_futex (rs 0) \<and>
      (\<forall>i\<ge>n. as i = None \<and> rs i = r)"
    by (rule reach_run [OF r(1)]) (use counter_act_step in blast)
  then obtain as rs n where run: "is_run (counter_act list_futex) as rs" "counter_init list_futex (rs 0)"
    "\<forall>i\<ge>n. as i = None \<and> rs i = r" by blast
  have "\<not> can_go (counter_act list_futex) worker_of t r" for t
    using joined_over [OF counter_reach_progress [OF list_futex_laws r(1)] r(2)] unfolding can_go_def by force
  then have "is_fair (counter_act list_futex) worker_of as rs"
    using run(3) by (intro standstill_fair [of n]) auto
  with counter_example_ends [OF list_futex_laws run(1,2)] run(1,2) show ?thesis by blast
qed

end
