(* ===== verification/ObjectPool.thy ===== *)
theory ObjectPool
  imports Storage
begin

text \<open>
  \<open>ObjectPool\<close> of include/sync_tools/object_pool.hpp: a ring of pointers to the free nodes
  of a block of raw storage. Each operation is one step here; \<open>PoolConcurrent\<close> has them
  interleaved, with the mutex. Objects live in a heap shared by all pools.
\<close>

section \<open>Pointers and the heap\<close>

text \<open>
  An address is the block of a pool (its \<open>_nodes\<close>) and the index of a node in it; a
  pointer is \<open>None\<close> while it is null. The heap maps an address to the object alive there.
\<close>

type_synonym addr = "nat \<times> nat"
type_synonym ptr = "addr option"
type_synonym 'a heap = "addr \<Rightarrow> 'a option"

text \<open>\<open>new (p) T(\<dots>)\<close> and \<open>p->~T()\<close>\<close>

fun heap_new :: "ptr \<Rightarrow> 'a \<Rightarrow> 'a heap \<Rightarrow> fault + 'a heap" where
  "heap_new None v h = Inl RawRead"
| "heap_new (Some a) v h = (if h a = None then Inr (h(a := Some v)) else Inl LiveOverwrite)"

fun heap_delete :: "ptr \<Rightarrow> 'a heap \<Rightarrow> fault + 'a heap" where
  "heap_delete None h = Inl RawRead"
| "heap_delete (Some a) h = (if h a = None then Inl RawRead else Inr (h(a := None)))"

text \<open>\<open>memcpy(dst + d, src + s, n * sizeof(T*))\<close>\<close>

definition copy_range :: "'x list \<Rightarrow> nat \<Rightarrow> 'x list \<Rightarrow> nat \<Rightarrow> nat \<Rightarrow> fault + 'x list" where
  "copy_range dst d src s n =
     (if d + n \<le> length dst \<and> s + n \<le> length src
      then Inr (take d dst @ take n (drop s src) @ drop (d + n) dst)
      else Inl OutOfBounds)"

text \<open>A call returns, or the constructor of \<open>T\<close> throws.\<close>

datatype 'r outcome = Returned 'r | Threw

section \<open>The size of a pool\<close>

text \<open>\<open>__builtin_clzll\<close> of a value other than zero: 64 less the length in bits.\<close>

fun bit_length :: "nat \<Rightarrow> nat" where
  "bit_length n = (if n = 0 then 0 else Suc (bit_length (n div 2)))"

declare bit_length.simps [simp del]

definition clzll :: "size_t \<Rightarrow> nat" where
  "clzll x = 64 - bit_length (unat x)"

text \<open>A shift by 64 is undefined.\<close>

definition round_up_pow2 :: "size_t \<Rightarrow> fault + size_t" where
  "round_up_pow2 v =
     (if v \<le> 1 then Inr 1
      else if 64 - clzll (v - 1) < 64 then Inr (push_bit (64 - clzll (v - 1)) 1)
      else Inl ShiftOverflow)"

section \<open>State and operations\<close>

text \<open>\<open>pl_block\<close> stands for the address of \<open>_nodes\<close>.\<close>

record pool =
  pl_block :: nat
  pl_size :: size_t
  pl_avail :: "ptr list"
  pl_head :: size_t
  pl_count :: size_t

definition pool_new :: "nat \<Rightarrow> size_t \<Rightarrow> fault + pool" where
  "pool_new blk n =
     res_bind (round_up_pow2 n) (\<lambda>sz.
       Inr \<lparr>pl_block = blk, pl_size = sz, pl_avail = map (\<lambda>i. Some (blk, i)) [0..<unat sz],
            pl_head = 0, pl_count = sz\<rparr>)"

text \<open>
  Every operation has a part that works on the members of the pool, which it runs under the
  mutex, and a part that builds or destroys objects. The parts on the members come first:
  \<open>None\<close> is a pool with no free node.
\<close>

definition pool_take :: "pool \<Rightarrow> fault + ptr option \<times> pool" where
  "pool_take P =
     (if pl_count P = 0 then Inr (None, P)
      else if length (pl_avail P) \<le> unat (pl_head P) then Inl OutOfBounds
      else
        let obj = pl_avail P ! unat (pl_head P)
        in Inr (Some obj, P\<lparr>pl_head := (pl_head P + 1) AND (pl_size P - 1), pl_count := pl_count P - 1\<rparr>))"

definition pool_put :: "ptr \<Rightarrow> pool \<Rightarrow> fault + pool" where
  "pool_put obj P =
     (let tail = (pl_head P + pl_count P) AND (pl_size P - 1)
      in if length (pl_avail P) \<le> unat tail then Inl OutOfBounds
         else Inr (P\<lparr>pl_avail := (pl_avail P)[unat tail := obj], pl_count := pl_count P + 1\<rparr>))"

text \<open>\<open>out\<close> is the caller's array; the call writes its first places.\<close>

definition pool_copy_out :: "ptr list \<Rightarrow> size_t \<Rightarrow> pool \<Rightarrow> fault + size_t \<times> ptr list \<times> pool" where
  "pool_copy_out out max_count P =
     (let num = min max_count (pl_count P)
      in if num = 0 then Inr (0, out, P)
         else
           res_bind
             (if pl_head P + num \<le> pl_size P
              then copy_range out 0 (pl_avail P) (unat (pl_head P)) (unat num)
              else
                let firstPart = pl_size P - pl_head P
                in res_bind (copy_range out 0 (pl_avail P) (unat (pl_head P)) (unat firstPart))
                     (\<lambda>out'. copy_range out' (unat firstPart) (pl_avail P) 0 (unat (num - firstPart))))
             (\<lambda>out'. Inr (num, out',
                P\<lparr>pl_head := (pl_head P + num) AND (pl_size P - 1), pl_count := pl_count P - num\<rparr>)))"

definition pool_copy_in :: "ptr list \<Rightarrow> size_t \<Rightarrow> pool \<Rightarrow> fault + pool" where
  "pool_copy_in items num P =
     (let tail = (pl_head P + pl_count P) AND (pl_size P - 1)
      in res_bind
           (if tail + num \<le> pl_size P
            then copy_range (pl_avail P) (unat tail) items 0 (unat num)
            else
              let firstPart = pl_size P - tail
              in res_bind (copy_range (pl_avail P) (unat tail) items 0 (unat firstPart))
                   (\<lambda>av. copy_range av 0 items (unat firstPart) (unat (num - firstPart))))
           (\<lambda>av. Inr (P\<lparr>pl_avail := av, pl_count := pl_count P + num\<rparr>)))"

text \<open>\<open>acquire(args...)\<close>: \<open>ctor\<close> is the object the arguments build, \<open>None\<close> if that throws.\<close>

definition pool_acquire :: "'a option \<Rightarrow> pool \<Rightarrow> 'a heap \<Rightarrow> fault + ptr outcome \<times> pool \<times> 'a heap" where
  "pool_acquire ctor P h =
     res_bind (pool_take P) (\<lambda>(taken, P').
       case taken of
         None \<Rightarrow> Inr (Returned None, P', h)
       | Some obj \<Rightarrow>
           (case ctor of
              None \<Rightarrow> Inr (Threw, P', h)
            | Some v \<Rightarrow> res_bind (heap_new obj v h) (\<lambda>h'. Inr (Returned obj, P', h'))))"

definition pool_release :: "ptr \<Rightarrow> pool \<Rightarrow> 'a heap \<Rightarrow> fault + pool \<times> 'a heap" where
  "pool_release obj P h =
     res_bind (heap_delete obj h) (\<lambda>h'. res_bind (pool_put obj P) (\<lambda>P'. Inr (P', h')))"

text \<open>
  The construction loop of \<open>acquire_batch\<close>: the arguments are forwarded for every object, so
  \<open>ctors i\<close> is what they build the \<open>i\<close>-th time (from arguments that the first times may
  have moved from).
\<close>

fun build_objects :: "(nat \<Rightarrow> 'a option) \<Rightarrow> nat \<Rightarrow> ptr list \<Rightarrow> 'a heap \<Rightarrow> fault + bool \<times> 'a heap" where
  "build_objects ctors i [] h = Inr (True, h)"
| "build_objects ctors i (p # ps) h =
     (case ctors i of
        None \<Rightarrow> Inr (False, h)
      | Some v \<Rightarrow> res_bind (heap_new p v h) (build_objects ctors (i + 1) ps))"

definition pool_acquire_batch ::
  "(nat \<Rightarrow> 'a option) \<Rightarrow> ptr list \<Rightarrow> size_t \<Rightarrow> pool \<Rightarrow> 'a heap \<Rightarrow>
   fault + size_t outcome \<times> ptr list \<times> pool \<times> 'a heap" where
  "pool_acquire_batch ctors out max_count P h =
     res_bind (pool_copy_out out max_count P) (\<lambda>(num, out', P').
       res_bind (build_objects ctors 0 (take (unat num) out') h) (\<lambda>(ok, h').
         Inr (if ok then Returned num else Threw, out', P', h')))"

fun destroy_objects :: "ptr list \<Rightarrow> 'a heap \<Rightarrow> fault + 'a heap" where
  "destroy_objects [] h = Inr h"
| "destroy_objects (p # ps) h = res_bind (heap_delete p h) (destroy_objects ps)"

definition pool_release_batch :: "ptr list \<Rightarrow> size_t \<Rightarrow> pool \<Rightarrow> 'a heap \<Rightarrow> fault + pool \<times> 'a heap" where
  "pool_release_batch items num P h =
     (if num = 0 then Inr (P, h)
      else if length items < unat num then Inl OutOfBounds
      else
        res_bind (destroy_objects (take (unat num) items) h) (\<lambda>h'.
          res_bind (pool_copy_in items num P) (\<lambda>P'. Inr (P', h'))))"

section \<open>The invariant and the list of free nodes\<close>

definition pool_free :: "pool \<Rightarrow> addr list" where
  "pool_free P = ring_list (pl_avail P) (unat (pl_head P)) (unat (pl_count P))"

definition pool_nodes :: "pool \<Rightarrow> addr set" where
  "pool_nodes P = {pl_block P} \<times> {..<unat (pl_size P)}"

definition pool_shape :: "pool \<Rightarrow> bool" where
  "pool_shape P \<longleftrightarrow>
     pow2_size (pl_size P) \<and> length (pl_avail P) = unat (pl_size P) \<and>
     unat (pl_head P) < unat (pl_size P) \<and> unat (pl_count P) \<le> unat (pl_size P) \<and>
     None \<notin> set (pl_avail P) \<and> distinct (pool_free P) \<and> set (pool_free P) \<subseteq> pool_nodes P"

definition pool_inv :: "pool \<Rightarrow> 'a heap \<Rightarrow> bool" where
  "pool_inv P h \<longleftrightarrow> pool_shape P \<and> (\<forall>a\<in>set (pool_free P). h a = None)"

lemma length_pool_free [simp]: "length (pool_free P) = unat (pl_count P)"
  by (simp add: pool_free_def)

section \<open>Rounding up\<close>

lemma bit_length_bounds: "0 < n \<Longrightarrow> 2 ^ (bit_length n - 1) \<le> n \<and> n < 2 ^ bit_length n \<and> 0 < bit_length n"
proof (induction n rule: bit_length.induct)
  case (1 n)
  show ?case
  proof (cases "n div 2 = 0")
    case True
    with "1.prems" have n: "n = 1" by linarith
    have "bit_length n = Suc (bit_length 0)" using n by (subst bit_length.simps) simp
    moreover have "bit_length 0 = 0" by (subst bit_length.simps) simp
    ultimately show ?thesis using n by simp
  next
    case False
    then have pos: "0 < n div 2" by simp
    from "1.prems" have bl: "bit_length n = Suc (bit_length (n div 2))"
      by (subst bit_length.simps) simp
    from "1.IH" [OF _ pos] "1.prems" have
      ih: "2 ^ (bit_length (n div 2) - 1) \<le> n div 2" "n div 2 < 2 ^ bit_length (n div 2)"
        "0 < bit_length (n div 2)" by simp_all
    from ih(3) have "(2 :: nat) ^ bit_length (n div 2) = 2 * 2 ^ (bit_length (n div 2) - 1)"
      by (cases "bit_length (n div 2)") simp_all
    with ih(1) have "2 ^ bit_length (n div 2) \<le> n" by linarith
    moreover from ih(2) have "n < 2 * 2 ^ bit_length (n div 2)" by linarith
    ultimately show ?thesis by (simp add: bl)
  qed
qed

lemma bit_length_le: "0 < n \<Longrightarrow> bit_length n \<le> k \<longleftrightarrow> n < 2 ^ k"
proof
  assume n: "0 < n" and "bit_length n \<le> k"
  then have "(2 :: nat) ^ bit_length n \<le> 2 ^ k" by (intro power_increasing) simp_all
  with bit_length_bounds [OF n] show "n < 2 ^ k" by linarith
next
  assume n: "0 < n" and lt: "n < 2 ^ k"
  show "bit_length n \<le> k"
  proof (rule ccontr)
    assume "\<not> bit_length n \<le> k"
    then have "(2 :: nat) ^ k \<le> 2 ^ (bit_length n - 1)" by (intro power_increasing) simp_all
    with bit_length_bounds [OF n] lt show False by linarith
  qed
qed

lemma round_up_aux:
  assumes "1 < v"
  defines "b \<equiv> bit_length (unat v - 1)"
  shows "64 - clzll (v - 1) = b" "unat v \<le> 2 ^ b" "2 ^ b < 2 * unat v" "b < 64 \<longleftrightarrow> unat v \<le> 2 ^ 63"
proof -
  have v: "1 < unat v" using assms(1) by (simp add: word_less_nat_alt)
  then have x: "unat (v - 1) = unat v - 1" by (subst unat_minus_bounded) simp_all
  from v have pos: "0 < unat v - 1" by simp
  note bounds = bit_length_bounds [OF pos]
  have "unat v < 2 ^ 64" using unsigned_less [of v, where 'a = nat] by simp
  with pos have b64: "b \<le> 64" unfolding b_def by (subst bit_length_le) linarith+
  then show "64 - clzll (v - 1) = b" by (simp add: clzll_def x b_def)
  show "unat v \<le> 2 ^ b" using bounds unfolding b_def by linarith
  have "(2 :: nat) ^ b = 2 * 2 ^ (b - 1)" using bounds unfolding b_def by (cases "bit_length (unat v - 1)") simp_all
  with bounds v show "2 ^ b < 2 * unat v" unfolding b_def by linarith
  have "b < 64 \<longleftrightarrow> b \<le> 63" by linarith
  also have "\<dots> \<longleftrightarrow> unat v - 1 < 2 ^ 63" unfolding b_def using pos by (rule bit_length_le)
  finally show "b < 64 \<longleftrightarrow> unat v \<le> 2 ^ 63" using v by linarith
qed

lemma round_up_spec:
  "if unat v \<le> 2 ^ 63
   then \<exists>sz. round_up_pow2 v = Inr sz \<and> pow2_size sz \<and> unat v \<le> unat sz \<and> unat sz < 2 * max 1 (unat v)
   else round_up_pow2 v = Inl ShiftOverflow"
proof (cases "v \<le> 1")
  case True
  then have "unat v \<le> 1" by (simp add: word_le_nat_alt)
  moreover have "pow2_size 1" unfolding pow2_size_def by (rule exI [of _ 0]) simp
  ultimately show ?thesis using True by (simp add: round_up_pow2_def)
next
  case False
  then have v: "1 < v" by simp
  note aux = round_up_aux [OF v]
  let ?b = "bit_length (unat v - 1)"
  show ?thesis
  proof (cases "unat v \<le> 2 ^ 63")
    case True
    with aux(4) have b: "?b < 64" by simp
    have "round_up_pow2 v = Inr (2 ^ ?b)"
      using False b by (simp add: round_up_pow2_def aux(1) push_bit_eq_mult)
    moreover have "pow2_size (2 ^ ?b)" using b by (auto simp: pow2_size_def)
    moreover have "unat ((2 :: size_t) ^ ?b) = 2 ^ ?b" using b by (rule unat_pow2)
    moreover have "1 < unat v" using v by (simp add: word_less_nat_alt)
    ultimately show ?thesis using True aux(2,3) by simp
  next
    case big: False
    with aux(1,4) False show ?thesis by (simp add: round_up_pow2_def)
  qed
qed

section \<open>Ranges of a ring\<close>

lemma ring_list_tl:
  assumes "0 < k"
  shows "ring_list b (Suc t mod length b) (k - 1) = tl (ring_list b t k)"
proof (rule nth_equalityI)
  fix i assume "i < length (ring_list b (Suc t mod length b) (k - 1))"
  then have i: "Suc i < k" by simp
  have "(Suc t mod length b + i) mod length b = (t + Suc i) mod length b"
    by (simp add: mod_simps)
  then show "ring_list b (Suc t mod length b) (k - 1) ! i = tl (ring_list b t k) ! i"
    using i by (simp add: nth_ring_list nth_tl)
qed simp

lemma ring_list_drop:
  "ring_list b ((t + m) mod length b) (k - m) = drop m (ring_list b t k)"
proof (rule nth_equalityI)
  fix i assume "i < length (ring_list b ((t + m) mod length b) (k - m))"
  then have i: "m + i < k" by simp
  have "((t + m) mod length b + i) mod length b = (t + (m + i)) mod length b"
    by (simp add: mod_simps add.assoc)
  then show "ring_list b ((t + m) mod length b) (k - m) ! i = drop m (ring_list b t k) ! i"
    using i by (simp add: nth_ring_list)
qed simp

lemma ring_list_take: "m \<le> k \<Longrightarrow> take m (ring_list b t k) = ring_list b t m"
  by (rule nth_equalityI) (simp_all add: nth_ring_list)

text \<open>The pointers of a range that does not wrap, and of one that does.\<close>

lemma ring_list_straight:
  assumes "None \<notin> set b" and "t + k \<le> length b"
  shows "map Some (ring_list b t k) = take k (drop t b)"
proof (rule nth_equalityI)
  fix i assume "i < length (map Some (ring_list b t k))"
  then have i: "i < k" by simp
  with assms have "b ! (t + i) \<noteq> None" by (metis add_less_cancel_left less_le_trans nth_mem)
  with i assms(2) show "map Some (ring_list b t k) ! i = take k (drop t b) ! i"
    by (simp add: nth_ring_list)
qed (use assms(2) in simp)

lemma ring_list_wrapped:
  assumes "None \<notin> set b" and "t < length b" and "length b < t + k" and "k \<le> length b"
  shows "map Some (ring_list b t k) = drop t b @ take (k - (length b - t)) b"
proof (rule nth_equalityI)
  fix i assume "i < length (map Some (ring_list b t k))"
  then have i: "i < k" by simp
  have "b ! ((t + i) mod length b) \<noteq> None"
    using assms(1,2) by (metis mod_less_length nth_mem)
  moreover have "(t + i) mod length b = (if t + i < length b then t + i else t + i - length b)"
    using i assms(2,4) by (simp add: mod_if)
  ultimately show "map Some (ring_list b t k) ! i = (drop t b @ take (k - (length b - t)) b) ! i"
    using i assms by (auto simp: nth_ring_list nth_append add.commute [of t i])
qed (use assms in simp)

section \<open>Single operations\<close>

lemma pool_shapeD:
  assumes "pool_shape P"
  shows "pow2_size (pl_size P)" "length (pl_avail P) = unat (pl_size P)"
    "unat (pl_head P) < unat (pl_size P)" "unat (pl_count P) \<le> unat (pl_size P)"
    "None \<notin> set (pl_avail P)" "distinct (pool_free P)" "set (pool_free P) \<subseteq> pool_nodes P"
  using assms by (simp_all add: pool_shape_def)

lemma pool_invD:
  assumes "pool_inv P h"
  shows "pool_shape P" "a \<in> set (pool_free P) \<Longrightarrow> h a = None"
  using assms by (simp_all add: pool_inv_def)

lemma finite_pool_nodes [simp]: "finite (pool_nodes P)" "card (pool_nodes P) = unat (pl_size P)"
  by (simp_all add: pool_nodes_def card_cartesian_product)

lemma pool_new_spec:
  assumes "pool_new blk n = Inr P"
  shows "pool_shape P" "set (pool_free P) = pool_nodes P" "pl_block P = blk"
    "round_up_pow2 n = Inr (pl_size P)"
proof -
  from assms obtain sz where sz: "round_up_pow2 n = Inr sz"
    and P: "P = \<lparr>pl_block = blk, pl_size = sz, pl_avail = map (\<lambda>i. Some (blk, i)) [0..<unat sz],
            pl_head = 0, pl_count = sz\<rparr>"
    unfolding pool_new_def by (auto elim: res_bind_InrE)
  from round_up_spec [of n] sz have pw: "pow2_size sz" by (auto split: if_split_asm)
  have free: "pool_free P = map (\<lambda>i. (blk, i)) [0..<unat sz]"
    by (simp add: pool_free_def P ring_list_def)
  show "set (pool_free P) = pool_nodes P" unfolding free by (auto simp: pool_nodes_def P)
  then show "pool_shape P" using pw pow2_size_pos [OF pw] unfolding pool_shape_def
    by (simp add: free) (auto simp: P distinct_map inj_on_def)
  show "pl_block P = blk" "round_up_pow2 n = Inr (pl_size P)" using sz by (simp_all add: P)
qed

lemma count_words:
  assumes "pool_shape P"
  shows "pl_count P = 0 \<longleftrightarrow> pool_free P = []"
    "unat (pl_head P) + unat (pl_count P) < 2 ^ 64"
proof -
  show "pl_count P = 0 \<longleftrightarrow> pool_free P = []"
    by (metis length_pool_free length_0_conv unat_eq_0)
  note s = pool_shapeD [OF assms]
  from s(3,4) pow2_size_max [OF s(1)] show "unat (pl_head P) + unat (pl_count P) < 2 ^ 64" by simp
qed

text \<open>Dropping the first free nodes, as both acquire operations do to the indices.\<close>

definition pool_drop :: "size_t \<Rightarrow> pool \<Rightarrow> pool" where
  "pool_drop num P = P\<lparr>pl_head := (pl_head P + num) AND (pl_size P - 1), pl_count := pl_count P - num\<rparr>"

lemma pool_drop_spec:
  assumes "pool_shape P" and "num \<le> pl_count P"
  shows "pool_shape (pool_drop num P)" "pool_free (pool_drop num P) = drop (unat num) (pool_free P)"
    "pool_nodes (pool_drop num P) = pool_nodes P"
proof -
  note s = pool_shapeD [OF assms(1)]
  have n: "unat num \<le> unat (pl_count P)" using assms(2) by (simp add: word_le_nat_alt)
  have "unat (pl_head P + num) = unat (pl_head P) + unat num"
    using count_words(2) [OF assms(1)] n by (intro unat_plus_bounded) simp
  then have h: "unat ((pl_head P + num) AND (pl_size P - 1)) =
      (unat (pl_head P) + unat num) mod unat (pl_size P)"
    by (simp only: unat_and_mask [OF s(1)])
  have c: "unat (pl_count P - num) = unat (pl_count P) - unat num" using n by (rule unat_minus_bounded)
  show nodes: "pool_nodes (pool_drop num P) = pool_nodes P" by (simp add: pool_drop_def pool_nodes_def)
  have free: "pool_free (pool_drop num P) = drop (unat num) (pool_free P)"
    using ring_list_drop [of "pl_avail P" "unat (pl_head P)" "unat num" "unat (pl_count P)"]
    by (simp add: pool_free_def pool_drop_def h c s(2))
  then show "pool_free (pool_drop num P) = drop (unat num) (pool_free P)" .
  have "set (drop (unat num) (pool_free P)) \<subseteq> pool_nodes P" using s(7) set_drop_subset by fastforce
  with s pow2_size_pos [OF s(1)] nodes show "pool_shape (pool_drop num P)"
    unfolding pool_shape_def free by (simp add: pool_drop_def h c)
qed

lemma pool_take_spec:
  assumes shape: "pool_shape P"
  shows "pool_take P = Inr (case pool_free P of [] \<Rightarrow> (None, P) | a # as \<Rightarrow> (Some (Some a), pool_drop 1 P))"
proof (cases "pool_free P")
  case Nil
  with count_words(1) [OF shape] show ?thesis by (simp add: pool_take_def)
next
  case (Cons a as)
  note s = pool_shapeD [OF shape]
  have c: "pl_count P \<noteq> 0" using Cons count_words(1) [OF shape] by simp
  have "0 < unat (pl_count P)" using c by (simp add: unat_gt_0)
  then have a: "the (pl_avail P ! unat (pl_head P)) = a"
    using Cons nth_ring_list [of 0 "unat (pl_count P)" "pl_avail P" "unat (pl_head P)"] s(2,3)
    by (simp add: pool_free_def)
  have "pl_avail P ! unat (pl_head P) \<noteq> None" using s(2,3,5) by (metis nth_mem)
  with a have slot: "pl_avail P ! unat (pl_head P) = Some a" by auto
  with c s(2,3) Cons show ?thesis by (simp add: pool_take_def Let_def pool_drop_def)
qed

lemma pool_acquire_spec:
  assumes inv: "pool_inv P h"
  shows "pool_acquire ctor P h =
    (case pool_free P of
       [] \<Rightarrow> Inr (Returned None, P, h)
     | a # as \<Rightarrow>
         (case ctor of
            None \<Rightarrow> Inr (Threw, pool_drop 1 P, h)
          | Some v \<Rightarrow> Inr (Returned (Some a), pool_drop 1 P, h(a := Some v))))"
  using pool_take_spec [OF pool_invD(1) [OF inv]] pool_invD(2) [OF inv]
  by (cases "pool_free P") (simp_all add: pool_acquire_def split: option.split)

text \<open>Appending nodes, as both release operations do.\<close>

lemma pool_room:
  assumes "pool_shape P" and "set as \<subseteq> pool_nodes P" and "distinct as"
    and "set as \<inter> set (pool_free P) = {}"
  shows "unat (pl_count P) + length as \<le> unat (pl_size P)"
proof -
  note s = pool_shapeD [OF assms(1)]
  have "card (set (pool_free P @ as)) = unat (pl_count P) + length as"
    using distinct_card [of "pool_free P @ as"] s(6) assms(3,4) by (simp add: Int_commute)
  moreover have "card (set (pool_free P @ as)) \<le> card (pool_nodes P)"
    using s(7) assms(2) by (intro card_mono) simp_all
  ultimately show ?thesis by simp
qed

lemma pool_tail:
  assumes "pool_shape P"
  shows "unat ((pl_head P + pl_count P) AND (pl_size P - 1)) =
      (unat (pl_head P) + unat (pl_count P)) mod unat (pl_size P)"
    "unat ((pl_head P + pl_count P) AND (pl_size P - 1)) < unat (pl_size P)"
proof -
  note s = pool_shapeD [OF assms]
  have "unat (pl_head P + pl_count P) = unat (pl_head P) + unat (pl_count P)"
    using count_words(2) [OF assms] by (rule unat_plus_bounded)
  then show eq: "unat ((pl_head P + pl_count P) AND (pl_size P - 1)) =
      (unat (pl_head P) + unat (pl_count P)) mod unat (pl_size P)"
    by (simp only: unat_and_mask [OF s(1)])
  show "unat ((pl_head P + pl_count P) AND (pl_size P - 1)) < unat (pl_size P)"
    unfolding eq using s(3) by (intro mod_less_divisor) linarith
qed

text \<open>A pool whose ring has been written to with the given nodes behind its free ones.\<close>

lemma pool_append_spec:
  assumes shape: "pool_shape P" and nodes: "set as \<subseteq> pool_nodes P" "distinct as"
      "set as \<inter> set (pool_free P) = {}"
    and av: "length av = length (pl_avail P)" "None \<notin> set av"
    and ring: "ring_list av (unat (pl_head P)) (unat (pl_count P) + length as) = pool_free P @ as"
    and num: "unat num = length as"
  defines "Q \<equiv> P\<lparr>pl_avail := av, pl_count := pl_count P + num\<rparr>"
  shows "pool_shape Q" "pool_free Q = pool_free P @ as" "pool_nodes Q = pool_nodes P"
proof -
  note s = pool_shapeD [OF shape] and room = pool_room [OF shape nodes]
  have "unat (pl_count P) + unat num < 2 ^ 64"
    using room num pow2_size_max [OF s(1)] by simp
  then have c: "unat (pl_count P + num) = unat (pl_count P) + length as"
    using num by (subst unat_plus_bounded) simp_all
  show nQ: "pool_nodes Q = pool_nodes P" by (simp add: Q_def pool_nodes_def)
  show free: "pool_free Q = pool_free P @ as"
    using ring by (simp add: pool_free_def Q_def c)
  have "distinct (pool_free Q)" "set (pool_free Q) \<subseteq> pool_nodes Q"
    unfolding free nQ using s(6,7) nodes by auto
  with s room av show "pool_shape Q" unfolding pool_shape_def by (simp add: Q_def c)
qed

lemma pool_put_spec:
  assumes shape: "pool_shape P" and a: "a \<in> pool_nodes P" "a \<notin> set (pool_free P)"
  shows "\<exists>Q. pool_put (Some a) P = Inr Q \<and> pool_shape Q \<and> pool_free Q = pool_free P @ [a] \<and>
    pool_nodes Q = pool_nodes P"
proof -
  note s = pool_shapeD [OF shape]
  let ?t = "unat ((pl_head P + pl_count P) AND (pl_size P - 1))"
  let ?av = "(pl_avail P)[?t := Some a]"
  have nodes: "set [a] \<subseteq> pool_nodes P" "distinct [a]" "set [a] \<inter> set (pool_free P) = {}"
    using a by auto
  from pool_room [OF shape nodes] have room: "unat (pl_count P) < length (pl_avail P)" using s(2) by simp
  have ring: "ring_list ?av (unat (pl_head P)) (unat (pl_count P) + length [a]) = pool_free P @ [a]"
    using ring_list_construct [OF room, of ?t "unat (pl_head P)" a] pool_tail(1) [OF shape] s(2)
    by (simp add: pool_free_def)
  have "None \<notin> set ?av" using s(5) set_update_subset_insert by fastforce
  with pool_append_spec [OF shape nodes _ _ ring, of 1] pool_tail(2) [OF shape] s(2)
  show ?thesis by (simp add: pool_put_def Let_def)
qed

lemma pool_release_spec:
  assumes inv: "pool_inv P h" and a: "a \<in> pool_nodes P" "h a \<noteq> None"
  shows "\<exists>Q. pool_release (Some a) P h = Inr (Q, h(a := None)) \<and> pool_inv Q (h(a := None)) \<and>
    pool_free Q = pool_free P @ [a] \<and> pool_nodes Q = pool_nodes P"
proof -
  note shape = pool_invD(1) [OF inv]
  have "a \<notin> set (pool_free P)" using pool_invD(2) [OF inv, of a] a(2) by blast
  from pool_put_spec [OF shape a(1) this] obtain Q where
    Q: "pool_put (Some a) P = Inr Q" "pool_shape Q" "pool_free Q = pool_free P @ [a]"
      "pool_nodes Q = pool_nodes P" by (elim exE conjE) (rule that)
  have "pool_inv Q (h(a := None))" unfolding pool_inv_def Q(3) using Q(2) pool_invD(2) [OF inv] by auto
  with Q a(2) show ?thesis by (simp add: pool_release_def)
qed

section \<open>Batches\<close>

lemma copy_range_spec:
  assumes "d + n \<le> length dst" and "s + n \<le> length src"
  shows "copy_range dst d src s n = Inr (take d dst @ take n (drop s src) @ drop (d + n) dst)"
  using assms by (simp add: copy_range_def)

text \<open>Building and destroying a list of nodes.\<close>

fun heap_build :: "(nat \<Rightarrow> 'a option) \<Rightarrow> nat \<Rightarrow> addr list \<Rightarrow> 'a heap \<Rightarrow> bool \<times> 'a heap" where
  "heap_build ctors i [] h = (True, h)"
| "heap_build ctors i (a # as) h =
     (case ctors i of None \<Rightarrow> (False, h) | Some v \<Rightarrow> heap_build ctors (i + 1) as (h(a := Some v)))"

definition heap_clear :: "addr set \<Rightarrow> 'a heap \<Rightarrow> 'a heap" where
  "heap_clear A h = (\<lambda>a. if a \<in> A then None else h a)"

lemma build_objects_spec:
  "distinct as \<Longrightarrow> (\<And>a. a \<in> set as \<Longrightarrow> h a = None) \<Longrightarrow>
     build_objects ctors i (map Some as) h = Inr (heap_build ctors i as h)"
proof (induction as arbitrary: i h)
  case (Cons a as)
  show ?case
  proof (cases "ctors i")
    case (Some v)
    have "build_objects ctors (i + 1) (map Some as) (h(a := Some v)) =
        Inr (heap_build ctors (i + 1) as (h(a := Some v)))"
      using Cons.prems by (intro Cons.IH) auto
    with Some Cons.prems show ?thesis by simp
  qed simp
qed simp

lemma heap_build_other: "a \<notin> set as \<Longrightarrow> snd (heap_build ctors i as h) a = h a"
  by (induction as arbitrary: i h) (auto split: option.split)

lemma heap_build_all:
  "distinct as \<Longrightarrow> fst (heap_build ctors i as h) \<Longrightarrow> j < length as \<Longrightarrow>
     ctors (i + j) \<noteq> None \<and> snd (heap_build ctors i as h) (as ! j) = ctors (i + j)"
proof (induction as arbitrary: i j h)
  case (Cons a as)
  from Cons.prems(2) obtain v where v: "ctors i = Some v" by (cases "ctors i") auto
  show ?case
  proof (cases j)
    case 0
    with v Cons.prems(1) show ?thesis by (simp add: heap_build_other)
  next
    case (Suc j')
    have "distinct as" "fst (heap_build ctors (i + 1) as (h(a := Some v)))" "j' < length as"
      using Cons.prems v Suc by simp_all
    note ih = Cons.IH [OF this]
    have "snd (heap_build ctors i (a # as) h) ((a # as) ! j) =
        snd (heap_build ctors (i + 1) as (h(a := Some v))) (as ! j')"
      using v Suc by simp
    with ih Suc show ?thesis by (simp only:) simp
  qed
qed simp

lemma destroy_objects_spec:
  "distinct as \<Longrightarrow> (\<And>a. a \<in> set as \<Longrightarrow> h a \<noteq> None) \<Longrightarrow>
     destroy_objects (map Some as) h = Inr (heap_clear (set as) h)"
proof (induction as arbitrary: h)
  case (Cons a as)
  have "destroy_objects (map Some as) (h(a := None)) = Inr (heap_clear (set as) (h(a := None)))"
    using Cons.prems by (intro Cons.IH) auto
  moreover have "heap_clear (set as) (h(a := None)) = heap_clear (set (a # as)) h"
    by (auto simp: heap_clear_def fun_eq_iff)
  ultimately show ?case using Cons.prems by simp
qed (simp add: heap_clear_def)

text \<open>The two branches of the copy out of the ring yield the first free nodes.\<close>

lemma copy_out_spec:
  assumes shape: "pool_shape P" and num: "num \<le> pl_count P" and out: "unat num \<le> length out"
  shows "(if pl_head P + num \<le> pl_size P
      then copy_range out 0 (pl_avail P) (unat (pl_head P)) (unat num)
      else let firstPart = pl_size P - pl_head P
        in res_bind (copy_range out 0 (pl_avail P) (unat (pl_head P)) (unat firstPart))
             (\<lambda>out'. copy_range out' (unat firstPart) (pl_avail P) 0 (unat (num - firstPart)))) =
    Inr (map Some (take (unat num) (pool_free P)) @ drop (unat num) out)"
proof -
  note s = pool_shapeD [OF shape]
  let ?h = "unat (pl_head P)" and ?n = "unat num" and ?z = "unat (pl_size P)"
  have n: "?n \<le> unat (pl_count P)" using num by (simp add: word_le_nat_alt)
  have hn: "unat (pl_head P + num) = ?h + ?n"
    using count_words(2) [OF shape] n by (intro unat_plus_bounded) simp
  have list: "take ?n (pool_free P) = ring_list (pl_avail P) ?h ?n"
    unfolding pool_free_def using n by (rule ring_list_take)
  show ?thesis
  proof (cases "?h + ?n \<le> ?z")
    case True
    then have "pl_head P + num \<le> pl_size P" by (simp only: word_le_nat_alt hn)
    moreover have "map Some (take ?n (pool_free P)) = take ?n (drop ?h (pl_avail P))"
      unfolding list using True s(2) by (intro ring_list_straight [OF s(5)]) simp
    ultimately show ?thesis using True out s(2) by (simp add: copy_range_spec)
  next
    case False
    moreover have "pl_head P + num \<le> pl_size P \<longleftrightarrow> ?h + ?n \<le> ?z" by (simp only: word_le_nat_alt hn)
    ultimately have not: "\<not> pl_head P + num \<le> pl_size P" by blast
    have f: "unat (pl_size P - pl_head P) = ?z - ?h" using s(3) by (intro unat_minus_bounded) simp
    have fn: "?z - ?h \<le> ?n" using False by linarith
    have r: "unat (num - (pl_size P - pl_head P)) = ?n - (?z - ?h)"
      using fn f by (subst unat_minus_bounded) simp_all
    have ring: "map Some (take ?n (pool_free P)) =
        drop ?h (pl_avail P) @ take (?n - (?z - ?h)) (pl_avail P)"
      unfolding list using ring_list_wrapped [OF s(5), of ?h ?n] False s(2,3,4) n by simp
    have "copy_range out 0 (pl_avail P) ?h (?z - ?h) =
        Inr (drop ?h (pl_avail P) @ drop (?z - ?h) out)"
      using out fn s(2,3) by (simp add: copy_range_spec)
    moreover have "copy_range (drop ?h (pl_avail P) @ drop (?z - ?h) out) (?z - ?h) (pl_avail P) 0 (?n - (?z - ?h)) =
        Inr (drop ?h (pl_avail P) @ take (?n - (?z - ?h)) (pl_avail P) @ drop ?n out)"
      using out fn s(2,3,4) n by (subst copy_range_spec) simp_all
    ultimately show ?thesis using not by (simp add: Let_def f r ring)
  qed
qed

lemma pool_copy_out_spec:
  assumes shape: "pool_shape P" and out: "unat (min max_count (pl_count P)) \<le> length out"
  defines "num \<equiv> min max_count (pl_count P)"
  shows "pool_copy_out out max_count P =
    Inr (num, map Some (take (unat num) (pool_free P)) @ drop (unat num) out, pool_drop num P)"
proof (cases "num = 0")
  case True
  have "pool_drop 0 P = P"
  proof -
    note s = pool_shapeD [OF shape]
    have "unat (pl_head P AND (pl_size P - 1)) = unat (pl_head P)"
      unfolding unat_and_mask [OF s(1)] using s(3) by simp
    then have "pl_head P AND (pl_size P - 1) = pl_head P" by (rule unsigned_word_eqI)
    then show ?thesis by (simp add: pool_drop_def)
  qed
  with True show ?thesis unfolding pool_copy_out_def by (simp add: Let_def num_def [symmetric])
next
  case False
  have num: "num \<le> pl_count P" by (simp add: num_def)
  from copy_out_spec [OF shape num] out False show ?thesis
    unfolding pool_copy_out_def num_def [symmetric]
    by (simp add: Let_def num_def [symmetric] pool_drop_def)
qed

lemma pool_acquire_batch_spec:
  assumes inv: "pool_inv P h" and out: "unat (min max_count (pl_count P)) \<le> length out"
  defines "num \<equiv> min max_count (pl_count P)"
  defines "as \<equiv> take (unat num) (pool_free P)"
  shows "pool_acquire_batch ctors out max_count P h =
    Inr (if fst (heap_build ctors 0 as h) then Returned num else Threw,
         map Some as @ drop (unat num) out, pool_drop num P, snd (heap_build ctors 0 as h))"
proof -
  note shape = pool_invD(1) [OF inv]
  have free: "distinct as" "\<And>a. a \<in> set as \<Longrightarrow> h a = None"
    using pool_shapeD(6) [OF shape] pool_invD(2) [OF inv] unfolding as_def
    by (auto dest: in_set_takeD)
  have "num \<le> pl_count P" by (simp add: num_def)
  then have len: "length as = unat num" by (simp add: as_def word_le_nat_alt)
  with pool_copy_out_spec [OF shape out] build_objects_spec [OF free] show ?thesis
    unfolding pool_acquire_batch_def num_def [symmetric] as_def [symmetric]
    by (simp split: prod.split)
qed

text \<open>A ring with a range of it overwritten.\<close>

definition ring_written :: "'x list \<Rightarrow> nat \<Rightarrow> 'x list \<Rightarrow> nat \<Rightarrow> 'x list \<Rightarrow> bool" where
  "ring_written b t xs n b' \<longleftrightarrow> length b' = length b \<and>
     (\<forall>i<n. b' ! ((t + i) mod length b) = xs ! i) \<and>
     (\<forall>q<length b. (\<forall>i<n. (t + i) mod length b \<noteq> q) \<longrightarrow> b' ! q = b ! q)"

lemma ring_written_straight:
  assumes "t + n \<le> length b" and "n \<le> length xs" and "t < length b"
  shows "ring_written b t xs n (take t b @ take n xs @ drop (t + n) b)"
  unfolding ring_written_def
proof (intro conjI allI impI)
  show "length (take t b @ take n xs @ drop (t + n) b) = length b" using assms by simp
  fix i assume "i < n"
  with assms show "(take t b @ take n xs @ drop (t + n) b) ! ((t + i) mod length b) = xs ! i"
    by (simp add: nth_append)
next
  fix q assume q: "q < length b" "\<forall>i<n. (t + i) mod length b \<noteq> q"
  have "q < t \<or> t + n \<le> q"
  proof (rule ccontr)
    assume "\<not> ?thesis"
    with q(1) have "q - t < n" "(t + (q - t)) mod length b = q" by auto
    with q(2) show False by blast
  qed
  with q(1) assms show "(take t b @ take n xs @ drop (t + n) b) ! q = b ! q"
    by (auto simp: nth_append)
qed

lemma nth_overwrite:
  "n = length xs \<Longrightarrow> n \<le> k \<Longrightarrow> k < length ys \<Longrightarrow> (xs @ drop n ys) ! k = ys ! k"
  by (simp add: nth_append)

lemma ring_written_wrapped:
  assumes "length b < t + n" and "n \<le> length xs" and "t < length b" and "n \<le> length b"
  defines "f \<equiv> length b - t"
  shows "ring_written b t xs n
    (take (n - f) (drop f xs) @ drop (n - f) (take t b @ take f xs))"
  unfolding ring_written_def
proof (intro conjI allI impI)
  let ?hi = "take t b @ take f xs" and ?lo = "take (n - f) (drop f xs)"
  have f: "t + f = length b" "f \<le> n" "n - f \<le> t" using assms(1,3,4) unfolding f_def by simp_all
  have len: "n - f = length ?lo" "length ?hi = length b" using f assms(2,3) by simp_all
  show "length (?lo @ drop (n - f) ?hi) = length b" using f len by simp
  fix i assume i: "i < n"
  show "(?lo @ drop (n - f) ?hi) ! ((t + i) mod length b) = xs ! i"
  proof (cases "i < f")
    case True
    then have "(t + i) mod length b = t + i" using f(1) by simp
    moreover have "(?lo @ drop (n - f) ?hi) ! (t + i) = ?hi ! (t + i)"
      using len f True by (intro nth_overwrite) linarith+
    moreover have "?hi ! (t + i) = xs ! i" using True assms(3) by (simp add: nth_append)
    ultimately show ?thesis by simp
  next
    case False
    then have "t + i = i - f + length b" using f(1) by linarith
    moreover have "i - f < length b" using i assms(4) by linarith
    ultimately have "(t + i) mod length b = i - f" by (simp only: mod_add_self2 mod_less)
    moreover have "i - f < n - f" "f + (i - f) = i" using False i by linarith+
    ultimately show ?thesis using assms(2) f(2) by (simp add: nth_append)
  qed
next
  let ?hi = "take t b @ take f xs" and ?lo = "take (n - f) (drop f xs)"
  have f: "t + f = length b" "f \<le> n" "n - f \<le> t" using assms(1,3,4) unfolding f_def by simp_all
  have len: "n - f = length ?lo" "length ?hi = length b" using f assms(2,3) by simp_all
  fix q assume q: "q < length b" "\<forall>i<n. (t + i) mod length b \<noteq> q"
  have "n - f \<le> q"
  proof (rule ccontr)
    assume "\<not> ?thesis"
    then have "f + q < n" by linarith
    moreover have "(t + (f + q)) mod length b = q" using q(1) by (simp add: add.assoc [symmetric] f(1))
    ultimately show False using q(2) by blast
  qed
  moreover have "q < t"
  proof (rule ccontr)
    assume "\<not> ?thesis"
    with q(1) assms(1) have "q - t < n" "(t + (q - t)) mod length b = q" by auto
    with q(2) show False by blast
  qed
  moreover have "?hi ! q = b ! q" using \<open>q < t\<close> q(1) by (simp add: nth_append)
  ultimately show "(?lo @ drop (n - f) ?hi) ! q = b ! q"
    using nth_overwrite [OF len(1), of q ?hi] len(2) q(1) by simp
qed

lemma ring_written_list:
  assumes "ring_written b ((h + c) mod length b) (map Some as) (length as) b'"
    and "c + length as \<le> length b" and "0 < length b"
  shows "ring_list b' h (c + length as) = ring_list b h c @ as"
proof (rule nth_equalityI)
  let ?z = "length b"
  note wr = assms(1) [unfolded ring_written_def]
  have w1: "length b' = ?z" using wr by blast
  have w2: "b' ! (((h + c) mod ?z + i) mod ?z) = Some (as ! i)" if "i < length as" for i
  proof -
    have "b' ! (((h + c) mod ?z + i) mod ?z) = map Some as ! i" using wr that by blast
    then show ?thesis by (simp only: nth_map [OF that])
  qed
  have w3: "b' ! q = b ! q" if "q < ?z" "\<And>i. i < length as \<Longrightarrow> ((h + c) mod ?z + i) mod ?z \<noteq> q" for q
    using wr that by blast
  fix j assume "j < length (ring_list b' h (c + length as))"
  then have j: "j < c + length as" by simp
  show "ring_list b' h (c + length as) ! j = (ring_list b h c @ as) ! j"
  proof (cases "j < c")
    case True
    have "b' ! ((h + j) mod ?z) = b ! ((h + j) mod ?z)"
    proof (rule w3)
      show "(h + j) mod ?z < ?z" using assms(3) by simp
      fix i assume i: "i < length as"
      show "((h + c) mod ?z + i) mod ?z \<noteq> (h + j) mod ?z"
      proof
        assume "((h + c) mod ?z + i) mod ?z = (h + j) mod ?z"
        then have "(h + (c + i)) mod ?z = (h + j) mod ?z" by (simp only: mod_add_left_eq add.assoc)
        moreover have "c + i < ?z" "j < ?z" using i True assms(2) by linarith+
        ultimately have "c + i = j" by (rule ring_index_inj)
        with True show False by simp
      qed
    qed
    with True j w1 show ?thesis by (simp add: nth_ring_list nth_append)
  next
    case False
    then have cj: "c + (j - c) = j" "j - c < length as" using j by linarith+
    have "b' ! ((h + j) mod ?z) = Some (as ! (j - c))"
      using w2 [OF cj(2)] by (simp only: mod_add_left_eq add.assoc cj(1))
    with False j w1 show ?thesis by (simp add: nth_ring_list nth_append)
  qed
qed simp

lemma ring_written_some:
  assumes "ring_written b t (map Some as) (length as) b'" and "None \<notin> set b"
  shows "None \<notin> set b'"
proof
  assume "None \<in> set b'"
  with assms(1) obtain q where q: "q < length b" "b' ! q = None"
    by (auto simp: in_set_conv_nth ring_written_def)
  show False
  proof (cases "\<exists>i<length as. (t + i) mod length b = q")
    case True
    with assms(1) q(2) show False by (auto simp: ring_written_def)
  next
    case False
    with assms(1) q have "b ! q = None" by (auto simp: ring_written_def)
    with assms(2) q(1) show False by (metis nth_mem)
  qed
qed

lemma copy_in_spec:
  assumes shape: "pool_shape P" and n: "unat num \<le> unat (pl_size P)" "unat num \<le> length items"
    and t: "unat tail < unat (pl_size P)"
  shows "\<exists>av. (if tail + num \<le> pl_size P
      then copy_range (pl_avail P) (unat tail) items 0 (unat num)
      else let firstPart = pl_size P - tail
        in res_bind (copy_range (pl_avail P) (unat tail) items 0 (unat firstPart))
             (\<lambda>av. copy_range av 0 items (unat firstPart) (unat (num - firstPart)))) = Inr av \<and>
    ring_written (pl_avail P) (unat tail) items (unat num) av"
proof -
  note s = pool_shapeD [OF shape]
  let ?t = "unat tail" and ?n = "unat num" and ?z = "unat (pl_size P)"
  have "?t + ?n < 2 ^ 64" using t n(1) pow2_size_max [OF s(1)] by simp
  then have "unat (tail + num) = ?t + ?n" by (rule unat_plus_bounded)
  then have le: "tail + num \<le> pl_size P \<longleftrightarrow> ?t + ?n \<le> ?z" by (simp only: word_le_nat_alt)
  show ?thesis
  proof (cases "?t + ?n \<le> ?z")
    case True
    with le have "tail + num \<le> pl_size P" by blast
    with True n(2) t s(2) ring_written_straight [of ?t ?n "pl_avail P" items] show ?thesis
      by (simp add: copy_range_spec)
  next
    case False
    with le have not: "\<not> tail + num \<le> pl_size P" by blast
    have f: "unat (pl_size P - tail) = ?z - ?t" using t by (intro unat_minus_bounded) simp
    have fn: "?z - ?t \<le> ?n" using False by linarith
    have r: "unat (num - (pl_size P - tail)) = ?n - (?z - ?t)"
      using fn f by (subst unat_minus_bounded) simp_all
    have "copy_range (pl_avail P) ?t items 0 (?z - ?t) =
        Inr (take ?t (pl_avail P) @ take (?z - ?t) items)"
      using t fn n(2) s(2) by (simp add: copy_range_spec)
    moreover have "copy_range (take ?t (pl_avail P) @ take (?z - ?t) items) 0 items (?z - ?t) (?n - (?z - ?t)) =
        Inr (take (?n - (?z - ?t)) (drop (?z - ?t) items) @
             drop (?n - (?z - ?t)) (take ?t (pl_avail P) @ take (?z - ?t) items))"
      using t fn n s(2) by (subst copy_range_spec) simp_all
    moreover have "ring_written (pl_avail P) ?t items ?n
        (take (?n - (?z - ?t)) (drop (?z - ?t) items) @
         drop (?n - (?z - ?t)) (take ?t (pl_avail P) @ take (?z - ?t) items))"
      using ring_written_wrapped [of "pl_avail P" ?t ?n items] False n t s(2) by simp
    ultimately show ?thesis using not by (simp add: Let_def f r)
  qed
qed

lemma pool_copy_in_spec:
  assumes shape: "pool_shape P" and items: "take (unat num) items = map Some as" "unat num = length as"
    and as: "distinct as" "set as \<subseteq> pool_nodes P" "set as \<inter> set (pool_free P) = {}"
  shows "\<exists>Q. pool_copy_in items num P = Inr Q \<and> pool_shape Q \<and> pool_free Q = pool_free P @ as \<and>
    pool_nodes Q = pool_nodes P"
proof -
  note s = pool_shapeD [OF shape] and room = pool_room [OF shape as(2,1,3)]
  have len: "unat num \<le> length items" using items by (metis length_map length_take min.absorb_iff2 min.commute order_refl)
  let ?t = "(pl_head P + pl_count P) AND (pl_size P - 1)"
  have "unat num \<le> unat (pl_size P)" using room items(2) by linarith
  from copy_in_spec [OF shape this len pool_tail(2) [OF shape]] obtain av where
    av: "(if ?t + num \<le> pl_size P
      then copy_range (pl_avail P) (unat ?t) items 0 (unat num)
      else let firstPart = pl_size P - ?t
        in res_bind (copy_range (pl_avail P) (unat ?t) items 0 (unat firstPart))
             (\<lambda>av. copy_range av 0 items (unat firstPart) (unat (num - firstPart)))) = Inr av"
    and wr: "ring_written (pl_avail P) (unat ?t) items (unat num) av" by blast
  have wr': "ring_written (pl_avail P) (unat ?t) (map Some as) (length as) av"
  proof -
    have "items ! i = map Some as ! i" if "i < unat num" for i
      using items(1) that by (metis nth_take)
    with wr show ?thesis by (simp add: ring_written_def items(2))
  qed
  have "ring_written (pl_avail P) ((unat (pl_head P) + unat (pl_count P)) mod length (pl_avail P))
      (map Some as) (length as) av"
    using wr' pool_tail(1) [OF shape] s(2) by simp
  from ring_written_list [OF this] room s(2) pow2_size_pos [OF s(1)]
  have ring: "ring_list av (unat (pl_head P)) (unat (pl_count P) + length as) = pool_free P @ as"
    by (simp add: pool_free_def)
  have lav: "length av = length (pl_avail P)" using wr by (simp add: ring_written_def)
  let ?Q = "P\<lparr>pl_avail := av, pl_count := pl_count P + num\<rparr>"
  from pool_append_spec [OF shape as(2,1,3) lav ring_written_some [OF wr' s(5)] ring items(2)] av
  show ?thesis by (simp add: pool_copy_in_def Let_def)
qed

lemma pool_release_batch_spec:
  assumes inv: "pool_inv P h" and items: "take (unat num) items = map Some as" "unat num = length as"
    and as: "distinct as" "set as \<subseteq> pool_nodes P" "\<And>a. a \<in> set as \<Longrightarrow> h a \<noteq> None"
  shows "\<exists>Q. pool_release_batch items num P h = Inr (Q, heap_clear (set as) h) \<and>
    pool_inv Q (heap_clear (set as) h) \<and> pool_free Q = pool_free P @ as \<and> pool_nodes Q = pool_nodes P"
proof (cases "num = 0")
  case True
  with items have "as = []" by simp
  moreover have "heap_clear {} h = h" by (simp add: heap_clear_def)
  ultimately show ?thesis using True inv by (simp add: pool_release_batch_def)
next
  case False
  have len: "unat num \<le> length items" using items by (metis length_map length_take min.absorb_iff2 min.commute order_refl)
  have disj: "set as \<inter> set (pool_free P) = {}" using as(3) pool_invD(2) [OF inv] by fastforce
  from pool_copy_in_spec [OF pool_invD(1) [OF inv] items as(1,2) disj] obtain Q where
    Q: "pool_copy_in items num P = Inr Q" "pool_shape Q" "pool_free Q = pool_free P @ as"
      "pool_nodes Q = pool_nodes P" by (elim exE conjE) (rule that)
  have "pool_inv Q (heap_clear (set as) h)"
    unfolding pool_inv_def Q(3) using Q(2) pool_invD(2) [OF inv] by (auto simp: heap_clear_def)
  with False len Q destroy_objects_spec [OF as(1,3)] show ?thesis
    by (simp add: pool_release_batch_def items(1))
qed

lemma pool_acquired_inv:
  assumes "pool_inv P h" and "num \<le> pl_count P"
  shows "pool_inv (pool_drop num P) (snd (heap_build ctors i (take (unat num) (pool_free P)) h))"
    "pool_free (pool_drop num P) = drop (unat num) (pool_free P)"
proof -
  note shape = pool_invD(1) [OF assms(1)]
  note drop = pool_drop_spec [OF shape assms(2)]
  show free: "pool_free (pool_drop num P) = drop (unat num) (pool_free P)" by (rule drop)
  have "snd (heap_build ctors i (take (unat num) (pool_free P)) h) a = None"
    if "a \<in> set (drop (unat num) (pool_free P))" for a
  proof -
    have "a \<notin> set (take (unat num) (pool_free P))"
      using that pool_shapeD(6) [OF shape] set_take_disj_set_drop_if_distinct by blast
    then show ?thesis
      using pool_invD(2) [OF assms(1)] that by (simp add: heap_build_other in_set_dropD)
  qed
  with drop(1) show "pool_inv (pool_drop num P) (snd (heap_build ctors i (take (unat num) (pool_free P)) h))"
    by (simp add: pool_inv_def free)
qed

text \<open>Single operations in a loop.\<close>

fun acquire_loop ::
  "(nat \<Rightarrow> 'a option) \<Rightarrow> nat \<Rightarrow> nat \<Rightarrow> pool \<Rightarrow> 'a heap \<Rightarrow> fault + ptr list \<times> pool \<times> 'a heap" where
  "acquire_loop ctors i 0 P h = Inr ([], P, h)"
| "acquire_loop ctors i (Suc n) P h =
     res_bind (pool_acquire (ctors i) P h) (\<lambda>(r, P', h').
       if r = Threw \<or> r = Returned None then Inr ([], P', h')
       else res_bind (acquire_loop ctors (i + 1) n P' h') (\<lambda>(ps, Q, h'').
              Inr ((case r of Returned p \<Rightarrow> p # ps | Threw \<Rightarrow> ps), Q, h'')))"

fun release_loop :: "ptr list \<Rightarrow> pool \<Rightarrow> 'a heap \<Rightarrow> fault + pool \<times> 'a heap" where
  "release_loop [] P h = Inr (P, h)"
| "release_loop (p # ps) P h = res_bind (pool_release p P h) (\<lambda>(P', h'). release_loop ps P' h')"

lemma acquire_loop_spec:
  assumes "pool_inv P h" and "\<And>i. ctors i \<noteq> None" and "n \<le> length (pool_free P)"
  shows "\<exists>Q. acquire_loop ctors i n P h =
      Inr (map Some (take n (pool_free P)), Q, snd (heap_build ctors i (take n (pool_free P)) h)) \<and>
    pool_free Q = drop n (pool_free P)"
  using assms(1,3)
proof (induction n arbitrary: i P h)
  case (Suc n)
  from Suc.prems(2) obtain a as where free: "pool_free P = a # as" by (cases "pool_free P") auto
  from assms(2) [of i] obtain v where v: "ctors i = Some v" by blast
  have "pl_count P \<noteq> 0" using count_words(1) [OF pool_invD(1) [OF Suc.prems(1)]] free by simp
  then have one: "1 \<le> pl_count P" by (simp add: word_le_nat_alt Suc_le_eq unat_gt_0)
  have "pool_inv (pool_drop 1 P) (snd (heap_build ctors i (take (unat (1 :: size_t)) (pool_free P)) h))"
    "pool_free (pool_drop 1 P) = as"
    using pool_acquired_inv(1) [OF Suc.prems(1) one, where ctors = ctors and i = i]
      pool_acquired_inv(2) [OF Suc.prems(1) one] free by simp_all
  then have inv: "pool_inv (pool_drop 1 P) (h(a := Some v))" and as: "pool_free (pool_drop 1 P) = as"
    using free v by simp_all
  have "n \<le> length (pool_free (pool_drop 1 P))" using Suc.prems(2) free as by simp
  from Suc.IH [OF inv this, of "i + 1"] obtain Q where
    "acquire_loop ctors (i + 1) n (pool_drop 1 P) (h(a := Some v)) =
       Inr (map Some (take n as), Q, snd (heap_build ctors (i + 1) (take n as) (h(a := Some v))))"
    "pool_free Q = drop n as" unfolding as by (elim exE conjE) (rule that)
  then show ?case using pool_acquire_spec [OF Suc.prems(1), of "Some v"] free v by simp
qed simp

lemma release_loop_spec:
  assumes "pool_inv P h" and "distinct as" and "set as \<subseteq> pool_nodes P" and "\<And>a. a \<in> set as \<Longrightarrow> h a \<noteq> None"
  shows "\<exists>Q. release_loop (map Some as) P h = Inr (Q, heap_clear (set as) h) \<and>
    pool_free Q = pool_free P @ as"
  using assms
proof (induction as arbitrary: P h)
  case Nil
  then show ?case by (simp add: heap_clear_def)
next
  case (Cons a as)
  have "a \<in> pool_nodes P" "h a \<noteq> None" using Cons.prems by simp_all
  from pool_release_spec [OF Cons.prems(1) this] obtain P' where
    P': "pool_release (Some a) P h = Inr (P', h(a := None))" "pool_inv P' (h(a := None))"
      "pool_free P' = pool_free P @ [a]" "pool_nodes P' = pool_nodes P" by blast
  have "distinct as" "set as \<subseteq> pool_nodes P'" "\<And>b. b \<in> set as \<Longrightarrow> (h(a := None)) b \<noteq> None"
    using Cons.prems P'(4) by auto
  from Cons.IH [OF P'(2) this] obtain Q where
    Q: "release_loop (map Some as) P' (h(a := None)) = Inr (Q, heap_clear (set as) (h(a := None)))"
      "pool_free Q = pool_free P' @ as" by blast
  have "heap_clear (set as) (h(a := None)) = heap_clear (set (a # as)) h"
    by (auto simp: heap_clear_def fun_eq_iff)
  with P' Q show ?case by simp
qed

section \<open>Properties\<close>

text \<open>
  C29: The requested size is rounded up to the smallest power of two that is at least as
  large, for every size up to \<open>2^63\<close>; beyond, the shift is by the width of the type, which
  is undefined.
\<close>

theorem pool_size_rounds_up:
  "if unat v \<le> 2 ^ 63
   then \<exists>sz. round_up_pow2 v = Inr sz \<and> pow2_size sz \<and> unat v \<le> unat sz \<and> unat sz < 2 * max 1 (unat v)
   else round_up_pow2 v = Inl ShiftOverflow"
  by (rule round_up_spec)

text \<open>
  C27: The pool is a first-in first-out list of its free nodes. A new pool has all its nodes
  free; \<open>acquire\<close> takes the first free node and builds the object in it, or returns null
  if there is none; \<open>release\<close> destroys the object and puts its node last.
\<close>

theorem pool_is_free_list:
  assumes "pool_inv P h"
  shows "(pool_free P = [] \<longrightarrow> pool_acquire ctor P h = Inr (Returned None, P, h)) \<and>
    (\<forall>a as v. pool_free P = a # as \<and> ctor = Some v \<longrightarrow>
       (\<exists>Q. pool_acquire ctor P h = Inr (Returned (Some a), Q, h(a := Some v)) \<and>
          pool_inv Q (h(a := Some v)) \<and> pool_free Q = as)) \<and>
    (\<forall>a\<in>pool_nodes P. h a \<noteq> None \<longrightarrow>
       (\<exists>Q. pool_release (Some a) P h = Inr (Q, h(a := None)) \<and> pool_inv Q (h(a := None)) \<and>
          pool_free Q = pool_free P @ [a]))"
proof (intro conjI allI impI ballI)
  assume "pool_free P = []"
  then show "pool_acquire ctor P h = Inr (Returned None, P, h)"
    using pool_acquire_spec [OF assms] by simp
next
  fix a as v assume free: "pool_free P = a # as \<and> ctor = Some v"
  then have "pl_count P \<noteq> 0" using count_words(1) [OF pool_invD(1) [OF assms]] by simp
  then have one: "1 \<le> pl_count P" by (simp add: word_le_nat_alt Suc_le_eq unat_gt_0)
  have "pool_inv (pool_drop 1 P) (h(a := Some v))" "pool_free (pool_drop 1 P) = as"
    using pool_acquired_inv(1) [OF assms one, where ctors = "\<lambda>_. Some v" and i = 0]
      pool_acquired_inv(2) [OF assms one] free by simp_all
  with pool_acquire_spec [OF assms, of ctor] free
  show "\<exists>Q. pool_acquire ctor P h = Inr (Returned (Some a), Q, h(a := Some v)) \<and>
      pool_inv Q (h(a := Some v)) \<and> pool_free Q = as" by simp
next
  fix a assume "a \<in> pool_nodes P" "h a \<noteq> None"
  from pool_release_spec [OF assms this]
  show "\<exists>Q. pool_release (Some a) P h = Inr (Q, h(a := None)) \<and> pool_inv Q (h(a := None)) \<and>
      pool_free Q = pool_free P @ [a]" by blast
qed

text \<open>A pool of four nodes.\<close>

definition pool_four :: pool where
  "pool_four = \<lparr>pl_block = 1, pl_size = 4, pl_avail = map (\<lambda>i. Some (1, i)) [0..<4], pl_head = 0, pl_count = 4\<rparr>"

lemma round_up_three: "round_up_pow2 3 = Inr 4"
proof -
  have zero: "bit_length 0 = 0" by (subst bit_length.simps) simp
  have one: "bit_length (Suc 0) = 1" by (subst bit_length.simps) (simp add: zero)
  have "bit_length 2 = 2" by (subst bit_length.simps) (simp add: one)
  moreover have "\<not> (3 :: size_t) \<le> 1" by (simp add: word_le_nat_alt)
  ultimately show ?thesis by (simp add: round_up_pow2_def clzll_def push_bit_eq_mult)
qed

lemma pool_four_new: "pool_new 1 3 = Inr pool_four"
  by (simp add: round_up_three pool_new_def pool_four_def)

lemma pool_four_inv: "pool_inv pool_four (\<lambda>_. None)" "pool_free pool_four = [(1, 0), (1, 1), (1, 2), (1, 3)]"
proof -
  show free: "pool_free pool_four = [(1, 0), (1, 1), (1, 2), (1, 3)]"
    by (simp add: pool_free_def pool_four_def ring_list_def upt_rec)
  show "pool_inv pool_four (\<lambda>_. None)"
    using pool_new_spec(1) [OF pool_four_new] by (simp add: pool_inv_def)
qed

theorem pool_is_free_list_witness:
  "\<exists>Q. pool_acquire (Some (5 :: nat)) pool_four (\<lambda>_. None) =
     Inr (Returned (Some (1, 0)), Q, (\<lambda>_. None)((1, 0) := Some 5)) \<and>
     pool_free Q = [(1, 1), (1, 2), (1, 3)]"
  using pool_is_free_list [OF pool_four_inv(1), of "Some 5"] pool_four_inv(2) by blast

text \<open>
  C28: A batch is a loop of single operations, with the wrapped copies out of and into the
  ring: it yields the same pointers in the same order, the same free list and the same
  objects.
\<close>

theorem pool_batches_are_loops:
  assumes "pool_inv P h"
  shows "(\<forall>ctors out max_count. (\<forall>i. ctors i \<noteq> None) \<and> unat (min max_count (pl_count P)) \<le> length out \<longrightarrow>
       (\<exists>ps Q Q' h'. pool_acquire_batch ctors out max_count P h =
            Inr (Returned (min max_count (pl_count P)), ps @ drop (length ps) out, Q, h') \<and>
          acquire_loop ctors 0 (unat (min max_count (pl_count P))) P h = Inr (ps, Q', h') \<and>
          length ps = unat (min max_count (pl_count P)) \<and>
          pool_free Q = pool_free Q' \<and> pool_inv Q h')) \<and>
    (\<forall>as items num. take (unat num) items = map Some as \<and> unat num = length as \<and> distinct as \<and>
         set as \<subseteq> pool_nodes P \<and> (\<forall>a\<in>set as. h a \<noteq> None) \<longrightarrow>
       (\<exists>Q Q' h'. pool_release_batch items num P h = Inr (Q, h') \<and>
          release_loop (map Some as) P h = Inr (Q', h') \<and>
          pool_free Q = pool_free Q' \<and> pool_inv Q h'))"
proof (intro conjI allI impI; elim conjE)
  fix ctors :: "nat \<Rightarrow> 'a option" and out :: "ptr list" and max_count
  let ?num = "min max_count (pl_count P)"
  let ?as = "take (unat ?num) (pool_free P)"
  assume c: "\<forall>i. ctors i \<noteq> None" and out: "unat ?num \<le> length out"
  have num: "?num \<le> pl_count P" by simp
  then have len: "length ?as = unat ?num" by (simp only: word_le_nat_alt length_take length_pool_free min_absorb2)
  have built: "fst (heap_build ctors i bs h)" for i bs h
    using c by (induction bs arbitrary: i h) (auto split: option.split)
  have "unat ?num \<le> length (pool_free P)" using len by (metis length_take min.cobounded1)
  from acquire_loop_spec [OF assms _ this, of ctors 0] c obtain Q' where
    "acquire_loop ctors 0 (unat ?num) P h = Inr (map Some ?as, Q', snd (heap_build ctors 0 ?as h))"
    "pool_free Q' = drop (unat ?num) (pool_free P)" by blast
  moreover have "pool_acquire_batch ctors out max_count P h =
      Inr (Returned ?num, map Some ?as @ drop (length (map Some ?as)) out, pool_drop ?num P,
        snd (heap_build ctors 0 ?as h))"
    using pool_acquire_batch_spec [OF assms out, of ctors] built len by simp
  moreover note pool_acquired_inv(1) [OF assms num, where ctors = ctors and i = 0]
    pool_acquired_inv(2) [OF assms num]
  moreover have "length (map Some ?as) = unat ?num" using len by simp
  ultimately show "\<exists>ps Q Q' h'. pool_acquire_batch ctors out max_count P h =
      Inr (Returned ?num, ps @ drop (length ps) out, Q, h') \<and>
    acquire_loop ctors 0 (unat ?num) P h = Inr (ps, Q', h') \<and>
    length ps = unat ?num \<and> pool_free Q = pool_free Q' \<and> pool_inv Q h'" by metis
next
  fix as items and num :: size_t
  assume a: "take (unat num) items = map Some as" "unat num = length as" "distinct as"
    "set as \<subseteq> pool_nodes P" "\<forall>a\<in>set as. h a \<noteq> None"
  then have alive: "\<And>a. a \<in> set as \<Longrightarrow> h a \<noteq> None" by blast
  from pool_release_batch_spec [OF assms a(1-4) alive] release_loop_spec [OF assms a(3,4) alive]
  show "\<exists>Q Q' h'. pool_release_batch items num P h = Inr (Q, h') \<and>
      release_loop (map Some as) P h = Inr (Q', h') \<and> pool_free Q = pool_free Q' \<and> pool_inv Q h'"
    by metis
qed

theorem pool_batches_are_loops_witness:
  "\<exists>ps Q h'. pool_acquire_batch (\<lambda>i. Some i) [None, None] 2 pool_four (\<lambda>_. None) =
       Inr (Returned 2, ps, Q, h') \<and> length ps = 2 \<and> pool_inv Q h'"
proof -
  have "min 2 (pl_count pool_four) = 2" by (simp add: pool_four_def min_def)
  with pool_batches_are_loops [OF pool_four_inv(1), THEN conjunct1, rule_format, of Some 2 "[None, None]"]
  show ?thesis by fastforce
qed

text \<open>
  A constructor that throws costs the pool a node: the exception leaves \<open>acquire\<close> after
  the node has been taken off the free list, with no object in it and no pointer handed out.
\<close>

lemma pool_throw_leaks:
  assumes "pool_inv P h" and "pool_free P = a # as"
  shows "\<exists>Q. pool_acquire None P h = Inr (Threw, Q, h) \<and> pool_inv Q h \<and> pool_free Q = as \<and>
    a \<notin> set (pool_free Q) \<and> h a = None"
proof -
  have "pl_count P \<noteq> 0" using count_words(1) [OF pool_invD(1) [OF assms(1)]] assms(2) by simp
  then have one: "1 \<le> pl_count P" by (simp add: word_le_nat_alt Suc_le_eq unat_gt_0)
  have "pool_inv (pool_drop 1 P) h" "pool_free (pool_drop 1 P) = as"
    using pool_acquired_inv(1) [OF assms(1) one, where ctors = "\<lambda>_. None" and i = 0]
      pool_acquired_inv(2) [OF assms(1) one] assms(2) by simp_all
  moreover have "a \<notin> set as" using pool_shapeD(6) [OF pool_invD(1) [OF assms(1)]] assms(2) by simp
  moreover have "h a = None" using pool_invD(2) [OF assms(1)] assms(2) by simp
  ultimately show ?thesis using pool_acquire_spec [OF assms(1), of None] assms(2) by simp
qed

lemma pool_throw_leaks_example:
  "\<exists>Q. pool_acquire None pool_four (\<lambda>_. None :: nat option) = Inr (Threw, Q, \<lambda>_. None) \<and>
     pool_free Q = [(1, 1), (1, 2), (1, 3)]"
  using pool_throw_leaks [OF pool_four_inv] by blast

end
