(* ===== verification/Places.thy ===== *)
theory Places
  imports ObjectPool
begin

text \<open>
  Where the nodes of a pool are: in its ring, with a thread (in a cache of \<open>ThreadCache\<close>, or
  on the way between the pool and a client in \<open>PoolConcurrent\<close>), or with the clients. The
  lemmas say which moves keep these places apart and lose nothing.
\<close>

text \<open>
  The free nodes of the pool, the nodes of each thread and the nodes of the clients are
  different from each other, and nodes of the pool; in the second definition they are all.
\<close>

definition places_ok :: "addr list \<Rightarrow> (nat \<Rightarrow> addr list) \<Rightarrow> addr set \<Rightarrow> addr set \<Rightarrow> bool" where
  "places_ok fr C out nodes \<longleftrightarrow>
     distinct fr \<and> (\<forall>t. distinct (C t)) \<and> (\<forall>t u. t \<noteq> u \<longrightarrow> set (C t) \<inter> set (C u) = {}) \<and>
     (\<forall>t. set (C t) \<inter> set fr = {} \<and> set (C t) \<inter> out = {} \<and> set (C t) \<subseteq> nodes) \<and>
     set fr \<inter> out = {} \<and> set fr \<subseteq> nodes \<and> out \<subseteq> nodes"

definition places_full :: "addr list \<Rightarrow> (nat \<Rightarrow> addr list) \<Rightarrow> addr set \<Rightarrow> addr set \<Rightarrow> bool" where
  "places_full fr C out nodes \<longleftrightarrow> nodes \<subseteq> set fr \<union> (\<Union>t. set (C t)) \<union> out"

text \<open>What the operations do to the places.\<close>

lemma places_refill:
  assumes "places_ok (xs @ fr) C out N" and "C t = []"
  shows "places_ok fr (C(t := xs)) out N"
  using assms unfolding places_ok_def by (auto simp: Int_commute Int_Un_distrib Int_Un_distrib2)

lemma places_split:
  assumes "places_ok fr C out N" and "C t = xs @ ys"
  shows "distinct xs" "distinct ys" "set xs \<inter> set ys = {}"
    "set xs \<inter> set fr = {}" "set ys \<inter> set fr = {}" "set xs \<inter> out = {}" "set ys \<inter> out = {}"
    "set xs \<subseteq> N" "set ys \<subseteq> N"
    "u \<noteq> t \<Longrightarrow> set xs \<inter> set (C u) = {}" "u \<noteq> t \<Longrightarrow> set ys \<inter> set (C u) = {}"
proof -
  have "distinct (C t)" "set (C t) \<inter> set fr = {}" "set (C t) \<inter> out = {}" "set (C t) \<subseteq> N"
    using assms(1) unfolding places_ok_def by blast+
  then show "distinct xs" "distinct ys" "set xs \<inter> set ys = {}"
    "set xs \<inter> set fr = {}" "set ys \<inter> set fr = {}" "set xs \<inter> out = {}" "set ys \<inter> out = {}"
    "set xs \<subseteq> N" "set ys \<subseteq> N" by (auto simp: assms(2))
  have "set (C t) \<inter> set (C u) = {}" if "u \<noteq> t" using assms(1) that unfolding places_ok_def by blast
  then show "u \<noteq> t \<Longrightarrow> set xs \<inter> set (C u) = {}" "u \<noteq> t \<Longrightarrow> set ys \<inter> set (C u) = {}"
    by (auto simp: assms(2))
qed

lemma places_okD:
  assumes "places_ok fr C out N"
  shows "distinct fr" "set fr \<inter> out = {}" "set fr \<subseteq> N" "out \<subseteq> N"
  using assms unfolding places_ok_def by blast+

lemma places_cacheD:
  assumes "places_ok fr C out N"
  shows "distinct (C t)" "set (C t) \<inter> set fr = {}" "set (C t) \<inter> out = {}" "set (C t) \<subseteq> N"
  using assms unfolding places_ok_def by blast+

lemma places_cachesD: "places_ok fr C out N \<Longrightarrow> t \<noteq> u \<Longrightarrow> set (C t) \<inter> set (C u) = {}"
  unfolding places_ok_def by blast

lemma places_okI:
  assumes "distinct fr" "set fr \<inter> out = {}" "set fr \<subseteq> N" "out \<subseteq> N" "places_ok fr' C out' N"
    and "distinct xs" "set xs \<inter> set fr = {}" "set xs \<inter> out = {}" "set xs \<subseteq> N"
    and "\<And>u. u \<noteq> t \<Longrightarrow> set (C u) \<inter> set fr = {} \<and> set (C u) \<inter> out = {} \<and> set xs \<inter> set (C u) = {}"
  shows "places_ok fr (C(t := xs)) out N"
  unfolding places_ok_def
proof (intro conjI allI impI)
  fix v u :: nat assume "v \<noteq> u"
  then show "set ((C(t := xs)) v) \<inter> set ((C(t := xs)) u) = {}"
    using assms(10) places_cachesD [OF assms(5), of v u] by (cases "v = t"; cases "u = t") auto
qed (use assms places_cacheD [OF assms(5)] in auto)

lemma places_hand_out:
  assumes "places_ok fr C out N" and "C t = xs @ [a]"
  shows "places_ok fr (C(t := xs)) (insert a out) N"
  by (rule places_okI [OF _ _ _ _ assms(1)])
     (use places_okD [OF assms(1)] places_cacheD [OF assms(1)] places_split [OF assms] in auto)

lemma places_take_back:
  assumes "places_ok fr C out N" and "a \<in> out"
  shows "places_ok fr (C(t := C t @ [a])) (out - {a}) N"
proof (rule places_okI [OF _ _ _ _ assms(1)])
  fix u assume "u \<noteq> t"
  then show "set (C u) \<inter> set fr = {} \<and> set (C u) \<inter> (out - {a}) = {} \<and> set (C t @ [a]) \<inter> set (C u) = {}"
    using places_cacheD [OF assms(1), of u] places_cachesD [OF assms(1), of t u] assms(2) by auto
qed (use places_okD [OF assms(1)] places_cacheD [OF assms(1), of t] assms(2) in auto)

lemma places_give_back:
  assumes "places_ok fr C out N" and "C t = xs @ ys"
  shows "places_ok (fr @ ys) (C(t := xs)) out N"
proof (rule places_okI [OF _ _ _ _ assms(1)])
  fix u assume u: "u \<noteq> t"
  show "set (C u) \<inter> set (fr @ ys) = {} \<and> set (C u) \<inter> out = {} \<and> set xs \<inter> set (C u) = {}"
    using places_cacheD [OF assms(1), of u] places_split(10,11) [OF assms u] by auto
qed (use places_okD [OF assms(1)] places_cacheD [OF assms(1)] places_split [OF assms] in auto)

lemma places_drop_cache: "places_ok fr C out N \<Longrightarrow> places_ok fr (C(t := [])) out N"
  unfolding places_ok_def by auto

lemma places_drop_free: "places_ok (xs @ fr) C out N \<Longrightarrow> places_ok fr C out N"
  unfolding places_ok_def by auto

text \<open>The same for several nodes at a time.\<close>

lemma places_hand_out_all:
  assumes "places_ok fr C out N"
  shows "places_ok fr (C(t := [])) (out \<union> set (C t)) N"
proof (rule places_okI [OF _ _ _ _ assms])
  fix u assume "u \<noteq> t"
  then show "set (C u) \<inter> set fr = {} \<and> set (C u) \<inter> (out \<union> set (C t)) = {} \<and> set [] \<inter> set (C u) = {}"
    using places_cacheD [OF assms, of u] places_cachesD [OF assms, of t u] by auto
qed (use places_okD [OF assms] places_cacheD [OF assms, of t] in auto)

lemma places_take_all:
  assumes "places_ok fr C out N" and "distinct xs" and "set xs \<subseteq> out"
  shows "places_ok fr (C(t := xs)) (out - set xs) N"
proof (rule places_okI [OF _ _ _ _ assms(1)])
  fix u assume "u \<noteq> t"
  then show "set (C u) \<inter> set fr = {} \<and> set (C u) \<inter> (out - set xs) = {} \<and> set xs \<inter> set (C u) = {}"
    using places_cacheD [OF assms(1), of u] assms(3) by auto
qed (use places_okD [OF assms(1)] assms(2,3) in auto)

lemma places_exchange:
  assumes "places_ok (xs @ fr) C out N"
  shows "places_ok (fr @ C t) (C(t := xs)) out N"
proof (rule places_okI [OF _ _ _ _ assms])
  fix u assume "u \<noteq> t"
  then show "set (C u) \<inter> set (fr @ C t) = {} \<and> set (C u) \<inter> out = {} \<and> set xs \<inter> set (C u) = {}"
    using places_cacheD [OF assms, of u] places_cachesD [OF assms, of t u] by auto
qed (use places_okD [OF assms] places_cacheD [OF assms, of t] in auto)

text \<open>No node is lost on the way.\<close>

lemma places_full_move:
  assumes "places_full fr C out N"
    and "set fr \<union> set (C t) \<union> out \<subseteq> set fr' \<union> set xs \<union> out'"
  shows "places_full fr' (C(t := xs)) out' N"
  unfolding places_full_def
proof
  fix a assume "a \<in> N"
  with assms(1) have "a \<in> set fr \<or> (\<exists>u. a \<in> set (C u)) \<or> a \<in> out" unfolding places_full_def by blast
  then consider "a \<in> set fr \<union> set (C t) \<union> out" | u where "u \<noteq> t" "a \<in> set (C u)" by (metis Un_iff)
  then show "a \<in> set fr' \<union> (\<Union>u. set ((C(t := xs)) u)) \<union> out'"
  proof cases
    case 1
    moreover have "set xs \<subseteq> (\<Union>u. set ((C(t := xs)) u))" by (metis UNIV_I UN_upper fun_upd_same)
    ultimately show ?thesis using assms(2) by blast
  next
    case (2 u)
    then have "a \<in> set ((C(t := xs)) u)" by simp
    then show ?thesis by blast
  qed
qed

text \<open>The last node of a cache goes to the client; and the same with a batch for an empty cache.\<close>

lemma places_pop_top:
  assumes "places_ok fr (C(t := xs)) out N"
  shows "places_ok fr (C(t := butlast xs)) (out \<union> (if xs = [] then {} else {last xs})) N"
proof (cases xs rule: rev_cases)
  case (snoc ys a)
  with places_hand_out [OF assms, of t ys a] show ?thesis by simp
qed (use assms in simp)

lemma places_full_pop_top:
  assumes "places_full fr (C(t := xs)) out N"
  shows "places_full fr (C(t := butlast xs)) (out \<union> (if xs = [] then {} else {last xs})) N"
proof -
  have "places_full fr ((C(t := xs))(t := butlast xs)) (out \<union> (if xs = [] then {} else {last xs})) N"
    by (rule places_full_move [OF assms]) (cases xs rule: rev_cases; auto)
  then show ?thesis by simp
qed

lemma places_refill_top:
  "places_ok (xs @ fr) C out N \<Longrightarrow> C t = [] \<Longrightarrow>
    places_ok fr (C(t := butlast xs)) (out \<union> (if xs = [] then {} else {last xs})) N"
  by (rule places_pop_top [OF places_refill])

lemma places_full_refill_top:
  assumes "places_full (xs @ fr) C out N" and "C t = []"
  shows "places_full fr (C(t := butlast xs)) (out \<union> (if xs = [] then {} else {last xs})) N"
  by (rule places_full_move [OF assms(1)]) (use assms(2) in \<open>cases xs rule: rev_cases; auto\<close>)

text \<open>Nodes that come and go: the set of all nodes changes with them.\<close>

lemma places_new:
  assumes "places_ok [] C out N" and "distinct xs" and "set xs \<inter> N = {}"
  shows "places_ok [] (C(t := xs)) out (N \<union> set xs)"
proof -
  have wide: "places_ok [] C out (N \<union> set xs)" using assms(1) unfolding places_ok_def by auto
  show ?thesis
  proof (rule places_okI [OF _ _ _ _ wide])
    fix u
    show "set (C u) \<inter> set [] = {} \<and> set (C u) \<inter> out = {} \<and> set xs \<inter> set (C u) = {}"
      using places_cacheD [OF assms(1), of u] assms(3) by auto
  qed (use places_okD [OF assms(1)] assms(2,3) in auto)
qed

lemma places_full_new:
  assumes "places_full [] C out N" and "C t = []"
  shows "places_full [] (C(t := xs)) out (N \<union> set xs)"
proof -
  have "places_full [] (C(t := xs)) out N" by (rule places_full_move [OF assms(1)]) (use assms(2) in auto)
  moreover have "set xs \<subseteq> (\<Union>u. set ((C(t := xs)) u))" by (metis UNIV_I UN_upper fun_upd_same)
  ultimately show ?thesis unfolding places_full_def by blast
qed

lemma places_retire:
  assumes "places_ok [] C out N" and "distinct zs" and "set zs \<subseteq> set (C t)" and "set ys \<subseteq> set (C t)"
    and "set zs \<inter> set ys = {}"
  shows "places_ok [] (C(t := zs)) out (N - set ys)"
  unfolding places_ok_def
proof (intro conjI allI impI)
  fix u v :: nat
  show "distinct ((C(t := zs)) u)" using places_cacheD(1) [OF assms(1), of u] assms(2) by simp
  show "set ((C(t := zs)) u) \<inter> set ((C(t := zs)) v) = {}" if "u \<noteq> v"
    using places_cachesD [OF assms(1) that] assms(3) that by (cases "u = t"; cases "v = t") auto
  show "set ((C(t := zs)) u) \<inter> out = {}"
    using places_cacheD(3) [OF assms(1), of u] places_cacheD(3) [OF assms(1), of t] assms(3) by auto
  show "set ((C(t := zs)) u) \<subseteq> N - set ys"
    using places_cacheD(4) [OF assms(1), of u] places_cachesD [OF assms(1), of t u] assms(3-5)
    by (cases "u = t") auto
qed (use places_okD [OF assms(1)] places_cacheD(3) [OF assms(1), of t] assms(4) in auto)

lemma places_full_retire:
  assumes "places_full [] C out N" and "set (C t) \<subseteq> set zs \<union> set ys"
  shows "places_full [] (C(t := zs)) out (N - set ys)"
  unfolding places_full_def
proof
  fix a assume a: "a \<in> N - set ys"
  with assms(1) have "(\<exists>u. a \<in> set (C u)) \<or> a \<in> out" unfolding places_full_def by auto
  then consider u where "u \<noteq> t" "a \<in> set (C u)" | "a \<in> set (C t)" | "a \<in> out" by metis
  then show "a \<in> set [] \<union> (\<Union>u. set ((C(t := zs)) u)) \<union> out"
  proof cases
    case 1
    then have "a \<in> set ((C(t := zs)) u)" by simp
    then show ?thesis by blast
  next
    case 2
    with assms(2) a have "a \<in> set ((C(t := zs)) t)" by auto
    then show ?thesis by blast
  qed simp
qed

text \<open>Two levels of places: the clients of the outer one are where the inner one is.\<close>

lemma places_compose:
  assumes "places_ok fr T out N" and "places_ok [] C out' out"
  shows "places_ok fr (\<lambda>t. C t @ T t) out' N"
  unfolding places_ok_def
proof (intro conjI allI impI)
  fix u v :: nat
  note T = places_cacheD [OF assms(1)] and C = places_cacheD [OF assms(2)]
  show "distinct (C u @ T u)" using T(1,3) [of u] C(1,4) [of u] by auto
  show "set (C u @ T u) \<inter> set (C v @ T v) = {}" if "u \<noteq> v"
    using places_cachesD [OF assms(1) that] places_cachesD [OF assms(2) that] T(3) [of u] T(3) [of v] C(4) [of u] C(4) [of v]
    by auto
  show "set (C u @ T u) \<inter> set fr = {}" using T(2) [of u] C(4) [of u] places_okD(2) [OF assms(1)] by auto
  show "set (C u @ T u) \<inter> out' = {}" using T(3) [of u] C(3) [of u] places_okD(4) [OF assms(2)] by auto
  show "set (C u @ T u) \<subseteq> N" using T(4) [of u] C(4) [of u] places_okD(4) [OF assms(1)] by auto
qed (use places_okD [OF assms(1)] places_okD [OF assms(2)] in auto)

lemma places_full_compose:
  "places_full fr T out N \<Longrightarrow> places_full [] C out' out \<Longrightarrow> places_full fr (\<lambda>t. C t @ T t) out' N"
  unfolding places_full_def by fastforce

end
