(* ===== verification/ThreadCache.thy ===== *)
theory ThreadCache
  imports Places
begin

text \<open>
  \<open>ThreadCachedObjectPool\<close> of include/sync_tools/object_pool.hpp: a pool with a cache of node
  pointers per thread. The cache is a \<open>thread_local\<close> of a static member function, so a thread
  has one for all the pools of the same type. Of the global pool the cache uses the two batch
  operations only; they are parameters of its operations, and their laws are a contract that
  \<open>ObjectPool\<close> meets.
\<close>

section \<open>The cache of a thread\<close>

text \<open>\<open>tc_slots\<close> is the array, with as many places as \<open>CacheFlushThreshold\<close> says.\<close>

record thread_cache =
  tc_slots :: "ptr list"
  tc_count :: size_t

definition fresh_cache :: "size_t \<Rightarrow> thread_cache" where
  "fresh_cache F = \<lparr>tc_slots = replicate (unat F) None, tc_count = 0\<rparr>"

type_synonym ('p, 'a) acquire_batch_op =
  "(nat \<Rightarrow> 'a option) \<Rightarrow> ptr list \<Rightarrow> size_t \<Rightarrow> 'p \<Rightarrow> 'a heap \<Rightarrow>
   fault + size_t outcome \<times> ptr list \<times> 'p \<times> 'a heap"

type_synonym ('p, 'a) release_batch_op =
  "ptr list \<Rightarrow> size_t \<Rightarrow> 'p \<Rightarrow> 'a heap \<Rightarrow> fault + 'p \<times> 'a heap"

text \<open>The end of \<open>acquire\<close>: take the pointer on top of the cache.\<close>

definition cache_take :: "thread_cache \<Rightarrow> fault + ptr \<times> thread_cache" where
  "cache_take c =
     (if 0 < tc_count c then
        (if length (tc_slots c) \<le> unat (tc_count c - 1) then Inl OutOfBounds
         else Inr (tc_slots c ! unat (tc_count c - 1), c\<lparr>tc_count := tc_count c - 1\<rparr>))
      else Inr (None, c))"

definition cache_acquire ::
  "('p, 'a) acquire_batch_op \<Rightarrow> size_t \<Rightarrow> (nat \<Rightarrow> 'a option) \<Rightarrow> thread_cache \<Rightarrow> 'p \<Rightarrow> 'a heap \<Rightarrow>
   fault + ptr outcome \<times> thread_cache \<times> 'p \<times> 'a heap" where
  "cache_acquire acq B ctors c P h =
     (if tc_count c = 0 then
        res_bind (acq ctors (tc_slots c) B P h) (\<lambda>(r, slots, P', h').
          case r of
            Threw \<Rightarrow> Inr (Threw, c\<lparr>tc_slots := slots\<rparr>, P', h')
          | Returned n \<Rightarrow>
              res_bind (cache_take (c\<lparr>tc_slots := slots, tc_count := n\<rparr>)) (\<lambda>(p, c').
                Inr (Returned p, c', P', h')))
      else res_bind (cache_take c) (\<lambda>(p, c'). Inr (Returned p, c', P, h)))"

definition flush_half ::
  "('p, 'a) release_batch_op \<Rightarrow> thread_cache \<Rightarrow> 'p \<Rightarrow> 'a heap \<Rightarrow> fault + thread_cache \<times> 'p \<times> 'a heap" where
  "flush_half rel c P h =
     (let half = tc_count c div 2
      in if 0 < half then
           res_bind (rel (drop (unat (tc_count c - half)) (tc_slots c)) half P h) (\<lambda>(P', h').
             Inr (c\<lparr>tc_count := tc_count c - half\<rparr>, P', h'))
         else Inr (c, P, h))"

text \<open>The end of \<open>release\<close>: store the pointer on top.\<close>

definition cache_put :: "ptr \<Rightarrow> thread_cache \<Rightarrow> fault + thread_cache" where
  "cache_put obj c =
     (if length (tc_slots c) \<le> unat (tc_count c) then Inl OutOfBounds
      else Inr (c\<lparr>tc_slots := (tc_slots c)[unat (tc_count c) := obj], tc_count := tc_count c + 1\<rparr>))"

definition cache_release ::
  "('p, 'a) release_batch_op \<Rightarrow> size_t \<Rightarrow> ptr \<Rightarrow> thread_cache \<Rightarrow> 'p \<Rightarrow> 'a heap \<Rightarrow>
   fault + thread_cache \<times> 'p \<times> 'a heap" where
  "cache_release rel F obj c P h =
     res_bind (if F \<le> tc_count c then flush_half rel c P h else Inr (c, P, h)) (\<lambda>(c', P', h').
       res_bind (cache_put obj c') (\<lambda>c''. Inr (c'', P', h')))"

definition cache_flush ::
  "('p, 'a) release_batch_op \<Rightarrow> thread_cache \<Rightarrow> 'p \<Rightarrow> 'a heap \<Rightarrow> fault + thread_cache \<times> 'p \<times> 'a heap" where
  "cache_flush rel c P h =
     (if 0 < tc_count c then
        res_bind (rel (tc_slots c) (tc_count c) P h) (\<lambda>(P', h'). Inr (c\<lparr>tc_count := 0\<rparr>, P', h'))
      else Inr (c, P, h))"

section \<open>Threads and pools\<close>

text \<open>
  The pools of one type, by number, and the caches, by thread. A call touches the cache of its
  own thread and, through one batch operation at most, a pool under its mutex; so calls of
  different threads interleave as whole steps.
\<close>

record ('p, 'a) tc_sys =
  tc_pools :: "nat \<Rightarrow> 'p"
  tc_caches :: "nat \<Rightarrow> thread_cache"
  tc_heap :: "'a heap"
  tc_out :: "addr set"          \<comment> \<open>nodes the clients have, auxiliary\<close>
  tc_leaked :: bool             \<comment> \<open>a constructor threw or a cache was lost with its thread, auxiliary\<close>
  tc_fault :: "fault option"

datatype 'a tc_action =
    TcAcquire nat nat "nat \<Rightarrow> 'a option"  \<comment> \<open>thread, pool, what the arguments build\<close>
  | TcRelease nat nat addr
  | TcFlush nat nat
  | TcUse addr 'a                         \<comment> \<open>a client assigns to its object\<close>
  | TcExit nat                            \<comment> \<open>the end of a thread, with its cache\<close>

text \<open>A client releases, and writes to, what it has acquired.\<close>

fun tc_allowed :: "nat set \<Rightarrow> 'a tc_action \<Rightarrow> ('p, 'a) tc_sys \<Rightarrow> bool" where
  "tc_allowed I (TcAcquire t i ctors) s \<longleftrightarrow> i \<in> I"
| "tc_allowed I (TcRelease t i a) s \<longleftrightarrow> i \<in> I \<and> a \<in> tc_out s"
| "tc_allowed I (TcFlush t i) s \<longleftrightarrow> i \<in> I"
| "tc_allowed I (TcUse a v) s \<longleftrightarrow> a \<in> tc_out s"
| "tc_allowed I (TcExit t) s \<longleftrightarrow> True"

definition tc_set :: "nat \<Rightarrow> nat \<Rightarrow> thread_cache \<Rightarrow> 'p \<Rightarrow> 'a heap \<Rightarrow> ('p, 'a) tc_sys \<Rightarrow> ('p, 'a) tc_sys" where
  "tc_set t i c P h s =
     s\<lparr>tc_caches := (tc_caches s)(t := c), tc_pools := (tc_pools s)(i := P), tc_heap := h\<rparr>"

fun hand_out :: "ptr outcome \<Rightarrow> ('p, 'a) tc_sys \<Rightarrow> ('p, 'a) tc_sys" where
  "hand_out (Returned None) s = s"
| "hand_out (Returned (Some a)) s = s\<lparr>tc_out := insert a (tc_out s)\<rparr>"
| "hand_out Threw s = s\<lparr>tc_leaked := True\<rparr>"

fun tc_do ::
  "('p, 'a) acquire_batch_op \<Rightarrow> ('p, 'a) release_batch_op \<Rightarrow> size_t \<Rightarrow> size_t \<Rightarrow>
   'a tc_action \<Rightarrow> ('p, 'a) tc_sys \<Rightarrow> fault + ('p, 'a) tc_sys" where
  "tc_do acq rel B F (TcAcquire t i ctors) s =
     res_bind (cache_acquire acq B ctors (tc_caches s t) (tc_pools s i) (tc_heap s)) (\<lambda>(r, c, P, h).
       Inr (hand_out r (tc_set t i c P h s)))"
| "tc_do acq rel B F (TcRelease t i a) s =
     res_bind (cache_release rel F (Some a) (tc_caches s t) (tc_pools s i) (tc_heap s)) (\<lambda>(c, P, h).
       Inr (tc_set t i c P h (s\<lparr>tc_out := tc_out s - {a}\<rparr>)))"
| "tc_do acq rel B F (TcFlush t i) s =
     res_bind (cache_flush rel (tc_caches s t) (tc_pools s i) (tc_heap s)) (\<lambda>(c, P, h).
       Inr (tc_set t i c P h s))"
| "tc_do acq rel B F (TcUse a v) s = Inr (s\<lparr>tc_heap := (tc_heap s)(a := Some v)\<rparr>)"
| "tc_do acq rel B F (TcExit t) s =
     Inr (s\<lparr>tc_caches := (tc_caches s)(t := fresh_cache F),
            tc_leaked := (tc_leaked s \<or> tc_count (tc_caches s t) \<noteq> 0)\<rparr>)"

fun tc_result :: "('p, 'a) tc_sys \<Rightarrow> fault + ('p, 'a) tc_sys \<Rightarrow> ('p, 'a) tc_sys" where
  "tc_result s (Inl e) = s\<lparr>tc_fault := Some e\<rparr>"
| "tc_result s (Inr s') = s'"

inductive tc_step ::
  "('p, 'a) acquire_batch_op \<Rightarrow> ('p, 'a) release_batch_op \<Rightarrow> size_t \<Rightarrow> size_t \<Rightarrow> nat set \<Rightarrow>
   ('p, 'a) tc_sys \<Rightarrow> ('p, 'a) tc_sys \<Rightarrow> bool"
  for acq :: "('p, 'a) acquire_batch_op" and rel :: "('p, 'a) release_batch_op"
    and B F :: size_t and I :: "nat set" where
  "tc_fault s = None \<Longrightarrow> tc_allowed I a s \<Longrightarrow> tc_step acq rel B F I s (tc_result s (tc_do acq rel B F a s))"

inductive_cases tc_stepE: "tc_step acq rel B F I s t"

section \<open>Where the nodes are\<close>

definition cached :: "thread_cache \<Rightarrow> addr list" where
  "cached c = map the (take (unat (tc_count c)) (tc_slots c))"

definition cache_ok :: "size_t \<Rightarrow> thread_cache \<Rightarrow> bool" where
  "cache_ok F c \<longleftrightarrow> length (tc_slots c) = unat F \<and> tc_count c \<le> F \<and>
     None \<notin> set (take (unat (tc_count c)) (tc_slots c))"

section \<open>The cache as a stack\<close>

lemma cache_okD:
  assumes "cache_ok F c"
  shows "length (tc_slots c) = unat F" "unat (tc_count c) \<le> unat F"
    "None \<notin> set (take (unat (tc_count c)) (tc_slots c))" "length (cached c) = unat (tc_count c)"
    "map Some (cached c) = take (unat (tc_count c)) (tc_slots c)"
proof -
  show c: "length (tc_slots c) = unat F" "unat (tc_count c) \<le> unat F"
    "None \<notin> set (take (unat (tc_count c)) (tc_slots c))"
    using assms by (simp_all add: cache_ok_def word_le_nat_alt)
  then show "length (cached c) = unat (tc_count c)" by (simp add: cached_def)
  have "map (Some \<circ> the) xs = xs" if "None \<notin> set xs" for xs :: "ptr list"
    using that by (induction xs) auto
  with c(3) show "map Some (cached c) = take (unat (tc_count c)) (tc_slots c)"
    by (simp add: cached_def)
qed

lemma cached_empty: "cache_ok F c \<Longrightarrow> cached c = [] \<longleftrightarrow> tc_count c = 0"
  by (metis cache_okD(4) length_0_conv unat_eq_0)

lemma fresh_cache_ok: "cache_ok F (fresh_cache F)" "cached (fresh_cache F) = []"
  by (simp_all add: cache_ok_def fresh_cache_def cached_def)

lemma cache_cut:
  assumes "cache_ok F c" and "m \<le> tc_count c"
  shows "cache_ok F (c\<lparr>tc_count := m\<rparr>)" "cached (c\<lparr>tc_count := m\<rparr>) = take (unat m) (cached c)"
proof -
  note d = cache_okD [OF assms(1)]
  have m: "unat m \<le> unat (tc_count c)" using assms(2) by (simp add: word_le_nat_alt)
  then have t: "take (unat m) (tc_slots c) = take (unat m) (take (unat (tc_count c)) (tc_slots c))" by simp
  have "None \<notin> set (take (unat m) (tc_slots c))" unfolding t using d(3) in_set_takeD by fastforce
  with d m show "cache_ok F (c\<lparr>tc_count := m\<rparr>)" by (simp add: cache_ok_def word_le_nat_alt)
  show "cached (c\<lparr>tc_count := m\<rparr>) = take (unat m) (cached c)" using m by (simp add: cached_def take_map)
qed

lemma cache_take_spec:
  assumes "cache_ok F c"
  shows "\<exists>c'. cache_take c = Inr (if cached c = [] then None else Some (last (cached c)), c') \<and>
    cache_ok F c' \<and> cached c' = butlast (cached c)"
proof (cases "cached c = []")
  case True
  with assms cached_empty [OF assms] show ?thesis by (simp add: cache_take_def)
next
  case False
  note d = cache_okD [OF assms]
  from False have nz: "tc_count c \<noteq> 0" using cached_empty [OF assms] by simp
  then have pos: "0 < tc_count c" "1 \<le> unat (tc_count c)" by (simp_all add: word_neq_0_conv Suc_le_eq unat_gt_0)
  then have un: "unat (tc_count c - 1) = unat (tc_count c) - 1" by (subst unat_minus_bounded) simp_all
  then have le: "tc_count c - 1 \<le> tc_count c" by (simp add: word_le_nat_alt)
  have "tc_slots c ! (unat (tc_count c) - 1) = map Some (cached c) ! (unat (tc_count c) - 1)"
    unfolding d(5) using pos(2) by simp
  also have "\<dots> = Some (last (cached c))" using pos(2) d(4) False by (simp add: last_conv_nth)
  finally have top: "tc_slots c ! (unat (tc_count c) - 1) = Some (last (cached c))" .
  have "cached (c\<lparr>tc_count := tc_count c - 1\<rparr>) = butlast (cached c)"
    using cache_cut(2) [OF assms le] un d(4) by (simp add: butlast_conv_take)
  with cache_cut(1) [OF assms le] False pos un top d(1,2) show ?thesis by (simp add: cache_take_def)
qed

lemma cache_push_spec:
  fixes a :: addr
  assumes "cache_ok F c" and "unat (tc_count c) < unat F"
  defines "c' \<equiv> c\<lparr>tc_slots := (tc_slots c)[unat (tc_count c) := Some a], tc_count := tc_count c + 1\<rparr>"
  shows "cache_ok F c'" "cached c' = cached c @ [a]"
proof -
  note d = cache_okD [OF assms(1)]
  have "unat F < 2 ^ 64" using unsigned_less [of F, where 'a = nat] by simp
  with assms(2) have un: "unat (tc_count c + 1) = unat (tc_count c) + 1"
    by (subst unat_plus_bounded) simp_all
  have tk: "take (unat (tc_count c) + 1) ((tc_slots c)[unat (tc_count c) := Some a]) =
      take (unat (tc_count c)) (tc_slots c) @ [Some a]"
    using assms(2) d(1) by (simp add: take_Suc_conv_app_nth)
  show "cache_ok F c'" using d assms(2) tk un
    by (simp add: cache_ok_def c'_def word_le_nat_alt)
  show "cached c' = cached c @ [a]" using tk un by (simp add: cached_def c'_def)
qed

text \<open>How many of its pointers a cache keeps when \<open>release\<close> pushes another.\<close>

definition keeps :: "size_t \<Rightarrow> thread_cache \<Rightarrow> nat" where
  "keeps F c = (if F \<le> tc_count c then unat (tc_count c) - unat (tc_count c) div 2 else unat (tc_count c))"

section \<open>The contract of the global pool\<close>

locale batch_pool =
  fixes acq :: "('p, 'a) acquire_batch_op"
    and rel :: "('p, 'a) release_batch_op"
    and pinv :: "'p \<Rightarrow> 'a heap \<Rightarrow> bool"
    and free :: "'p \<Rightarrow> addr list"
    and nodes :: "'p \<Rightarrow> addr set"
  assumes free_raw: "pinv P h \<Longrightarrow> a \<in> set (free P) \<Longrightarrow> h a = None"
    and free_short: "pinv P h \<Longrightarrow> length (free P) < 2 ^ 64"
    and use_law: "pinv P h \<Longrightarrow> a \<notin> set (free P) \<Longrightarrow> pinv P (h(a := v))"
    and acq_law: "pinv P h \<Longrightarrow> n = min (unat m) (length (free P)) \<Longrightarrow> n \<le> length out \<Longrightarrow>
      \<exists>r Q h'. acq ctors out m P h = Inr (r, map Some (take n (free P)) @ drop n out, Q, h') \<and>
        pinv Q h' \<and> free Q = drop n (free P) \<and> nodes Q = nodes P \<and>
        (\<forall>a. a \<notin> set (take n (free P)) \<longrightarrow> h' a = h a) \<and>
        (r = Threw \<and> (\<exists>i<n. ctors i = None) \<or>
         r = Returned (of_nat n) \<and> (\<forall>i<n. ctors i \<noteq> None \<and> h' (free P ! i) = ctors i))"
    and rel_law: "pinv P h \<Longrightarrow> take (unat m) items = map Some as \<Longrightarrow> unat m = length as \<Longrightarrow>
      distinct as \<Longrightarrow> set as \<subseteq> nodes P \<Longrightarrow> (\<forall>a\<in>set as. h a \<noteq> None) \<Longrightarrow>
      \<exists>Q. rel items m P h = Inr (Q, heap_clear (set as) h) \<and> pinv Q (heap_clear (set as) h) \<and>
        free Q = free P @ as \<and> nodes Q = nodes P"
begin

text \<open>\<open>acquire\<close> from a cache that is not empty: no contact with the pool, no construction.\<close>

lemma acquire_cached:
  assumes "cache_ok F c" and "cached c \<noteq> []"
  shows "\<exists>c'. cache_acquire acq B ctors c P h = Inr (Returned (Some (last (cached c))), c', P, h) \<and>
    cache_ok F c' \<and> cached c' = butlast (cached c)"
proof -
  from cache_take_spec [OF assms(1)] assms(2) obtain c' where
    "cache_take c = Inr (Some (last (cached c)), c')" "cache_ok F c'" "cached c' = butlast (cached c)" by auto
  moreover have "tc_count c \<noteq> 0" using assms cached_empty by blast
  ultimately show ?thesis by (simp add: cache_acquire_def)
qed

text \<open>From an empty one: a batch of nodes moves from the pool to the cache first.\<close>

lemma acquire_refill:
  assumes inv: "pinv P h" and c: "cache_ok F c" "cached c = []" and BF: "B \<le> F"
  defines "xs \<equiv> take (unat B) (free P)"
  shows "\<exists>r c' Q h'. cache_acquire acq B ctors c P h = Inr (r, c', Q, h') \<and> pinv Q h' \<and>
    cache_ok F c' \<and> free Q = drop (unat B) (free P) \<and> nodes Q = nodes P \<and>
    (\<forall>a. a \<notin> set xs \<longrightarrow> h' a = h a) \<and>
    (r = Threw \<and> cached c' = [] \<and> (\<exists>i<length xs. ctors i = None) \<or>
     r = Returned (if xs = [] then None else Some (last xs)) \<and> cached c' = butlast xs \<and>
       (\<forall>i<length xs. ctors i \<noteq> None \<and> h' (xs ! i) = ctors i))"
proof -
  note d = cache_okD [OF c(1)]
  have cnt: "tc_count c = 0" using c cached_empty by blast
  define n where "n = min (unat B) (length (free P))"
  have xs: "take n (free P) = xs" "drop n (free P) = drop (unat B) (free P)" "length xs = n"
    by (auto simp: n_def xs_def min_def)
  have fit: "n \<le> length (tc_slots c)" using BF d(1) by (simp add: n_def word_le_nat_alt)
  have "n < 2 ^ 64" using free_short [OF inv] by (simp add: n_def)
  then have un: "unat (of_nat n :: size_t) = n" by (simp add: unat_of_nat)
  from acq_law [OF inv n_def fit, of ctors] obtain r Q h' where
    acq: "acq ctors (tc_slots c) B P h = Inr (r, map Some xs @ drop n (tc_slots c), Q, h')"
    and Q: "pinv Q h'" "free Q = drop (unat B) (free P)" "nodes Q = nodes P" "\<forall>a. a \<notin> set xs \<longrightarrow> h' a = h a"
    and r: "r = Threw \<and> (\<exists>i<n. ctors i = None) \<or>
      r = Returned (of_nat n) \<and> (\<forall>i<n. ctors i \<noteq> None \<and> h' (free P ! i) = ctors i)"
    unfolding xs by (elim exE conjE) (rule that)
  let ?slots = "map Some xs @ drop n (tc_slots c)"
  from r show ?thesis
  proof
    assume t: "r = Threw \<and> (\<exists>i<n. ctors i = None)"
    have "cache_ok F (c\<lparr>tc_slots := ?slots\<rparr>)" "cached (c\<lparr>tc_slots := ?slots\<rparr>) = []"
      using d fit xs(3) by (simp_all add: cache_ok_def cached_def cnt)
    with t acq cnt Q xs(3) show ?thesis by (simp add: cache_acquire_def)
  next
    assume t: "r = Returned (of_nat n) \<and> (\<forall>i<n. ctors i \<noteq> None \<and> h' (free P ! i) = ctors i)"
    let ?c = "c\<lparr>tc_slots := ?slots, tc_count := of_nat n\<rparr>"
    have ok: "cache_ok F ?c" "cached ?c = xs"
      using d fit xs(3) by (auto simp: cache_ok_def cached_def un word_le_nat_alt)
    from cache_take_spec [OF ok(1)] obtain c' where
      "cache_take ?c = Inr (if xs = [] then None else Some (last xs), c')" "cache_ok F c'"
      "cached c' = butlast xs" unfolding ok(2) by (elim exE conjE) (rule that)
    moreover have "h' (xs ! i) = ctors i \<and> ctors i \<noteq> None" if "i < n" for i
      using t that xs(1) by (metis nth_take n_def min_less_iff_conj)
    ultimately show ?thesis using t acq cnt Q xs(3) by (simp add: cache_acquire_def)
  qed
qed

text \<open>\<open>flush\<close>, and the first half of \<open>release\<close> on a full cache.\<close>

lemma flush_spec:
  assumes inv: "pinv P h" and c: "cache_ok F c" and as: "distinct (cached c)" "set (cached c) \<subseteq> nodes P"
    "\<forall>a\<in>set (cached c). h a \<noteq> None"
  shows "\<exists>c' Q. cache_flush rel c P h = Inr (c', Q, heap_clear (set (cached c)) h) \<and>
    pinv Q (heap_clear (set (cached c)) h) \<and> cache_ok F c' \<and> cached c' = [] \<and>
    free Q = free P @ cached c \<and> nodes Q = nodes P"
proof (cases "tc_count c = 0")
  case True
  then have "cached c = []" using cached_empty [OF c] by simp
  moreover have "heap_clear {} h = h" by (simp add: heap_clear_def)
  ultimately show ?thesis using True inv c by (simp add: cache_flush_def)
next
  case False
  note d = cache_okD [OF c]
  from rel_law [OF inv d(5) [symmetric] d(4) [symmetric] as] obtain Q where
    "rel (tc_slots c) (tc_count c) P h = Inr (Q, heap_clear (set (cached c)) h)"
    "pinv Q (heap_clear (set (cached c)) h)" "free Q = free P @ cached c" "nodes Q = nodes P" by blast
  moreover have "cache_ok F (c\<lparr>tc_count := 0\<rparr>)" "cached (c\<lparr>tc_count := 0\<rparr>) = []"
    using cache_cut [OF c, of 0] by simp_all
  moreover have "0 < tc_count c" using False by (simp add: word_neq_0_conv)
  ultimately show ?thesis by (simp add: cache_flush_def)
qed

lemma flush_half_spec:
  assumes inv: "pinv P h" and c: "cache_ok F c" and as: "distinct (cached c)" "set (cached c) \<subseteq> nodes P"
    "\<forall>a\<in>set (cached c). h a \<noteq> None" and two: "2 \<le> tc_count c"
  defines "k \<equiv> unat (tc_count c) - unat (tc_count c) div 2"
  shows "\<exists>c' Q. flush_half rel c P h = Inr (c', Q, heap_clear (set (drop k (cached c))) h) \<and>
    pinv Q (heap_clear (set (drop k (cached c))) h) \<and> cache_ok F c' \<and> cached c' = take k (cached c) \<and>
    free Q = free P @ drop k (cached c) \<and> nodes Q = nodes P \<and> tc_count c' < tc_count c"
proof -
  note d = cache_okD [OF c]
  let ?half = "tc_count c div 2"
  have n2: "2 \<le> unat (tc_count c)" using two by (simp add: word_le_nat_alt)
  have uh: "unat ?half = unat (tc_count c) div 2" by (simp add: unat_div)
  then have uk: "unat (tc_count c - ?half) = k" unfolding k_def by (subst unat_minus_bounded) simp_all
  have pos: "0 < ?half" using uh n2 by (simp add: word_less_nat_alt)
  have len: "unat ?half = length (drop k (cached c))" by (simp add: uh d(4) k_def)
  have kn: "unat (tc_count c) - k = unat ?half" using uh by (simp add: k_def)
  have items: "take (unat ?half) (drop k (tc_slots c)) = map Some (drop k (cached c))"
    using arg_cong [OF d(5), of "drop k"] by (simp add: drop_map drop_take kn)
  have sub: "distinct (drop k (cached c))" "set (drop k (cached c)) \<subseteq> nodes P"
    "\<forall>a\<in>set (drop k (cached c)). h a \<noteq> None"
    using as set_drop_subset [of k "cached c"] by auto
  from rel_law [OF inv items len sub] obtain Q where
    "rel (drop k (tc_slots c)) ?half P h = Inr (Q, heap_clear (set (drop k (cached c))) h)"
    "pinv Q (heap_clear (set (drop k (cached c))) h)" "free Q = free P @ drop k (cached c)"
    "nodes Q = nodes P" by blast
  moreover have lt: "tc_count c - ?half < tc_count c"
    unfolding word_less_nat_alt uk using n2 by (simp add: k_def)
  moreover from lt have "tc_count c - ?half \<le> tc_count c" by simp
  note cache_cut [OF c this, unfolded uk]
  ultimately show ?thesis using pos by (simp add: flush_half_def Let_def uk)
qed

lemma release_spec:
  assumes inv: "pinv P h" and c: "cache_ok F c" and as: "distinct (cached c)" "set (cached c) \<subseteq> nodes P"
    "\<forall>a\<in>set (cached c). h a \<noteq> None" and two: "2 \<le> F"
  defines "ys \<equiv> drop (keeps F c) (cached c)"
  shows "\<exists>c' Q. cache_release rel F (Some a) c P h = Inr (c', Q, heap_clear (set ys) h) \<and>
    pinv Q (heap_clear (set ys) h) \<and> cache_ok F c' \<and> cached c' = take (keeps F c) (cached c) @ [a] \<and>
    free Q = free P @ ys \<and> nodes Q = nodes P"
proof -
  note d = cache_okD [OF c]
  have "\<exists>c1 Q. (if F \<le> tc_count c then flush_half rel c P h else Inr (c, P, h)) = Inr (c1, Q, heap_clear (set ys) h) \<and>
    pinv Q (heap_clear (set ys) h) \<and> cache_ok F c1 \<and> cached c1 = take (keeps F c) (cached c) \<and>
    free Q = free P @ ys \<and> nodes Q = nodes P \<and> tc_count c1 < F"
  proof (cases "F \<le> tc_count c")
    case True
    with two have "2 \<le> tc_count c" by simp
    from flush_half_spec [OF inv c as this] True d(2) show ?thesis
      unfolding ys_def keeps_def by (auto simp: word_le_nat_alt word_less_nat_alt)
  next
    case False
    moreover have "heap_clear {} h = h" by (simp add: heap_clear_def)
    ultimately show ?thesis using inv c d(4) by (simp add: ys_def keeps_def)
  qed
  then obtain c1 Q where
    h: "(if F \<le> tc_count c then flush_half rel c P h else Inr (c, P, h)) = Inr (c1, Q, heap_clear (set ys) h)"
    and Q: "pinv Q (heap_clear (set ys) h)" "free Q = free P @ ys" "nodes Q = nodes P"
    and c1: "cache_ok F c1" "cached c1 = take (keeps F c) (cached c)" "tc_count c1 < F"
    by (elim exE conjE) (rule that)
  have lt: "unat (tc_count c1) < unat F" using c1(3) by (simp add: word_less_nat_alt)
  note push = cache_push_spec [OF c1(1) lt, of a]
  have "cache_release rel F (Some a) c P h =
      Inr (c1\<lparr>tc_slots := (tc_slots c1)[unat (tc_count c1) := Some a], tc_count := tc_count c1 + 1\<rparr>,
        Q, heap_clear (set ys) h)"
    unfolding cache_release_def h using lt cache_okD(1) [OF c1(1)] by (simp add: cache_put_def)
  with push Q c1(2) show ?thesis by simp
qed

end

text \<open>\<open>ObjectPool\<close> meets it.\<close>

lemma heap_build_throws: "\<not> fst (heap_build ctors i as h) \<Longrightarrow> \<exists>j<length as. ctors (i + j) = None"
proof (induction as arbitrary: i h)
  case (Cons a as)
  show ?case
  proof (cases "ctors i")
    case None
    then show ?thesis by (intro exI [of _ 0]) simp
  next
    case (Some v)
    with Cons.prems have "\<not> fst (heap_build ctors (i + 1) as (h(a := Some v)))" by simp
    from Cons.IH [OF this] obtain j where "j < length as" "ctors (i + 1 + j) = None" by blast
    then show ?thesis by (intro exI [of _ "Suc j"]) simp
  qed
qed simp

lemma pool_acq_law:
  assumes inv: "pool_inv P h" and n: "n = min (unat m) (length (pool_free P))" "n \<le> length out"
  shows "\<exists>r Q h'. pool_acquire_batch ctors out m P h =
      Inr (r, map Some (take n (pool_free P)) @ drop n out, Q, h') \<and>
    pool_inv Q h' \<and> pool_free Q = drop n (pool_free P) \<and> pool_nodes Q = pool_nodes P \<and>
    (\<forall>a. a \<notin> set (take n (pool_free P)) \<longrightarrow> h' a = h a) \<and>
    (r = Threw \<and> (\<exists>i<n. ctors i = None) \<or>
     r = Returned (of_nat n) \<and> (\<forall>i<n. ctors i \<noteq> None \<and> h' (pool_free P ! i) = ctors i))"
proof -
  let ?num = "min m (pl_count P)" and ?as = "take n (pool_free P)"
  let ?b = "heap_build ctors 0 ?as h"
  have num: "?num \<le> pl_count P" by simp
  have un: "unat ?num = n" by (simp add: n(1) min_def word_le_nat_alt)
  then have ofn: "?num = of_nat n" by (simp only: un [symmetric] of_nat_unat ucast_id)
  have len: "length ?as = n" using n(1) by simp
  have spec: "pool_acquire_batch ctors out m P h =
      Inr (if fst ?b then Returned ?num else Threw, map Some ?as @ drop n out, pool_drop ?num P, snd ?b)"
    using pool_acquire_batch_spec [OF inv, of m out ctors] n(2) un by simp
  have "distinct ?as" using pool_shapeD(6) [OF pool_invD(1) [OF inv]] by simp
  from heap_build_all [OF this] len have ok: "fst ?b \<Longrightarrow> i < n \<Longrightarrow>
      ctors i \<noteq> None \<and> snd ?b (pool_free P ! i) = ctors i" for i by fastforce
  have bad: "\<exists>i<n. ctors i = None" if "\<not> fst ?b"
    using heap_build_throws [OF that] by (simp only: len add_0)
  show ?thesis
    unfolding spec using pool_acquired_inv(1) [OF inv num, where ctors = ctors and i = 0]
      pool_acquired_inv(2) [OF inv num] un ofn ok bad
      pool_drop_spec(3) [OF pool_invD(1) [OF inv] num]
    by (auto simp: heap_build_other)
qed

interpretation global: batch_pool pool_acquire_batch pool_release_batch pool_inv pool_free pool_nodes
proof unfold_locales
  fix P and h :: "'a heap" and a
  show "pool_inv P h \<Longrightarrow> a \<in> set (pool_free P) \<Longrightarrow> h a = None" by (rule pool_invD(2))
  show "pool_inv P h \<Longrightarrow> length (pool_free P) < 2 ^ 64"
    using unsigned_less [of "pl_count P", where 'a = nat] by simp
  show "pool_inv P h \<Longrightarrow> a \<notin> set (pool_free P) \<Longrightarrow> pool_inv P (h(a := v))" for v
    by (auto simp: pool_inv_def)
next
  fix P and h :: "'a heap" and m :: size_t and items as
  assume "pool_inv P h" "take (unat m) items = map Some as" "unat m = length as" "distinct as"
    "set as \<subseteq> pool_nodes P" "\<forall>a\<in>set as. h a \<noteq> None"
  then show "\<exists>Q. pool_release_batch items m P h = Inr (Q, heap_clear (set as) h) \<and>
      pool_inv Q (heap_clear (set as) h) \<and> pool_free Q = pool_free P @ as \<and> pool_nodes Q = pool_nodes P"
    by (intro pool_release_batch_spec) simp_all
qed (rule pool_acq_law; assumption)

section \<open>The invariant of a pool and its caches\<close>

definition tc_inv ::
  "('p \<Rightarrow> 'a heap \<Rightarrow> bool) \<Rightarrow> ('p \<Rightarrow> addr list) \<Rightarrow> ('p \<Rightarrow> addr set) \<Rightarrow> nat \<Rightarrow> size_t \<Rightarrow>
   ('p, 'a) tc_sys \<Rightarrow> bool" where
  "tc_inv pinv free nodes p F s \<longleftrightarrow>
     tc_fault s = None \<and> pinv (tc_pools s p) (tc_heap s) \<and> (\<forall>t. cache_ok F (tc_caches s t)) \<and>
     places_ok (free (tc_pools s p)) (\<lambda>t. cached (tc_caches s t)) (tc_out s) (nodes (tc_pools s p)) \<and>
     (\<forall>t. \<forall>a\<in>set (cached (tc_caches s t)). tc_heap s a \<noteq> None) \<and>
     (\<forall>a\<in>tc_out s. tc_heap s a \<noteq> None) \<and>
     (tc_leaked s \<or> places_full (free (tc_pools s p)) (\<lambda>t. cached (tc_caches s t)) (tc_out s) (nodes (tc_pools s p)))"

lemma tc_invD:
  assumes "tc_inv pinv free nodes p F s"
  shows "tc_fault s = None" "pinv (tc_pools s p) (tc_heap s)" "cache_ok F (tc_caches s t)"
    "places_ok (free (tc_pools s p)) (\<lambda>t. cached (tc_caches s t)) (tc_out s) (nodes (tc_pools s p))"
    "a \<in> set (cached (tc_caches s t)) \<Longrightarrow> tc_heap s a \<noteq> None" "a \<in> tc_out s \<Longrightarrow> tc_heap s a \<noteq> None"
    "\<not> tc_leaked s \<Longrightarrow>
       places_full (free (tc_pools s p)) (\<lambda>t. cached (tc_caches s t)) (tc_out s) (nodes (tc_pools s p))"
  using assms by (simp_all add: tc_inv_def)

text \<open>A step changes the cache of one thread.\<close>

lemma tc_inv_update:
  assumes "tc_inv pinv free nodes p F s"
    and s': "tc_fault s' = None" "tc_caches s' = (tc_caches s)(t := c)"
    and "pinv (tc_pools s' p) (tc_heap s')" and "cache_ok F c"
    and "places_ok (free (tc_pools s' p)) ((\<lambda>t. cached (tc_caches s t))(t := cached c)) (tc_out s') (nodes (tc_pools s' p))"
    and "\<And>a. a \<in> set (cached c) \<union> tc_out s' \<Longrightarrow> tc_heap s' a \<noteq> None"
    and "\<And>u a. u \<noteq> t \<Longrightarrow> a \<in> set (cached (tc_caches s u)) \<Longrightarrow> tc_heap s' a \<noteq> None"
    and "\<not> tc_leaked s' \<Longrightarrow>
      places_full (free (tc_pools s' p)) ((\<lambda>t. cached (tc_caches s t))(t := cached c)) (tc_out s') (nodes (tc_pools s' p))"
  shows "tc_inv pinv free nodes p F s'"
proof -
  have C: "(\<lambda>t. cached (tc_caches s' t)) = (\<lambda>t. cached (tc_caches s t))(t := cached c)" by (auto simp: s'(2))
  show ?thesis unfolding tc_inv_def C using assms(4-) s' tc_invD(3) [OF assms(1)] by auto
qed

lemma tc_set_simps [simp]:
  "tc_fault (tc_set t i c P h s) = tc_fault s" "tc_caches (tc_set t i c P h s) = (tc_caches s)(t := c)"
  "tc_pools (tc_set t i c P h s) = (tc_pools s)(i := P)" "tc_heap (tc_set t i c P h s) = h"
  "tc_out (tc_set t i c P h s) = tc_out s" "tc_leaked (tc_set t i c P h s) = tc_leaked s"
  by (simp_all add: tc_set_def)

lemma hand_out_simps [simp]:
  "tc_fault (hand_out r s) = tc_fault s" "tc_caches (hand_out r s) = tc_caches s"
  "tc_pools (hand_out r s) = tc_pools s" "tc_heap (hand_out r s) = tc_heap s"
  by (induction r s rule: hand_out.induct; simp)+

context batch_pool
begin

abbreviation sys_inv :: "nat \<Rightarrow> size_t \<Rightarrow> ('p, 'a) tc_sys \<Rightarrow> bool" where
  "sys_inv \<equiv> tc_inv pinv free nodes"

lemma flush_inv:
  assumes inv: "sys_inv p F s"
  shows "\<exists>s'. tc_do acq rel B F (TcFlush t p) s = Inr s' \<and> sys_inv p F s'"
proof -
  let ?c = "tc_caches s t" and ?P = "tc_pools s p" and ?h = "tc_heap s"
  note i = tc_invD [OF inv]
  note pl = places_cacheD [OF i(4), of t]
  have al: "\<forall>a\<in>set (cached ?c). ?h a \<noteq> None" using i(5) by blast
  from flush_spec [OF i(2,3) pl(1,4) al] obtain c' Q where
    f: "cache_flush rel ?c ?P ?h = Inr (c', Q, heap_clear (set (cached ?c)) ?h)"
    and Q: "pinv Q (heap_clear (set (cached ?c)) ?h)" "cache_ok F c'" "cached c' = []"
      "free Q = free ?P @ cached ?c" "nodes Q = nodes ?P" by (elim exE conjE) (rule that)
  let ?s = "tc_set t p c' Q (heap_clear (set (cached ?c)) ?h) s"
  have "sys_inv p F ?s"
  proof (rule tc_inv_update [OF inv, of _ t c'])
    show "places_ok (free (tc_pools ?s p)) ((\<lambda>t. cached (tc_caches s t))(t := cached c')) (tc_out ?s) (nodes (tc_pools ?s p))"
      using places_give_back [OF i(4), of t "[]" "cached ?c"] Q by simp
    fix a show "a \<in> set (cached c') \<union> tc_out ?s \<Longrightarrow> tc_heap ?s a \<noteq> None"
      using pl(3) i(6) by (auto simp: Q(3) heap_clear_def)
    fix u assume "u \<noteq> t" "a \<in> set (cached (tc_caches s u))"
    then show "tc_heap ?s a \<noteq> None"
      using places_cachesD [OF i(4), of t u] i(5) by (auto simp: heap_clear_def)
  next
    assume "\<not> tc_leaked ?s"
    with i(7) show "places_full (free (tc_pools ?s p)) ((\<lambda>t. cached (tc_caches s t))(t := cached c')) (tc_out ?s) (nodes (tc_pools ?s p))"
      by (auto simp: Q intro!: places_full_move)
  qed (use i(1) Q in simp_all)
  with f show ?thesis by simp
qed

lemma release_inv:
  assumes inv: "sys_inv p F s" and two: "2 \<le> F" and a: "a \<in> tc_out s"
  shows "\<exists>s'. tc_do acq rel B F (TcRelease t p a) s = Inr s' \<and> sys_inv p F s'"
proof -
  let ?c = "tc_caches s t" and ?P = "tc_pools s p" and ?h = "tc_heap s"
  let ?xs = "take (keeps F ?c) (cached ?c)" and ?ys = "drop (keeps F ?c) (cached ?c)"
  note i = tc_invD [OF inv]
  note pl = places_cacheD [OF i(4), of t]
  have al: "\<forall>b\<in>set (cached ?c). ?h b \<noteq> None" and out: "\<forall>b\<in>tc_out s. ?h b \<noteq> None"
    using i(5,6) by blast+
  from release_spec [OF i(2,3) pl(1,4) al two, where a = a] obtain c' Q where
    f: "cache_release rel F (Some a) ?c ?P ?h = Inr (c', Q, heap_clear (set ?ys) ?h)"
    and Q: "pinv Q (heap_clear (set ?ys) ?h)" "cache_ok F c'" "cached c' = ?xs @ [a]"
      "free Q = free ?P @ ?ys" "nodes Q = nodes ?P" by (elim exE conjE) (rule that)
  let ?s = "tc_set t p c' Q (heap_clear (set ?ys) ?h) (s\<lparr>tc_out := tc_out s - {a}\<rparr>)"
  have split: "(\<lambda>t. cached (tc_caches s t)) t = ?xs @ ?ys" by simp
  note gb = places_give_back [OF i(4) split] and sp = places_split [OF i(4) split]
  have ok: "places_ok (free Q) ((\<lambda>t. cached (tc_caches s t))(t := cached c')) (tc_out s - {a}) (nodes Q)"
    using places_take_back [OF gb a, of t] by (simp add: Q)
  have "sys_inv p F ?s"
  proof (rule tc_inv_update [OF inv, of _ t c'])
    fix b show "b \<in> set (cached c') \<union> tc_out ?s \<Longrightarrow> tc_heap ?s b \<noteq> None"
      using sp(3,7) out a al set_take_subset [of "keeps F ?c" "cached ?c"]
      by (auto simp: Q(3) heap_clear_def)
    fix u assume "u \<noteq> t" "b \<in> set (cached (tc_caches s u))"
    then show "tc_heap ?s b \<noteq> None"
      using sp(11) [of u] i(5) by (auto simp: heap_clear_def)
  next
    assume "\<not> tc_leaked ?s"
    moreover have "set (cached ?c) = set ?xs \<union> set ?ys" by (metis append_take_drop_id set_append)
    ultimately show "places_full (free (tc_pools ?s p)) ((\<lambda>t. cached (tc_caches s t))(t := cached c')) (tc_out ?s) (nodes (tc_pools ?s p))"
      using i(7) by (auto simp: Q intro!: places_full_move)
  qed (use i(1) Q ok in simp_all)
  with f show ?thesis by simp
qed

lemma acquire_cached_inv:
  assumes inv: "sys_inv p F s" and False: "cached (tc_caches s t) \<noteq> []"
  shows "\<exists>s'. tc_do acq rel B F (TcAcquire t p ctors) s = Inr s' \<and> sys_inv p F s'"
proof -
  let ?c = "tc_caches s t" and ?P = "tc_pools s p" and ?h = "tc_heap s"
  note i = tc_invD [OF inv]
  have al: "\<forall>u. \<forall>b\<in>set (cached (tc_caches s u)). ?h b \<noteq> None" and out: "\<forall>b\<in>tc_out s. ?h b \<noteq> None"
    using i(5,6) by blast+
  let ?a = "last (cached ?c)"
  from acquire_cached [OF i(3) False, where B = B and ctors = ctors and P = ?P and h = ?h] obtain c' where
    f: "cache_acquire acq B ctors ?c ?P ?h = Inr (Returned (Some ?a), c', ?P, ?h)"
    and c': "cache_ok F c'" "cached c' = butlast (cached ?c)" by (elim exE conjE) (rule that)
  let ?s = "hand_out (Returned (Some ?a)) (tc_set t p c' ?P ?h s)"
  have split: "cached ?c = butlast (cached ?c) @ [?a]" using False by simp
  have last: "?a \<in> set (cached ?c)" using False by simp
  have "sys_inv p F ?s"
  proof (rule tc_inv_update [OF inv, of _ t c'])
    show "places_ok (free (tc_pools ?s p)) ((\<lambda>t. cached (tc_caches s t))(t := cached c')) (tc_out ?s) (nodes (tc_pools ?s p))"
      using places_hand_out [OF i(4), of t "butlast (cached ?c)" ?a] split c'(2) by simp
    fix b show "b \<in> set (cached c') \<union> tc_out ?s \<Longrightarrow> tc_heap ?s b \<noteq> None"
      using al out last by (auto simp: c'(2) dest: in_set_butlastD)
    fix u show "u \<noteq> t \<Longrightarrow> b \<in> set (cached (tc_caches s u)) \<Longrightarrow> tc_heap ?s b \<noteq> None" using al by simp
  next
    assume "\<not> tc_leaked ?s"
    moreover have "set (cached ?c) = insert ?a (set (butlast (cached ?c)))"
      using arg_cong [OF split, of set] by simp
    ultimately show "places_full (free (tc_pools ?s p)) ((\<lambda>t. cached (tc_caches s t))(t := cached c')) (tc_out ?s) (nodes (tc_pools ?s p))"
      using i(7) by (auto simp: c' intro!: places_full_move)
  qed (use i(1,2) c' in simp_all)
  with f show ?thesis by simp
qed

lemma acquire_refill_inv:
  assumes inv: "sys_inv p F s" and BF: "B \<le> F" and True: "cached (tc_caches s t) = []"
  shows "\<exists>s'. tc_do acq rel B F (TcAcquire t p ctors) s = Inr s' \<and> sys_inv p F s'"
proof -
  let ?c = "tc_caches s t" and ?P = "tc_pools s p" and ?h = "tc_heap s"
  note i = tc_invD [OF inv]
  have al: "\<forall>u. \<forall>b\<in>set (cached (tc_caches s u)). ?h b \<noteq> None" and out: "\<forall>b\<in>tc_out s. ?h b \<noteq> None"
    using i(5,6) by blast+
  obtain xs where xs: "xs = take (unat B) (free ?P)" by simp
  from acquire_refill [OF i(2,3) True BF, where ctors = ctors, folded xs] obtain r c' Q h' where
    f: "cache_acquire acq B ctors ?c ?P ?h = Inr (r, c', Q, h')"
    and Q: "pinv Q h'" "cache_ok F c'" "free Q = drop (unat B) (free ?P)" "nodes Q = nodes ?P"
      "\<forall>a. a \<notin> set xs \<longrightarrow> h' a = ?h a"
    and r: "r = Threw \<and> cached c' = [] \<and> (\<exists>i<length xs. ctors i = None) \<or>
     r = Returned (if xs = [] then None else Some (last xs)) \<and> cached c' = butlast xs \<and>
     (\<forall>i<length xs. ctors i \<noteq> None \<and> h' (xs ! i) = ctors i)" by (elim exE conjE) (rule that)
  let ?s = "hand_out r (tc_set t p c' Q h' s)"
  have fr: "xs @ free Q = free ?P" by (simp add: Q(3) xs)
  have ok: "places_ok (xs @ free Q) (\<lambda>t. cached (tc_caches s t)) (tc_out s) (nodes ?P)"
    using i(4) by (simp only: fr)
  have nf: "b \<notin> set xs" if "b \<in> set (cached (tc_caches s u)) \<union> tc_out s" for b u
    using that places_cacheD(2) [OF ok, of u] places_okD(2) [OF ok] by auto
  have same: "\<forall>u. \<forall>b\<in>set (cached (tc_caches s u)). h' b \<noteq> None" "\<forall>b\<in>tc_out s. h' b \<noteq> None"
    using nf Q(5) al out by (metis UnI1, metis UnI2)
  from r show ?thesis
  proof
    assume t: "r = Threw \<and> cached c' = [] \<and> (\<exists>i<length xs. ctors i = None)"
    have "sys_inv p F ?s"
      by (rule tc_inv_update [OF inv, of _ t c'])
        (use t i(1) Q same places_drop_cache [OF places_drop_free [OF ok]] in auto)
    with f show ?thesis by simp
  next
    assume t: "r = Returned (if xs = [] then None else Some (last xs)) \<and> cached c' = butlast xs \<and>
      (\<forall>i<length xs. ctors i \<noteq> None \<and> h' (xs ! i) = ctors i)"
    have built: "\<forall>b\<in>set xs. h' b \<noteq> None" using t by (metis in_set_conv_nth)
    have out': "tc_out ?s = tc_out s \<union> (if xs = [] then {} else {last xs})" "tc_leaked ?s = tc_leaked s"
      using t by simp_all
    have live: "h' b \<noteq> None" if "b \<in> set (butlast xs) \<union> tc_out ?s" for b
      using that built same(2) unfolding out' by (auto split: if_splits dest: in_set_butlastD)
    have pl: "places_ok (free Q) ((\<lambda>t. cached (tc_caches s t))(t := butlast xs)) (tc_out ?s) (nodes ?P)"
      unfolding out' by (rule places_refill_top [OF ok]) (rule True)
    have full: "places_full (free Q) ((\<lambda>t. cached (tc_caches s t))(t := butlast xs)) (tc_out ?s) (nodes ?P)"
      if "\<not> tc_leaked s"
      unfolding out'(1) by (rule places_full_refill_top) (use i(7) [OF that] True fr in simp_all)
    have "sys_inv p F ?s"
      by (rule tc_inv_update [OF inv, of _ t c']) (use t i(1) Q(1,2,4) same(1) live pl full out'(2) in simp_all)
    with f show ?thesis by simp
  qed
qed

lemma acquire_inv:
  assumes inv: "sys_inv p F s" and BF: "B \<le> F"
  shows "\<exists>s'. tc_do acq rel B F (TcAcquire t p ctors) s = Inr s' \<and> sys_inv p F s'"
  using acquire_cached_inv [OF inv] acquire_refill_inv [OF inv BF] by blast

lemma use_inv:
  assumes inv: "sys_inv p F s" and a: "a \<in> tc_out s"
  shows "sys_inv p F (s\<lparr>tc_heap := (tc_heap s)(a := Some v)\<rparr>)"
proof -
  note i = tc_invD [OF inv]
  have "a \<notin> set (free (tc_pools s p))" using places_okD(2) [OF i(4)] a by blast
  from use_law [OF i(2) this] inv show ?thesis by (auto simp: tc_inv_def)
qed

lemma exit_inv:
  assumes inv: "sys_inv p F s"
  shows "sys_inv p F (s\<lparr>tc_caches := (tc_caches s)(t := fresh_cache F),
    tc_leaked := (tc_leaked s \<or> tc_count (tc_caches s t) \<noteq> 0)\<rparr>)" (is "sys_inv p F ?s")
proof (rule tc_inv_update [OF inv, of _ t "fresh_cache F"])
  note i = tc_invD [OF inv]
  show "places_ok (free (tc_pools ?s p)) ((\<lambda>t. cached (tc_caches s t))(t := cached (fresh_cache F)))
      (tc_out ?s) (nodes (tc_pools ?s p))"
    using places_drop_cache [OF i(4), of t] by (simp add: fresh_cache_ok)
  assume "\<not> tc_leaked ?s"
  then have "\<not> tc_leaked s" "cached (tc_caches s t) = []" using cached_empty [OF i(3)] by auto
  then show "places_full (free (tc_pools ?s p)) ((\<lambda>t. cached (tc_caches s t))(t := cached (fresh_cache F)))
      (tc_out ?s) (nodes (tc_pools ?s p))"
    by (auto intro!: places_full_move [OF i(7)])
qed (use tc_invD [OF inv] in \<open>auto simp: fresh_cache_ok\<close>)

text \<open>A program that uses one pool of the type has no fault, and keeps the invariant.\<close>

lemma tc_step_inv:
  assumes "2 \<le> F" and "B \<le> F" and "sys_inv p F s" and "tc_step acq rel B F {p} s s'"
  shows "sys_inv p F s'"
  using assms(4)
proof (rule tc_stepE)
  fix a assume a: "s' = tc_result s (tc_do acq rel B F a s)" "tc_allowed {p} a s"
  show "sys_inv p F s'"
  proof (cases a)
    case (TcAcquire t i ctors)
    with a acquire_inv [OF assms(3,2), where t = t and ctors = ctors] show ?thesis by auto
  next
    case (TcRelease t i b)
    with a release_inv [OF assms(3,1), where a = b and t = t and B = B] show ?thesis by auto
  next
    case (TcFlush t i)
    with a flush_inv [OF assms(3), where t = t and B = B] show ?thesis by auto
  next
    case (TcUse b v)
    with a use_inv [OF assms(3), of b v] show ?thesis by simp
  next
    case (TcExit t)
    with a exit_inv [OF assms(3), of t] show ?thesis by simp
  qed
qed

end

section \<open>Programs\<close>

text \<open>At the start every pool is new, with the number of the pool for its block.\<close>

definition tc_init :: "size_t \<Rightarrow> (nat \<Rightarrow> size_t) \<Rightarrow> (pool, 'a) tc_sys \<Rightarrow> bool" where
  "tc_init F sizes s \<longleftrightarrow>
     (\<forall>i. pool_new i (sizes i) = Inr (tc_pools s i)) \<and> tc_caches s = (\<lambda>_. fresh_cache F) \<and>
     tc_heap s = (\<lambda>_. None) \<and> tc_out s = {} \<and> \<not> tc_leaked s \<and> tc_fault s = None"

abbreviation tc_program :: "size_t \<Rightarrow> size_t \<Rightarrow> nat set \<Rightarrow> (pool, 'a) tc_sys \<Rightarrow> (pool, 'a) tc_sys \<Rightarrow> bool" where
  "tc_program \<equiv> tc_step pool_acquire_batch pool_release_batch"

abbreviation tc_pool_inv :: "nat \<Rightarrow> size_t \<Rightarrow> (pool, 'a) tc_sys \<Rightarrow> bool" where
  "tc_pool_inv \<equiv> tc_inv pool_inv pool_free pool_nodes"

lemma tc_init_inv:
  assumes "tc_init F sizes s"
  shows "tc_pool_inv p F s"
proof -
  note i = assms [unfolded tc_init_def]
  then have "pool_new p (sizes p) = Inr (tc_pools s p)" by blast
  note new = pool_new_spec [OF this]
  with i pool_shapeD(6) [OF new(1)] show ?thesis
    by (simp add: tc_inv_def fresh_cache_ok pool_inv_def places_ok_def places_full_def)
qed

interpretation tc_run: invariant_system "\<lambda>s. 2 \<le> F \<and> B \<le> F \<and> tc_init F sizes s" "tc_program B F {p}"
  "\<lambda>s. 2 \<le> F \<and> B \<le> F \<and> tc_pool_inv p F s"
  using tc_init_inv global.tc_step_inv by unfold_locales blast+

abbreviation tc_reach :: "size_t \<Rightarrow> size_t \<Rightarrow> nat set \<Rightarrow> (nat \<Rightarrow> size_t) \<Rightarrow> (pool, 'a) tc_sys \<Rightarrow> bool" where
  "tc_reach B F I sizes \<equiv> reach (tc_init F sizes) (tc_program B F I)"

lemma tc_reach_inv: "2 \<le> F \<Longrightarrow> B \<le> F \<Longrightarrow> tc_reach B F {p} sizes s \<Longrightarrow> tc_pool_inv p F s"
  using tc_run.reach_inv [of F B sizes p s] by simp

fun tc_sched ::
  "size_t \<Rightarrow> size_t \<Rightarrow> nat set \<Rightarrow> 'a tc_action list \<Rightarrow> (pool, 'a) tc_sys \<Rightarrow> (pool, 'a) tc_sys option" where
  "tc_sched B F I [] s = Some s"
| "tc_sched B F I (a # as) s =
     (if tc_fault s = None \<and> tc_allowed I a s
      then tc_sched B F I as (tc_result s (tc_do pool_acquire_batch pool_release_batch B F a s)) else None)"

lemma tc_sched_reach: "tc_reach B F I sizes s \<Longrightarrow> tc_sched B F I as s = Some t \<Longrightarrow> tc_reach B F I sizes t"
proof (induction as arbitrary: s)
  case (Cons a as)
  from Cons.prems(2) have ok: "tc_fault s = None" "tc_allowed I a s"
    and rest: "tc_sched B F I as (tc_result s (tc_do pool_acquire_batch pool_release_batch B F a s)) = Some t"
    by (simp_all split: if_splits)
  from reach.reach_step [OF Cons.prems(1) tc_step.intros [OF ok]] rest show ?case by (rule Cons.IH)
qed simp

text \<open>A batch larger than the array of the caller.\<close>

lemma copy_range_Inl: "copy_range dst d src k n = Inl e \<Longrightarrow> e = OutOfBounds"
  by (simp add: copy_range_def split: if_splits)

lemma copy_range_length: "copy_range dst d src k n = Inr dst' \<Longrightarrow> length dst' = length dst"
  by (auto simp: copy_range_def split: if_splits)

lemma copy_range_overflow: "length dst < d + n \<Longrightarrow> copy_range dst d src k n = Inl OutOfBounds"
  by (simp add: copy_range_def)

lemma pool_batch_overflow:
  assumes "length out < unat (min m (pl_count P))"
  shows "pool_acquire_batch ctors out m P h = Inl OutOfBounds"
proof -
  let ?n = "min m (pl_count P)" and ?f = "pl_size P - pl_head P"
  have n0: "?n \<noteq> 0" using assms by (metis gr_implies_not0 unat_0)
  have "(if pl_head P + ?n \<le> pl_size P
      then copy_range out 0 (pl_avail P) (unat (pl_head P)) (unat ?n)
      else let firstPart = ?f
        in res_bind (copy_range out 0 (pl_avail P) (unat (pl_head P)) (unat firstPart))
             (\<lambda>out'. copy_range out' (unat firstPart) (pl_avail P) 0 (unat (?n - firstPart)))) = Inl OutOfBounds"
  proof (cases "pl_head P + ?n \<le> pl_size P")
    case True
    with assms show ?thesis by (simp add: copy_range_overflow)
  next
    case False
    have "unat ?n \<le> unat ?f + unat (?n - ?f)"
    proof (cases "?f \<le> ?n")
      case True
      then show ?thesis by (simp add: unat_sub word_le_nat_alt)
    qed (simp add: word_le_nat_alt)
    with assms have big: "length out < unat ?f + unat (?n - ?f)" by linarith
    show ?thesis
    proof (cases "copy_range out 0 (pl_avail P) (unat (pl_head P)) (unat ?f)")
      case (Inl e)
      with False copy_range_Inl [OF Inl] show ?thesis by (simp add: Let_def)
    next
      case (Inr out')
      from copy_range_overflow [of out' "unat ?f" "unat (?n - ?f)"] copy_range_length [OF Inr] big False Inr
      show ?thesis by (simp add: Let_def)
    qed
  qed
  with n0 show ?thesis unfolding pool_acquire_batch_def pool_copy_out_def by (simp only: Let_def if_False res_bind_simps)
qed

section \<open>An example\<close>

text \<open>Pools of four nodes, caches of two pointers.\<close>

definition tc_start :: "(pool, nat) tc_sys" where
  "tc_start =
     \<lparr>tc_pools = (\<lambda>i. \<lparr>pl_block = i, pl_size = 4, pl_avail = [Some (i, 0), Some (i, 1), Some (i, 2), Some (i, 3)],
                        pl_head = 0, pl_count = 4\<rparr>),
      tc_caches = (\<lambda>_. fresh_cache 2), tc_heap = (\<lambda>_. None), tc_out = {}, tc_leaked = False, tc_fault = None\<rparr>"

lemma tc_start_init: "tc_reach B 2 I (\<lambda>_. 3) tc_start"
  by (rule reach.reach_init) (simp add: tc_init_def tc_start_def pool_new_def round_up_three upt_rec)

lemmas tc_eval = tc_start_def fresh_cache_def tc_set_def cache_acquire_def cache_take_def cache_release_def cache_put_def
  cache_flush_def flush_half_def pool_acquire_batch_def pool_copy_out_def pool_release_batch_def pool_copy_in_def copy_range_def Let_def



text \<open>Thread 0 acquires from pool 0: it keeps a node in its cache and hands one out.\<close>

lemma tc_one_acquired:
  obtains s :: "(pool, nat) tc_sys"
  where "tc_reach 2 2 {0} (\<lambda>_. 3) s" "tc_out s = {(0, 1)}" "cached (tc_caches s 0) = [(0, 0)]"
    "tc_heap s (0, 1) = Some 1" "cached (tc_caches s 1) = []" "pool_free (tc_pools s 0) = [(0, 2), (0, 3)]"
proof -
  have "\<exists>s. tc_sched 2 2 {0} [TcAcquire 0 0 Some] tc_start = Some s \<and> tc_out s = {(0, 1)} \<and>
      cached (tc_caches s 0) = [(0, 0)] \<and> tc_heap s (0, 1) = Some 1 \<and> cached (tc_caches s 1) = [] \<and>
      pool_free (tc_pools s 0) = [(0, 2), (0, 3)]"
    by (simp add: tc_eval min_def cached_def pool_free_def ring_list_def upt_rec)
  then show ?thesis by (elim exE conjE) (rule that [OF tc_sched_reach [OF tc_start_init]])
qed

section \<open>Properties\<close>

text \<open>
  C30: A program whose threads acquire, release and flush through one pool of the type, in any
  order, never leaves the arrays and never reads a dead object: the free nodes of the pool,
  the nodes in the caches of the threads and the nodes handed out are all different, so no
  node is handed out twice; the ones outside the pool hold live objects, the free ones do
  not; and as long as no constructor has thrown and no thread has ended with a filled cache,
  together they are all the nodes of the pool. The template parameters must satisfy
  \<open>BatchSize \<le> CacheFlushThreshold\<close> and \<open>2 \<le> CacheFlushThreshold\<close>.
\<close>

theorem tc_conserves:
  assumes "2 \<le> F" and "B \<le> F" and "tc_reach B F {p} sizes s"
  shows "tc_fault s = None \<and>
    places_ok (pool_free (tc_pools s p)) (\<lambda>t. cached (tc_caches s t)) (tc_out s) (pool_nodes (tc_pools s p)) \<and>
    (\<forall>a. (a \<in> tc_out s \<or> (\<exists>t. a \<in> set (cached (tc_caches s t))) \<longrightarrow> tc_heap s a \<noteq> None) \<and>
       (a \<in> set (pool_free (tc_pools s p)) \<longrightarrow> tc_heap s a = None)) \<and>
    (tc_leaked s \<or>
     places_full (pool_free (tc_pools s p)) (\<lambda>t. cached (tc_caches s t)) (tc_out s) (pool_nodes (tc_pools s p)))"
proof -
  note i = tc_invD [OF tc_reach_inv [OF assms]]
  show ?thesis using i(1,4,5,6,7) pool_invD(2) [OF i(2)] by blast
qed

theorem tc_conserves_witness:
  "\<exists>s. tc_reach 2 2 {0} (\<lambda>_. 3) s \<and> tc_out s = {(0, 1)} \<and> tc_heap s (0, 1) = Some (1 :: nat) \<and>
    (0, 1) \<notin> set (pool_free (tc_pools s 0)) \<and> tc_fault s = None"
proof -
  obtain s :: "(pool, nat) tc_sys" where
    s: "tc_reach 2 2 {0} (\<lambda>_. 3) s" "tc_out s = {(0, 1)}" "tc_heap s (0, 1) = Some 1"
    by (rule tc_one_acquired)
  from tc_conserves [OF _ _ s(1)] s show ?thesis by fastforce
qed

text \<open>
  \<open>acquire\<close> takes the last pointer of the cache of its thread, without a constructor; if the
  cache is empty it first moves up to \<open>BatchSize\<close> of the free nodes of the pool to it and
  constructs an object in every one of them, from the same arguments. It returns null exactly
  if the cache is empty and no node is free, whatever the other threads have in their
  caches.
\<close>

lemma tc_acquire_result:
  assumes "2 \<le> F" and "B \<le> F" and "tc_reach B F {p} sizes s"
  shows "let own = cached (tc_caches s t); batch = take (unat B) (pool_free (tc_pools s p)) in
    \<exists>r c Q h. cache_acquire pool_acquire_batch B ctors (tc_caches s t) (tc_pools s p) (tc_heap s) = Inr (r, c, Q, h) \<and>
      (own \<noteq> [] \<longrightarrow> r = Returned (Some (last own)) \<and> cached c = butlast own \<and> Q = tc_pools s p \<and> h = tc_heap s) \<and>
      (own = [] \<and> (\<forall>i. ctors i \<noteq> None) \<longrightarrow>
         r = Returned (if batch = [] then None else Some (last batch)) \<and> cached c = butlast batch \<and>
         pool_free Q = drop (unat B) (pool_free (tc_pools s p)) \<and>
         (\<forall>i<length batch. h (batch ! i) = ctors i))"
proof -
  note i = tc_invD [OF tc_reach_inv [OF assms]]
  show ?thesis
  proof (cases "cached (tc_caches s t) = []")
    case False
    with global.acquire_cached [OF i(3) False, where B = B and ctors = ctors and P = "tc_pools s p" and h = "tc_heap s"]
    show ?thesis unfolding Let_def by blast
  next
    case True
    from global.acquire_refill [OF i(2,3) True assms(2), where ctors = ctors] obtain r c Q h where
      "cache_acquire pool_acquire_batch B ctors (tc_caches s t) (tc_pools s p) (tc_heap s) = Inr (r, c, Q, h)"
      "pool_free Q = drop (unat B) (pool_free (tc_pools s p))"
      "r = Threw \<and> cached c = [] \<and> (\<exists>i<length (take (unat B) (pool_free (tc_pools s p))). ctors i = None) \<or>
       r = Returned (if take (unat B) (pool_free (tc_pools s p)) = [] then None
                     else Some (last (take (unat B) (pool_free (tc_pools s p))))) \<and>
       cached c = butlast (take (unat B) (pool_free (tc_pools s p))) \<and>
       (\<forall>i<length (take (unat B) (pool_free (tc_pools s p))).
          ctors i \<noteq> None \<and> h (take (unat B) (pool_free (tc_pools s p)) ! i) = ctors i)"
      by (elim exE conjE) (rule that)
    with True show ?thesis unfolding Let_def by blast
  qed
qed

lemma tc_acquire_result_example:
  "\<exists>s r c Q h. tc_reach 2 2 {0} (\<lambda>_. 3) s \<and>
     cache_acquire pool_acquire_batch 2 (Some :: nat \<Rightarrow> nat option) (tc_caches s 1) (tc_pools s 0) (tc_heap s) = Inr (r, c, Q, h) \<and>
     r = Returned (Some (0, 3)) \<and> cached c = [(0, 2)]"
proof -
  obtain s :: "(pool, nat) tc_sys" where
    s: "tc_reach 2 2 {0} (\<lambda>_. 3) s" "cached (tc_caches s 1) = []" "pool_free (tc_pools s 0) = [(0, 2), (0, 3)]"
    by (rule tc_one_acquired)
  from tc_acquire_result [OF _ _ s(1), of 1 Some] s show ?thesis by fastforce
qed

text \<open>
  C33: An object goes round a cache unchanged: what a thread releases it gets back from its next
  \<open>acquire\<close>, whatever arguments it passes; the old object is still alive there and has the
  value it was released with. No destructor and no constructor has run.
\<close>

theorem tc_recycles:
  assumes "2 \<le> F" and "B \<le> F" and "tc_reach B F {p} sizes s" and "a \<in> tc_out s"
  shows "\<exists>c Q h. cache_release pool_release_batch F (Some a) (tc_caches s t) (tc_pools s p) (tc_heap s) = Inr (c, Q, h) \<and>
    (\<forall>ctors. \<exists>c'. cache_acquire pool_acquire_batch B ctors c Q h = Inr (Returned (Some a), c', Q, h)) \<and>
    h a = tc_heap s a \<and> h a \<noteq> None"
proof -
  note i = tc_invD [OF tc_reach_inv [OF assms(1-3)]]
  note pl = places_cacheD [OF i(4), of t]
  have al: "\<forall>b\<in>set (cached (tc_caches s t)). tc_heap s b \<noteq> None" using i(5) by blast
  let ?ys = "drop (keeps F (tc_caches s t)) (cached (tc_caches s t))"
  from global.release_spec [OF i(2,3) pl(1,4) al assms(1), where a = a] obtain c Q where
    rel: "cache_release pool_release_batch F (Some a) (tc_caches s t) (tc_pools s p) (tc_heap s) =
      Inr (c, Q, heap_clear (set ?ys) (tc_heap s))"
    and c: "cache_ok F c" "cached c = take (keeps F (tc_caches s t)) (cached (tc_caches s t)) @ [a]"
    by (elim exE conjE) (rule that)
  have "a \<notin> set ?ys" using pl(3) assms(4) set_drop_subset by fastforce
  then have "heap_clear (set ?ys) (tc_heap s) a = tc_heap s a" by (simp add: heap_clear_def)
  moreover have "\<exists>c'. cache_acquire pool_acquire_batch B ctors c Q (heap_clear (set ?ys) (tc_heap s)) =
      Inr (Returned (Some a), c', Q, heap_clear (set ?ys) (tc_heap s))" for ctors
    using global.acquire_cached [OF c(1), where B = B and ctors = ctors and P = Q] c(2) by fastforce
  ultimately show ?thesis using rel i(6) [OF assms(4)] by auto
qed

theorem tc_recycles_witness:
  "\<exists>s c Q h. tc_reach 2 2 {0} (\<lambda>_. 3) s \<and> tc_heap s (0, 1) = Some (1 :: nat) \<and>
     cache_release pool_release_batch 2 (Some (0, 1)) (tc_caches s 0) (tc_pools s 0) (tc_heap s) = Inr (c, Q, h) \<and>
     (\<exists>c'. cache_acquire pool_acquire_batch 2 (\<lambda>_. Some 7) c Q h = Inr (Returned (Some (0, 1)), c', Q, h)) \<and>
     h (0, 1) = Some 1"
proof -
  obtain s :: "(pool, nat) tc_sys" where
    s: "tc_reach 2 2 {0} (\<lambda>_. 3) s" "tc_out s = {(0, 1)}" "tc_heap s (0, 1) = Some 1"
    by (rule tc_one_acquired)
  have "(0, 1) \<in> tc_out s" by (simp add: s(2))
  from tc_recycles [OF _ _ s(1) this, of 0] obtain c Q h where
    r: "cache_release pool_release_batch 2 (Some (0, 1)) (tc_caches s 0) (tc_pools s 0) (tc_heap s) = Inr (c, Q, h)"
      "\<forall>ctors. \<exists>c'. cache_acquire pool_acquire_batch 2 ctors c Q h = Inr (Returned (Some (0, 1)), c', Q, h)"
      "h (0, 1) = tc_heap s (0, 1)" by auto
  from r(2) have "\<exists>c'. cache_acquire pool_acquire_batch 2 (\<lambda>_. Some 7) c Q h = Inr (Returned (Some (0, 1)), c', Q, h)"
    by blast
  with r(1,3) s(1,3) show ?thesis by metis
qed

text \<open>
  The template parameters are not checked, and the bounds of the first property are needed. With
  \<open>CacheFlushThreshold\<close> below 2, half of a full cache is no pointer at all, so \<open>release\<close> on
  it writes past the array. With \<open>BatchSize\<close> above \<open>CacheFlushThreshold\<close>, \<open>acquire\<close> on an
  empty cache copies past the array as soon as the pool has more free nodes than fit.
\<close>

lemma tc_parameters_unchecked:
  fixes ctors :: "nat \<Rightarrow> 'b option"
  shows "(\<forall>F c P (h :: 'a heap). F < 2 \<and> cache_ok F c \<and> tc_count c = F \<longrightarrow>
      cache_release pool_release_batch F obj c P h = Inl OutOfBounds) \<and>
   (\<forall>B F c P (h :: 'b heap). cache_ok F c \<and> cached c = [] \<and> unat F < min (unat B) (length (pool_free P)) \<longrightarrow>
      cache_acquire pool_acquire_batch B ctors c P h = Inl OutOfBounds)"
proof (intro conjI allI impI; elim conjE)
  fix F :: size_t and c P and h :: "'a heap"
  assume F: "F < 2" and c: "cache_ok F c" "tc_count c = F"
  have "unat (F div 2) = 0" using F by (simp add: unat_div word_less_nat_alt)
  then have "F div 2 = 0" by (simp add: unat_eq_0)
  then show "cache_release pool_release_batch F obj c P h = Inl OutOfBounds"
    using c cache_okD(1) [OF c(1)] by (simp add: cache_release_def cache_put_def flush_half_def Let_def)
next
  fix B F :: size_t and c P and h :: "'b heap"
  assume c: "cache_ok F c" "cached c = []" and big: "unat F < min (unat B) (length (pool_free P))"
  have "length (tc_slots c) < unat (min B (pl_count P))"
    using big cache_okD(1) [OF c(1)] by (simp add: min_def word_le_nat_alt split: if_splits)
  from pool_batch_overflow [OF this, of ctors h] cached_empty [OF c(1)] c(2)
  show "cache_acquire pool_acquire_batch B ctors c P h = Inl OutOfBounds"
    by (simp add: cache_acquire_def)
qed

lemma tc_parameters_unchecked_example:
  "cache_acquire pool_acquire_batch 3 (Some :: nat \<Rightarrow> nat option) (fresh_cache 2) pool_four (\<lambda>_. None) = Inl OutOfBounds"
proof -
  have "unat (2 :: size_t) < min (unat (3 :: size_t)) (length (pool_free pool_four))"
    using pool_four_inv(2) by simp
  with tc_parameters_unchecked [THEN conjunct2, rule_format, of 2 "fresh_cache 2" 3 pool_four Some "\<lambda>_. None"] fresh_cache_ok [of 2]
  show ?thesis by blast
qed


end
