(* ===== verification/PoolConcurrent.thy ===== *)
theory PoolConcurrent
  imports Places Mutex
begin

text \<open>
  Any number of threads on one \<open>ObjectPool\<close>, with its mutex. A step is one access or system
  call of the mutex (\<open>Mutex\<close>), the load or the store of the members under the mutex, or
  the construction or destruction of one object. \<open>release\<close> and \<open>release_batch\<close> destroy
  before they lock, \<open>acquire\<close> and \<open>acquire_batch\<close> construct before they unlock.
\<close>

section \<open>Calls\<close>

text \<open>\<open>None\<close> is a constructor that throws. \<open>out\<close> is the array of the caller.\<close>

datatype 'a pool_call =
    CallAcquire "'a option"
  | CallRelease addr
  | CallAcquireBatch "nat \<Rightarrow> 'a option" "ptr list" size_t
  | CallReleaseBatch "addr list"

fun call_nodes :: "'a pool_call \<Rightarrow> addr list" where
  "call_nodes (CallRelease a) = [a]"
| "call_nodes (CallReleaseBatch as) = as"
| "call_nodes _ = []"

fun call_ctor :: "'a pool_call \<Rightarrow> nat \<Rightarrow> 'a option" where
  "call_ctor (CallAcquire ctor) i = ctor"
| "call_ctor (CallAcquireBatch ctors out m) i = ctors i"
| "call_ctor _ i = None"

text \<open>What a call does to the members: the pointers it takes, and the members after it.\<close>

fun member_part :: "'a pool_call \<Rightarrow> pool \<Rightarrow> fault + ptr list \<times> pool" where
  "member_part (CallAcquire ctor) P =
     res_bind (pool_take P) (\<lambda>(taken, P'). Inr (case taken of None \<Rightarrow> [] | Some p \<Rightarrow> [p], P'))"
| "member_part (CallRelease a) P = res_bind (pool_put (Some a) P) (\<lambda>P'. Inr ([], P'))"
| "member_part (CallAcquireBatch ctors out m) P =
     res_bind (pool_copy_out out m P) (\<lambda>(num, out', P'). Inr (take (unat num) out', P'))"
| "member_part (CallReleaseBatch as) P =
     res_bind (pool_copy_in (map Some as) (of_nat (length as)) P) (\<lambda>P'. Inr ([], P'))"

definition members_after :: "'a pool_call \<Rightarrow> pool \<Rightarrow> pool" where
  "members_after c P = (case member_part c P of Inl e \<Rightarrow> P | Inr (ps, P') \<Rightarrow> P')"

section \<open>Threads and the system\<close>

datatype 'a pool_pc =
    A_Idle
  | A_Destroy "ptr list" "'a pool_call"   \<comment> \<open>objects still to destroy, then lock\<close>
  | A_Lock "'a pool_call"                 \<comment> \<open>in \<open>scoped_lock\<close>, and on to the members\<close>
  | A_Build "'a pool_call" nat "ptr list" "ptr list"
      \<comment> \<open>number of the next construction, objects built, nodes still to build in\<close>
  | A_Unlock "ptr list outcome"           \<comment> \<open>leaving the scope\<close>

text \<open>
  \<open>pr_mx\<close> has the mutex, and as its protected data the members of the pool. \<open>pr_out\<close> are the
  nodes the clients hold. \<open>pr_log\<close> is auxiliary: the calls in the order of their stores to
  the members, with the nodes they took, the latest first.
\<close>

record ('a, 'k) pool_run =
  pr_mx :: "(pool, 'k) mutex_sys"
  pr_heap :: "'a heap"
  pr_pc :: "nat \<Rightarrow> 'a pool_pc"
  pr_res :: "nat \<Rightarrow> ptr list outcome option"
  pr_out :: "addr set"
  pr_leaked :: bool
  pr_log :: "(nat \<times> 'a pool_call \<times> addr list) list"
  pr_fault :: "fault option"

definition pool_goto :: "nat \<Rightarrow> 'a pool_pc \<Rightarrow> ('a, 'k) pool_run \<Rightarrow> ('a, 'k) pool_run" where
  "pool_goto t l r = r\<lparr>pr_pc := (pr_pc r)(t := l)\<rparr>"

definition with_mutex ::
  "(pool, 'k) mutex_sys option \<Rightarrow> ('a, 'k) pool_run \<Rightarrow> ('a, 'k) pool_run option" where
  "with_mutex so r = map_option (\<lambda>s. r\<lparr>pr_mx := s\<rparr>) so"

section \<open>Steps\<close>

text \<open>The members, under the mutex: all of them are loaded, and then stored.\<close>

fun member_access ::
  "'k futex \<Rightarrow> nat \<Rightarrow> 'a pool_call \<Rightarrow> pool lock_pc \<Rightarrow> ('a, 'k) pool_run \<Rightarrow> ('a, 'k) pool_run option" where
  "member_access fx t c L_Critical r = with_mutex (mutex_act fx (Update t id) (pr_mx r)) r"
| "member_access fx t c (L_Loaded P) r =
     (case member_part c P of
        Inl e \<Rightarrow> Some (r\<lparr>pr_fault := Some e\<rparr>)
      | Inr (ps, P') \<Rightarrow>
          with_mutex (mutex_act fx (Update t (members_after c)) (pr_mx r))
            (pool_goto t (A_Build c 0 [] ps) (r\<lparr>pr_log := (t, c, map the ps) # pr_log r\<rparr>)))"
| "member_access fx t c _ r = None"

fun handed_out :: "ptr list outcome \<Rightarrow> addr set" where
  "handed_out (Returned ps) = set (map the ps)"
| "handed_out Threw = {}"

fun pool_access ::
  "'k futex \<Rightarrow> nat \<Rightarrow> 'a pool_pc \<Rightarrow> ('a, 'k) pool_run \<Rightarrow> ('a, 'k) pool_run option" where
  "pool_access fx t A_Idle r = None"
| "pool_access fx t (A_Destroy (p # ps) c) r =
     (case heap_delete p (pr_heap r) of
        Inl e \<Rightarrow> Some (r\<lparr>pr_fault := Some e\<rparr>)
      | Inr h \<Rightarrow> Some (pool_goto t (A_Destroy ps c) (r\<lparr>pr_heap := h\<rparr>)))"
| "pool_access fx t (A_Destroy [] c) r =
     with_mutex (mutex_act fx (CallLock t) (pr_mx r)) (pool_goto t (A_Lock c) r)"
| "pool_access fx t (A_Lock c) r = member_access fx t c (t_pc (threads (pr_mx r) t)) r"
| "pool_access fx t (A_Build c i built (p # ps)) r =
     (case call_ctor c i of
        None \<Rightarrow> Some (pool_goto t (A_Unlock Threw) (r\<lparr>pr_leaked := True\<rparr>))
      | Some v \<Rightarrow>
          (case heap_new p v (pr_heap r) of
             Inl e \<Rightarrow> Some (r\<lparr>pr_fault := Some e\<rparr>)
           | Inr h \<Rightarrow> Some (pool_goto t (A_Build c (i + 1) (built @ [p]) ps) (r\<lparr>pr_heap := h\<rparr>))))"
| "pool_access fx t (A_Build c i built []) r = Some (pool_goto t (A_Unlock (Returned built)) r)"
| "pool_access fx t (A_Unlock res) r =
     with_mutex (mutex_act fx (CallUnlock t) (pr_mx r))
       (pool_goto t A_Idle (r\<lparr>pr_res := (pr_res r)(t := Some res), pr_out := pr_out r \<union> handed_out res\<rparr>))"

datatype 'a pool_action =
    PoolCall nat "'a pool_call"
  | PoolStep nat
  | PoolMutex "pool mutex_action"   \<comment> \<open>an access or system call of \<open>lock\<close> or \<open>unlock\<close>, or a signal\<close>
  | PoolUse addr 'a                 \<comment> \<open>a client writes to an object it holds\<close>

text \<open>A client releases what it holds, and passes an array that is long enough.\<close>

fun call_allowed :: "'a pool_call \<Rightarrow> addr set \<Rightarrow> bool" where
  "call_allowed (CallAcquireBatch ctors out m) held \<longleftrightarrow> unat m \<le> length out"
| "call_allowed c held \<longleftrightarrow> distinct (call_nodes c) \<and> set (call_nodes c) \<subseteq> held"

fun mutex_internal :: "pool mutex_action \<Rightarrow> bool" where
  "mutex_internal (Interrupt t) = True"
| "mutex_internal a = is_access a"

text \<open>\<open>release_batch\<close> of no objects returns at once.\<close>

fun is_empty_batch :: "'a pool_call \<Rightarrow> bool" where
  "is_empty_batch (CallReleaseBatch as) = (as = [])"
| "is_empty_batch _ = False"

fun pool_do :: "'k futex \<Rightarrow> 'a pool_action \<Rightarrow> ('a, 'k) pool_run \<Rightarrow> ('a, 'k) pool_run option" where
  "pool_do fx (PoolCall t c) r =
     (if pr_pc r t = A_Idle \<and> call_allowed c (pr_out r) then
        Some (if is_empty_batch c then r\<lparr>pr_res := (pr_res r)(t := None)\<rparr>
              else pool_goto t (A_Destroy (map Some (call_nodes c)) c)
                     (r\<lparr>pr_res := (pr_res r)(t := None), pr_out := pr_out r - set (call_nodes c)\<rparr>))
      else None)"
| "pool_do fx (PoolStep t) r = pool_access fx t (pr_pc r t) r"
| "pool_do fx (PoolMutex a) r =
     (if mutex_internal a then with_mutex (mutex_act fx a (pr_mx r)) r else None)"
| "pool_do fx (PoolUse a v) r =
     (if a \<in> pr_out r then Some (r\<lparr>pr_heap := (pr_heap r)(a := Some v)\<rparr>) else None)"

definition pool_act :: "'k futex \<Rightarrow> 'a pool_action \<Rightarrow> ('a, 'k) pool_run \<Rightarrow> ('a, 'k) pool_run option" where
  "pool_act fx a r = (if pr_fault r = None then pool_do fx a r else None)"

inductive pool_step :: "'k futex \<Rightarrow> ('a, 'k) pool_run \<Rightarrow> ('a, 'k) pool_run \<Rightarrow> bool"
  for fx :: "'k futex" where
  "pool_act fx a r = Some r' \<Longrightarrow> pool_step fx r r'"

inductive_cases pool_stepE: "pool_step fx r r'"

definition pool_run_init :: "'k futex \<Rightarrow> pool \<Rightarrow> ('a, 'k) pool_run \<Rightarrow> bool" where
  "pool_run_init fx P r \<longleftrightarrow> (\<exists>blk n. pool_new blk n = Inr P) \<and> mutex_init fx P (pr_mx r) \<and>
     pr_heap r = (\<lambda>_. None) \<and> pr_pc r = (\<lambda>_. A_Idle) \<and> pr_res r = (\<lambda>_. None) \<and> pr_out r = {} \<and>
     \<not> pr_leaked r \<and> pr_log r = [] \<and> pr_fault r = None"

abbreviation pool_reach :: "'k futex \<Rightarrow> pool \<Rightarrow> ('a, 'k) pool_run \<Rightarrow> bool" where
  "pool_reach fx P \<equiv> reach (pool_run_init fx P) (pool_step fx)"

section \<open>The specification: a queue of free nodes\<close>

fun spec_taken :: "'a pool_call \<Rightarrow> addr list \<Rightarrow> addr list" where
  "spec_taken (CallAcquire ctor) fs = take 1 fs"
| "spec_taken (CallAcquireBatch ctors out m) fs = take (unat m) fs"
| "spec_taken _ fs = []"

definition spec_left :: "'a pool_call \<Rightarrow> addr list \<Rightarrow> addr list" where
  "spec_left c fs = drop (length (spec_taken c fs)) fs @ call_nodes c"

text \<open>A log, executed: \<open>None\<close> if a call did not take what the specification gives it.\<close>

fun spec_replay :: "addr list \<Rightarrow> (nat \<times> 'a pool_call \<times> addr list) list \<Rightarrow> addr list option" where
  "spec_replay fs [] = Some fs"
| "spec_replay fs ((t, c, as) # l) =
     (case spec_replay fs l of
        None \<Rightarrow> None
      | Some gs \<Rightarrow> if as = spec_taken c gs then Some (spec_left c gs) else None)"

section \<open>The part on the members implements the specification\<close>

fun call_fits :: "'a pool_call \<Rightarrow> bool" where
  "call_fits (CallAcquireBatch ctors out m) \<longleftrightarrow> unat m \<le> length out"
| "call_fits _ \<longleftrightarrow> True"

lemma spec_taken_append: "spec_taken c fs @ drop (length (spec_taken c fs)) fs = fs"
  by (cases c) (simp_all add: min_def)

lemma unat_min: "unat (min a b :: size_t) = min (unat a) (unat b)"
  by (simp add: min_def word_le_nat_alt)

lemma member_part_spec:
  assumes shape: "pool_shape P" and fits: "call_fits c"
    and as: "distinct (call_nodes c)" "set (call_nodes c) \<subseteq> pool_nodes P"
      "set (call_nodes c) \<inter> set (pool_free P) = {}"
  shows "\<exists>Q. member_part c P = Inr (map Some (spec_taken c (pool_free P)), Q) \<and> pool_shape Q \<and>
    pool_free Q = spec_left c (pool_free P) \<and> pool_nodes Q = pool_nodes P"
proof (cases c)
  case (CallAcquire ctor)
  show ?thesis
  proof (cases "pool_free P")
    case Nil
    with CallAcquire shape pool_take_spec [OF shape] show ?thesis by (simp add: spec_left_def)
  next
    case (Cons a fs)
    then have "0 < unat (pl_count P)" by (metis length_pool_free length_greater_0_conv list.discI)
    then have "1 \<le> pl_count P" by (simp add: word_le_nat_alt)
    from pool_drop_spec [OF shape this] Cons CallAcquire pool_take_spec [OF shape] show ?thesis
      by (simp add: spec_left_def)
  qed
next
  case (CallRelease a)
  with as have "a \<in> pool_nodes P" "a \<notin> set (pool_free P)" by auto
  from pool_put_spec [OF shape this] CallRelease show ?thesis by (auto simp: spec_left_def)
next
  case (CallAcquireBatch ctors out m)
  let ?num = "min m (pl_count P)"
  have out: "unat ?num \<le> length out" using fits CallAcquireBatch by (simp add: unat_min)
  have le: "?num \<le> pl_count P" by simp
  have tk: "take (unat ?num) (pool_free P) = spec_taken c (pool_free P)"
    using take_take [of "unat m" "length (pool_free P)" "pool_free P"]
    by (simp add: CallAcquireBatch unat_min)
  have len: "length (take (unat ?num) (pool_free P)) = unat ?num" by (simp add: unat_min)
  have left: "spec_left c (pool_free P) = drop (unat ?num) (pool_free P)"
    unfolding spec_left_def tk [symmetric] len by (simp add: CallAcquireBatch)
  have part: "member_part c P =
      Inr (take (unat ?num) (map Some (take (unat ?num) (pool_free P)) @ drop (unat ?num) out), pool_drop ?num P)"
    unfolding CallAcquireBatch member_part.simps pool_copy_out_spec [OF shape out] by simp
  have "member_part c P = Inr (map Some (take (unat ?num) (pool_free P)), pool_drop ?num P)"
    unfolding part using len by simp
  with pool_drop_spec [OF shape le] show ?thesis unfolding left tk by simp
next
  case (CallReleaseBatch xs)
  have "length xs \<le> unat (pl_size P)"
    using pool_room [OF shape as(2,1,3)] CallReleaseBatch by simp
  then have "length xs < 2 ^ 64" using pow2_size_max [OF pool_shapeD(1) [OF shape]] by simp
  then have n: "unat (of_nat (length xs) :: size_t) = length xs" by (simp add: unat_of_nat take_bit_nat_eq_self)
  have "take (unat (of_nat (length xs) :: size_t)) (map Some xs) = map Some xs" by (simp add: n)
  from pool_copy_in_spec [OF shape this n] as CallReleaseBatch show ?thesis
    by (auto simp: spec_left_def)
qed

section \<open>The invariant\<close>

text \<open>The nodes a thread has on the way between the pool and the clients.\<close>

fun transit :: "'a pool_pc \<Rightarrow> addr list" where
  "transit A_Idle = []"
| "transit (A_Destroy ps c) = call_nodes c"
| "transit (A_Lock c) = call_nodes c"
| "transit (A_Build c i xs ys) = map the (xs @ ys)"
| "transit (A_Unlock (Returned ps)) = map the ps"
| "transit (A_Unlock Threw) = []"

text \<open>Which of them are alive.\<close>

fun transit_ok :: "'a heap \<Rightarrow> 'a pool_pc \<Rightarrow> bool" where
  "transit_ok h A_Idle \<longleftrightarrow> True"
| "transit_ok h (A_Destroy ps c) \<longleftrightarrow> call_fits c \<and>
     (\<exists>xs ys. call_nodes c = xs @ ys \<and> ps = map Some ys \<and> (\<forall>a\<in>set xs. h a = None) \<and> (\<forall>a\<in>set ys. h a \<noteq> None))"
| "transit_ok h (A_Lock c) \<longleftrightarrow> call_fits c \<and> (\<forall>a\<in>set (call_nodes c). h a = None)"
| "transit_ok h (A_Build c i xs ys) \<longleftrightarrow> None \<notin> set (xs @ ys) \<and>
     (\<forall>a\<in>set (map the xs). h a \<noteq> None) \<and> (\<forall>a\<in>set (map the ys). h a = None)"
| "transit_ok h (A_Unlock (Returned ps)) \<longleftrightarrow> None \<notin> set ps \<and> (\<forall>a\<in>set (map the ps). h a \<noteq> None)"
| "transit_ok h (A_Unlock Threw) \<longleftrightarrow> True"

lemma transit_ok_cong:
  assumes "\<forall>a\<in>set (transit l). h' a = None \<longleftrightarrow> h a = None"
  shows "transit_ok h' l \<longleftrightarrow> transit_ok h l"
proof (cases l)
  case (A_Destroy ps c)
  with assms show ?thesis by (auto simp: ball_Un simp del: not_None_eq)
next
  case (A_Unlock res)
  with assms show ?thesis by (cases res) (auto simp del: not_None_eq)
qed (use assms in auto)

text \<open>Where the thread is in its use of the mutex.\<close>

fun mutex_pc_ok :: "'a pool_pc \<Rightarrow> pool lock_pc \<Rightarrow> bool" where
  "mutex_pc_ok A_Idle m \<longleftrightarrow> \<not> in_body m"
| "mutex_pc_ok (A_Destroy ps c) m \<longleftrightarrow> \<not> in_body m"
| "mutex_pc_ok (A_Lock c) m \<longleftrightarrow> in_body m \<and> m \<noteq> L_Try"
| "mutex_pc_ok _ m \<longleftrightarrow> m = L_Critical"

text \<open>The latest entry of a thread is that of its call, once that has been to the members.\<close>

fun logged :: "'a pool_pc \<Rightarrow> ptr list outcome option \<Rightarrow> ('a pool_call \<times> addr list) option \<Rightarrow> bool" where
  "logged A_Idle (Some (Returned ps)) e \<longleftrightarrow> (\<exists>c as. e = Some (c, as) \<and> ps = map Some as)"
| "logged A_Idle _ e \<longleftrightarrow> True"
| "logged (A_Build c i xs ys) res e \<longleftrightarrow> res = None \<and> (\<exists>as. e = Some (c, as) \<and> xs @ ys = map Some as)"
| "logged (A_Unlock (Returned ps)) res e \<longleftrightarrow> res = None \<and> (\<exists>c as. e = Some (c, as) \<and> ps = map Some as)"
| "logged _ res e \<longleftrightarrow> res = None"

abbreviation members :: "('a, 'k) pool_run \<Rightarrow> pool" where
  "members r \<equiv> shared (pr_mx r)"

definition pool_run_inv :: "pool \<Rightarrow> ('a, 'k) pool_run \<Rightarrow> bool" where
  "pool_run_inv P r \<longleftrightarrow>
     mutex_inv P (pr_mx r) \<and> pr_fault r = None \<and>
     pool_shape (members r) \<and> pool_nodes (members r) = pool_nodes P \<and>
     spec_replay (pool_free P) (pr_log r) = Some (pool_free (members r)) \<and>
     places_ok (pool_free (members r)) (\<lambda>t. transit (pr_pc r t)) (pr_out r) (pool_nodes P) \<and>
     (pr_leaked r \<or> places_full (pool_free (members r)) (\<lambda>t. transit (pr_pc r t)) (pr_out r) (pool_nodes P)) \<and>
     (\<forall>a\<in>set (pool_free (members r)). pr_heap r a = None) \<and> (\<forall>a\<in>pr_out r. pr_heap r a \<noteq> None) \<and>
     (\<forall>t. transit_ok (pr_heap r) (pr_pc r t) \<and>
        mutex_pc_ok (pr_pc r t) (t_pc (threads (pr_mx r) t)) \<and>
        logged (pr_pc r t) (pr_res r t) (map_of (pr_log r) t))"

lemma pool_run_invD:
  assumes "pool_run_inv P r"
  shows "mutex_inv P (pr_mx r)" "pr_fault r = None" "pool_shape (members r)" "pool_nodes (members r) = pool_nodes P"
    "spec_replay (pool_free P) (pr_log r) = Some (pool_free (members r))"
    "places_ok (pool_free (members r)) (\<lambda>t. transit (pr_pc r t)) (pr_out r) (pool_nodes P)"
    "pr_leaked r \<or> places_full (pool_free (members r)) (\<lambda>t. transit (pr_pc r t)) (pr_out r) (pool_nodes P)"
    "\<forall>a\<in>set (pool_free (members r)). pr_heap r a = None" "\<forall>a\<in>pr_out r. pr_heap r a \<noteq> None"
    "transit_ok (pr_heap r) (pr_pc r t)" "mutex_pc_ok (pr_pc r t) (t_pc (threads (pr_mx r) t))"
    "logged (pr_pc r t) (pr_res r t) (map_of (pr_log r) t)"
  using assms by (simp_all add: pool_run_inv_def)

text \<open>A step of thread \<open>t\<close>, which changes no object but those it has in transit.\<close>

lemma pool_run_update:
  assumes inv: "pool_run_inv P r"
    and pc: "pr_pc r' = (pr_pc r)(t := l)" and nf: "pr_fault r' = None"
    and heap: "\<forall>a. a \<notin> set (transit (pr_pc r t)) \<longrightarrow> (pr_heap r' a = None \<longleftrightarrow> pr_heap r a = None)"
    and mx: "mutex_inv P (pr_mx r')" "\<forall>u. u \<noteq> t \<longrightarrow> threads (pr_mx r') u = threads (pr_mx r) u"
    and others: "\<forall>u. u \<noteq> t \<longrightarrow> pr_res r' u = pr_res r u \<and> map_of (pr_log r') u = map_of (pr_log r) u"
    and shape: "pool_shape (members r')" "pool_nodes (members r') = pool_nodes P"
    and replay: "spec_replay (pool_free P) (pr_log r') = Some (pool_free (members r'))"
    and places: "places_ok (pool_free (members r')) ((\<lambda>u. transit (pr_pc r u))(t := transit l)) (pr_out r') (pool_nodes P)"
    and full: "\<not> pr_leaked r' \<Longrightarrow>
      places_full (pool_free (members r')) ((\<lambda>u. transit (pr_pc r u))(t := transit l)) (pr_out r') (pool_nodes P)"
    and raw: "\<forall>a\<in>set (pool_free (members r')). pr_heap r' a = None"
    and live: "\<forall>a\<in>pr_out r'. pr_heap r' a \<noteq> None"
    and own: "transit_ok (pr_heap r') l" "mutex_pc_ok l (t_pc (threads (pr_mx r') t))"
      "logged l (pr_res r' t) (map_of (pr_log r') t)"
  shows "pool_run_inv P r'"
proof -
  note i = pool_run_invD [OF inv]
  have tr: "(\<lambda>u. transit (pr_pc r' u)) = (\<lambda>u. transit (pr_pc r u))(t := transit l)" by (auto simp: pc)
  have "transit_ok (pr_heap r') (pr_pc r' u) \<and> mutex_pc_ok (pr_pc r' u) (t_pc (threads (pr_mx r') u)) \<and>
      logged (pr_pc r' u) (pr_res r' u) (map_of (pr_log r') u)" for u
  proof (cases "u = t")
    case False
    have "a \<notin> set (transit (pr_pc r t))" if "a \<in> set (transit (pr_pc r u))" for a
      using places_cachesD [OF i(6) False] that by blast
    then have "\<forall>a\<in>set (transit (pr_pc r u)). pr_heap r' a = None \<longleftrightarrow> pr_heap r a = None" using heap by blast
    from transit_ok_cong [OF this] i(10) [of u] i(11) [of u] i(12) [of u] mx(2) others False
    show ?thesis by (simp add: pc)
  qed (use own in \<open>simp add: pc\<close>)
  with assms show ?thesis unfolding pool_run_inv_def tr by blast
qed

lemma pool_goto_simps [simp]:
  "pr_mx (pool_goto t l r) = pr_mx r" "pr_heap (pool_goto t l r) = pr_heap r"
  "pr_pc (pool_goto t l r) = (pr_pc r)(t := l)" "pr_res (pool_goto t l r) = pr_res r"
  "pr_out (pool_goto t l r) = pr_out r" "pr_leaked (pool_goto t l r) = pr_leaked r"
  "pr_log (pool_goto t l r) = pr_log r" "pr_fault (pool_goto t l r) = pr_fault r"
  by (simp_all add: pool_goto_def)

text \<open>A step that works on the objects only.\<close>

lemma pool_run_local:
  assumes inv: "pool_run_inv P r" and tr: "transit l = transit (pr_pc r t)"
    and heap: "\<forall>a. a \<notin> set (transit (pr_pc r t)) \<longrightarrow> (h a = None \<longleftrightarrow> pr_heap r a = None)"
    and own: "transit_ok h l" "mutex_pc_ok l (t_pc (threads (pr_mx r) t))"
      "logged l (pr_res r t) (map_of (pr_log r) t)"
  shows "pool_run_inv P (pool_goto t l (r\<lparr>pr_heap := h\<rparr>))"
proof (rule pool_run_update [OF inv, of _ t l])
  note i = pool_run_invD [OF inv] and pl = places_cacheD [OF pool_run_invD(6) [OF inv], of t]
  let ?r = "pool_goto t l (r\<lparr>pr_heap := h\<rparr>)"
  have C: "(\<lambda>u. transit (pr_pc r u))(t := transit l) = (\<lambda>u. transit (pr_pc r u))" using tr by auto
  show "places_ok (pool_free (members ?r)) ((\<lambda>u. transit (pr_pc r u))(t := transit l)) (pr_out ?r) (pool_nodes P)"
    unfolding C using i(6) by simp
  show "\<not> pr_leaked ?r \<Longrightarrow>
      places_full (pool_free (members ?r)) ((\<lambda>u. transit (pr_pc r u))(t := transit l)) (pr_out ?r) (pool_nodes P)"
    unfolding C using i(7) by simp
  have same: "h a = None \<longleftrightarrow> pr_heap r a = None" if "a \<in> set (pool_free (members r)) \<union> pr_out r" for a
    using that pl(2,3) heap by (metis Un_iff disjoint_iff)
  show "\<forall>a\<in>set (pool_free (members ?r)). pr_heap ?r a = None" using i(8) same by simp
  show "\<forall>a\<in>pr_out ?r. pr_heap ?r a \<noteq> None" using i(9) same by (simp del: not_None_eq)
qed (use pool_run_invD(1-5) [OF inv] heap own in simp_all)

lemma with_mutexE:
  assumes "with_mutex (mutex_act fx a m) r = Some r'"
  obtains m' where "mutex_do fx a m = Some m'" "mutex_act fx a m = Some m'" "r' = r\<lparr>pr_mx := m'\<rparr>"
  using assms by (auto simp: with_mutex_def mutex_act_def split: if_splits)

text \<open>A step that works on the mutex only.\<close>

lemma pool_run_mutex:
  assumes inv: "pool_run_inv P r" and act: "mutex_act fx a (pr_mx r) = Some m" and nu: "\<not> is_update a"
    and t: "actor a = t" and tr: "transit l = transit (pr_pc r t)"
    and own: "transit_ok (pr_heap r) l" "mutex_pc_ok l (t_pc (threads m t))"
      "logged l (pr_res r t) (map_of (pr_log r) t)"
  shows "pool_run_inv P (pool_goto t l (r\<lparr>pr_mx := m\<rparr>))"
proof (rule pool_run_update [OF inv, of _ t l])
  note i = pool_run_invD [OF inv]
  let ?r = "pool_goto t l (r\<lparr>pr_mx := m\<rparr>)"
  have do: "mutex_do fx a (pr_mx r) = Some m" using act by (simp add: mutex_act_def split: if_splits)
  have sh: "shared m = members r" by (rule mutex_do_shared [OF i(1) do nu])
  have C: "(\<lambda>u. transit (pr_pc r u))(t := transit l) = (\<lambda>u. transit (pr_pc r u))" using tr by auto
  show "mutex_inv P (pr_mx ?r)" using mutex_act_inv [OF i(1) act] by simp
  show "\<forall>u. u \<noteq> t \<longrightarrow> threads (pr_mx ?r) u = threads (pr_mx r) u" using mutex_do_others [OF do] t by simp
  show "places_ok (pool_free (members ?r)) ((\<lambda>u. transit (pr_pc r u))(t := transit l)) (pr_out ?r) (pool_nodes P)"
    unfolding C using i(6) sh by simp
  show "\<not> pr_leaked ?r \<Longrightarrow>
      places_full (pool_free (members ?r)) ((\<lambda>u. transit (pr_pc r u))(t := transit l)) (pr_out ?r) (pool_nodes P)"
    unfolding C using i(7) sh by simp
  show "pool_shape (members ?r)" "pool_nodes (members ?r) = pool_nodes P" using i(3,4) sh by simp_all
  show "spec_replay (pool_free P) (pr_log ?r) = Some (pool_free (members ?r))"
    "\<forall>a\<in>set (pool_free (members ?r)). pr_heap ?r a = None" using i(5,8) sh by simp_all
qed (use pool_run_invD(2,9) [OF inv] own in simp_all)

text \<open>An access of the mutex, or a signal, by or to a thread in any phase.\<close>

lemma pool_mutex_inv:
  assumes inv: "pool_run_inv P r" and a: "mutex_internal a" and act: "mutex_act fx a (pr_mx r) = Some m"
  shows "pool_run_inv P (r\<lparr>pr_mx := m\<rparr>)"
proof -
  note i = pool_run_invD(1) [OF inv] pool_run_invD(10-12) [OF inv, of "actor a"]
  let ?t = "actor a" and ?l = "pr_pc r (actor a)"
  have do: "mutex_do fx a (pr_mx r) = Some m" using act by (simp add: mutex_act_def split: if_splits)
  have "mutex_pc_ok ?l (t_pc (threads m ?t))"
  proof (cases "is_access a")
    case True
    note acc = mutex_do_access [OF do True]
    show ?thesis
    proof (cases ?l)
      case (A_Lock c)
      with i(3) mutex_access_stays [OF do True] show ?thesis by simp
    qed (use i(3) acc in auto)
  next
    case False
    with a obtain u where "a = Interrupt u" by (cases a) auto
    with do i(3) show ?thesis by auto
  qed
  moreover have "\<not> is_update a" using a by (cases a) auto
  ultimately have "pool_run_inv P (pool_goto ?t ?l (r\<lparr>pr_mx := m\<rparr>))"
    using i(2,4) by (intro pool_run_mutex [OF inv act]) simp_all
  moreover have "pool_goto ?t ?l (r\<lparr>pr_mx := m\<rparr>) = r\<lparr>pr_mx := m\<rparr>" by (simp add: pool_goto_def)
  ultimately show ?thesis by simp
qed

section \<open>The steps keep the invariant\<close>

lemma pool_build_inv:
  assumes inv: "pool_run_inv P r" and pc: "pr_pc r t = A_Build c i xs ys"
    and step: "pool_access fx t (A_Build c i xs ys) r = Some r'"
  shows "pool_run_inv P r'"
proof -
  note own = pool_run_invD(10-12) [OF inv, of t, unfolded pc]
  show ?thesis
  proof (cases ys)
    case Nil
    with step have r': "r' = pool_goto t (A_Unlock (Returned xs)) (r\<lparr>pr_heap := pr_heap r\<rparr>)" by simp
    show ?thesis unfolding r'
      by (rule pool_run_local [OF inv]) (use pc own Nil in auto)
  next
    case (Cons p qs)
    from own(1) Cons obtain a where p: "p = Some a" "pr_heap r a = None" by (cases p) auto
    show ?thesis
    proof (cases "call_ctor c i")
      case None
      with step Cons have r': "r' = pool_goto t (A_Unlock Threw) (r\<lparr>pr_leaked := True\<rparr>)" by simp
      show ?thesis
        by (rule pool_run_update [OF inv, of _ t "A_Unlock Threw"])
          (use pool_run_invD(1-9) [OF inv] own places_drop_cache [OF pool_run_invD(6) [OF inv], of t] in
            \<open>simp_all add: r'\<close>)
    next
      case (Some v)
      let ?h = "(pr_heap r)(a := Some v)"
      from Some step Cons p have r': "r' = pool_goto t (A_Build c (i + 1) (xs @ [p]) qs) (r\<lparr>pr_heap := ?h\<rparr>)"
        by simp
      have "distinct (transit (pr_pc r t))" by (rule places_cacheD [OF pool_run_invD(6) [OF inv]])
      then have "a \<notin> set (map the qs)" "a \<notin> set (map the xs)" using pc Cons p(1) by auto
      with own(1) Cons p have "transit_ok ?h (A_Build c (i + 1) (xs @ [p]) qs)" by auto
      then show ?thesis unfolding r'
        by (intro pool_run_local [OF inv]) (use pc own Cons p in auto)
    qed
  qed
qed

lemma pool_destroy_inv:
  assumes inv: "pool_run_inv P r" and pc: "pr_pc r t = A_Destroy ps c"
    and step: "pool_access fx t (A_Destroy ps c) r = Some r'"
  shows "pool_run_inv P r'"
proof (cases ps)
  case Nil
  note own = pool_run_invD(10-12) [OF inv, of t, unfolded pc]
  from step Nil obtain m where do: "mutex_do fx (CallLock t) (pr_mx r) = Some m"
    and act: "mutex_act fx (CallLock t) (pr_mx r) = Some m"
    and r': "r' = pool_goto t (A_Lock c) (r\<lparr>pr_mx := m\<rparr>)"
    by (auto elim!: with_mutexE simp: pool_goto_def)
  from do have "t_pc (threads m t) = L_Fast" by (auto split: if_splits)
  then show ?thesis unfolding r'
    by (intro pool_run_mutex [OF inv act]) (use pc own Nil in auto)
next
  case (Cons p qs)
  note own = pool_run_invD(10-12) [OF inv, of t, unfolded pc]
  from own(1) Cons obtain xs a ys where p: "call_nodes c = xs @ a # ys" "p = Some a" "qs = map Some ys"
    "\<forall>b\<in>set xs. pr_heap r b = None" "\<forall>b\<in>set (a # ys). pr_heap r b \<noteq> None" "call_fits c"
    by (auto simp del: not_None_eq)
  let ?h = "(pr_heap r)(a := None)"
  from step Cons p have r': "r' = pool_goto t (A_Destroy qs c) (r\<lparr>pr_heap := ?h\<rparr>)" by simp
  have "distinct (transit (pr_pc r t))" by (rule places_cacheD [OF pool_run_invD(6) [OF inv]])
  then have "a \<notin> set ys" using pc p(1) by simp
  with p have "call_nodes c = (xs @ [a]) @ ys \<and> qs = map Some ys \<and> (\<forall>b\<in>set (xs @ [a]). ?h b = None) \<and>
      (\<forall>b\<in>set ys. ?h b \<noteq> None)" by auto
  with p(6) have "transit_ok ?h (A_Destroy qs c)" unfolding transit_ok.simps by blast
  then show ?thesis unfolding r'
    by (intro pool_run_local [OF inv]) (use pc own p in auto)
qed

lemma update_critical:
  assumes "mutex_inv d s" and "mutex_act fx (Update t f) s = Some s'"
  shows "t_pc (threads s t) = L_Critical \<Longrightarrow> shared s' = shared s \<and> holds (t_pc (threads s' t)) \<and>
      in_body (t_pc (threads s' t)) \<and> t_pc (threads s' t) \<noteq> L_Try"
    "t_pc (threads s t) = L_Loaded x \<Longrightarrow> shared s' = f (shared s) \<and> t_pc (threads s' t) = L_Critical"
proof -
  from mutex_act_inv [OF assms] have f: "mx_fault s' = None" by (auto simp: mutex_inv_def mutex_at_def)
  show "t_pc (threads s t) = L_Critical \<Longrightarrow> shared s' = shared s \<and> holds (t_pc (threads s' t)) \<and>
      in_body (t_pc (threads s' t)) \<and> t_pc (threads s' t) \<noteq> L_Try"
    using assms(2) f by (auto simp: mutex_act_def touch_def split: if_splits)
  show "t_pc (threads s t) = L_Loaded x \<Longrightarrow> shared s' = f (shared s) \<and> t_pc (threads s' t) = L_Critical"
    using assms f mutex_loaded_current [OF assms(1), of t x]
    by (auto simp: mutex_act_def touch_def split: if_splits)
qed

text \<open>The store of the members: the nodes taken and the nodes given back change places.\<close>

lemma pool_stored_inv:
  assumes inv: "pool_run_inv P r" and pc: "pr_pc r t = A_Lock c" and loaded: "t_pc (threads (pr_mx r) t) = L_Loaded Q"
    and step: "pool_access fx t (A_Lock c) r = Some r'"
  shows "pool_run_inv P r'"
proof -
  note i = pool_run_invD(1-9) [OF inv] and own = pool_run_invD(10-12) [OF inv, of t, unfolded pc]
  obtain fs as where fs_def: "fs = pool_free (members r)" and as_def: "as = spec_taken c fs" by simp
  have Q: "Q = members r" by (rule mutex_loaded_current [OF i(1) loaded])
  note pl = places_cacheD [OF i(6), of t, unfolded pc, simplified]
  from member_part_spec [OF i(3), of c] own(1) pl i(4) obtain Q' where
    part: "member_part c (members r) = Inr (map Some as, Q')" and
    Q': "pool_shape Q'" "pool_free Q' = spec_left c fs" "pool_nodes Q' = pool_nodes P"
    by (auto simp: fs_def as_def)
  have after: "members_after c (members r) = Q'" by (simp add: members_after_def part)
  have the: "map the (map Some as) = as" by (simp add: comp_def)
  from step loaded part Q obtain m where act: "mutex_act fx (Update t (members_after c)) (pr_mx r) = Some m"
    and do: "mutex_do fx (Update t (members_after c)) (pr_mx r) = Some m"
    and r': "r' = (pool_goto t (A_Build c 0 [] (map Some as)) (r\<lparr>pr_log := (t, c, as) # pr_log r\<rparr>))\<lparr>pr_mx := m\<rparr>"
    by (auto elim!: with_mutexE simp: comp_def)
  note up = update_critical(2) [OF i(1) act loaded, unfolded after]
  have fs: "as @ drop (length as) fs = fs" unfolding as_def by (rule spec_taken_append)
  have left: "spec_left c fs = drop (length as) fs @ call_nodes c" by (simp add: spec_left_def as_def)
  have "places_ok (as @ drop (length as) fs) (\<lambda>t. transit (pr_pc r t)) (pr_out r) (pool_nodes P)"
    unfolding fs using i(6) by (simp add: fs_def)
  note ex = places_exchange [OF this, of t]
  have raw: "\<forall>a\<in>set fs. pr_heap r a = None" unfolding fs_def by (rule i(8))
  have sub: "set fs = set as \<union> set (drop (length as) fs)" by (metis fs set_append)
  show ?thesis
  proof (rule pool_run_update [OF inv, of _ t "A_Build c 0 [] (map Some as)"])
    show "places_ok (pool_free (members r')) ((\<lambda>u. transit (pr_pc r u))(t := transit (A_Build c 0 [] (map Some as))))
        (pr_out r') (pool_nodes P)"
      using ex up Q'(2) pc by (simp add: r' the left)
    show "places_full (pool_free (members r')) ((\<lambda>u. transit (pr_pc r u))(t := transit (A_Build c 0 [] (map Some as))))
        (pr_out r') (pool_nodes P)" if "\<not> pr_leaked r'"
    proof -
      from i(7) that have "places_full fs (\<lambda>t. transit (pr_pc r t)) (pr_out r) (pool_nodes P)" by (simp add: r' fs_def)
      moreover have "set fs \<union> set (transit (pr_pc r t)) \<union> pr_out r \<subseteq> set (spec_left c fs) \<union> set as \<union> pr_out r"
        using sub pc by (auto simp: left)
      ultimately show ?thesis using up Q'(2) places_full_move by (simp add: r' the)
    qed
    show "\<forall>a\<in>set (pool_free (members r')). pr_heap r' a = None"
      using up Q'(2) raw sub own(1) by (auto simp: r' left)
    show "transit_ok (pr_heap r') (A_Build c 0 [] (map Some as))" using raw sub by (auto simp: r')
  qed (use i own up Q' as_def fs_def mutex_act_inv [OF i(1) act] mutex_do_others [OF do] in \<open>auto simp: r'\<close>)
qed

lemma pool_member_inv:
  assumes inv: "pool_run_inv P r" and pc: "pr_pc r t = A_Lock c"
    and step: "pool_access fx t (A_Lock c) r = Some r'"
  shows "pool_run_inv P r'"
proof (cases "t_pc (threads (pr_mx r) t)")
  case L_Critical
  note i = pool_run_invD(1-9) [OF inv] and own = pool_run_invD(10-12) [OF inv, of t, unfolded pc]
  from step L_Critical obtain m where act: "mutex_act fx (Update t id) (pr_mx r) = Some m"
    and do: "mutex_do fx (Update t id) (pr_mx r) = Some m" and r': "r' = r\<lparr>pr_mx := m\<rparr>" by (auto elim!: with_mutexE)
  note up = update_critical(1) [OF i(1) act L_Critical]
  show ?thesis
    by (rule pool_run_update [OF inv, of _ t "A_Lock c"])
      (use i own up pc mutex_act_inv [OF i(1) act] mutex_do_others [OF do] in \<open>auto simp: r' fun_upd_idem\<close>)
next
  case (L_Loaded Q)
  from pool_stored_inv [OF inv pc this step] show ?thesis .
qed (use step in simp_all)

lemma pool_unlock_inv:
  assumes inv: "pool_run_inv P r" and pc: "pr_pc r t = A_Unlock res"
    and step: "pool_access fx t (A_Unlock res) r = Some r'"
  shows "pool_run_inv P r'"
proof -
  note i = pool_run_invD(1-9) [OF inv] and own = pool_run_invD(10-12) [OF inv, of t, unfolded pc]
  from step obtain m where act: "mutex_act fx (CallUnlock t) (pr_mx r) = Some m"
    and do: "mutex_do fx (CallUnlock t) (pr_mx r) = Some m"
    and r': "r' = (pool_goto t A_Idle (r\<lparr>pr_res := (pr_res r)(t := Some res), pr_out := pr_out r \<union> handed_out res\<rparr>))\<lparr>pr_mx := m\<rparr>"
    by (auto elim!: with_mutexE)
  have sh: "shared m = members r" by (rule mutex_do_shared [OF i(1) do]) simp
  have idle: "\<not> in_body (t_pc (threads m t))"
    using do by (auto simp: unlock_def release_rmw_def split: if_splits)
  have tr: "handed_out res = set (transit (pr_pc r t))" using pc by (cases res) auto
  show ?thesis
  proof (rule pool_run_update [OF inv, of _ t A_Idle])
    show "places_ok (pool_free (members r')) ((\<lambda>u. transit (pr_pc r u))(t := transit A_Idle)) (pr_out r') (pool_nodes P)"
      using places_hand_out_all [OF i(6), of t] by (simp add: r' sh tr)
    show "places_full (pool_free (members r')) ((\<lambda>u. transit (pr_pc r u))(t := transit A_Idle)) (pr_out r') (pool_nodes P)"
      if "\<not> pr_leaked r'"
    proof -
      from i(7) that have "places_full (pool_free (members r)) (\<lambda>t. transit (pr_pc r t)) (pr_out r) (pool_nodes P)"
        by (simp add: r')
      then have "places_full (pool_free (members r)) ((\<lambda>t. transit (pr_pc r t))(t := []))
          (pr_out r \<union> set (transit (pr_pc r t))) (pool_nodes P)" by (rule places_full_move) auto
      then show ?thesis by (simp add: r' sh tr)
    qed
    show "\<forall>a\<in>pr_out r'. pr_heap r' a \<noteq> None"
      using i(9) own(1) by (cases res) (auto simp: r')
    show "logged A_Idle (pr_res r' t) (map_of (pr_log r') t)"
      using own(3) by (cases res) (auto simp: r')
  qed (use i idle mutex_act_inv [OF i(1) act] mutex_do_others [OF do] in \<open>simp_all add: r' sh\<close>)
qed

lemma pool_call_inv:
  assumes inv: "pool_run_inv P r" and step: "pool_do fx (PoolCall t c) r = Some r'"
  shows "pool_run_inv P r'"
proof -
  note i = pool_run_invD(1-9) [OF inv] and own = pool_run_invD(10-12) [OF inv, of t]
  from step have pc: "pr_pc r t = A_Idle" and ok: "call_allowed c (pr_out r)" by (simp_all split: if_splits)
  have idle: "\<not> in_body (t_pc (threads (pr_mx r) t))" using own(2) pc by simp
  have C: "(\<lambda>u. transit (pr_pc r u))(t := []) = (\<lambda>u. transit (pr_pc r u))" using pc by auto
  show ?thesis
  proof (cases "is_empty_batch c")
    case True
    with step have r': "r' = r\<lparr>pr_res := (pr_res r)(t := None)\<rparr>" by (simp split: if_splits)
    show ?thesis
      by (rule pool_run_update [OF inv, of _ t A_Idle]) (use i idle pc C in \<open>simp_all add: r' fun_upd_idem\<close>)
  next
    case False
    with step have r': "r' = pool_goto t (A_Destroy (map Some (call_nodes c)) c)
      (r\<lparr>pr_res := (pr_res r)(t := None), pr_out := pr_out r - set (call_nodes c)\<rparr>)" by (simp split: if_splits)
    have as: "distinct (call_nodes c)" "set (call_nodes c) \<subseteq> pr_out r" "call_fits c"
      using ok by (cases c; simp)+
    show ?thesis
    proof (rule pool_run_update [OF inv, of _ t "A_Destroy (map Some (call_nodes c)) c"])
      show "places_ok (pool_free (members r')) ((\<lambda>u. transit (pr_pc r u))(t := transit (A_Destroy (map Some (call_nodes c)) c)))
          (pr_out r') (pool_nodes P)"
        using places_take_all [OF i(6) as(1,2), of t] by (simp add: r')
      show "places_full (pool_free (members r')) ((\<lambda>u. transit (pr_pc r u))(t := transit (A_Destroy (map Some (call_nodes c)) c)))
          (pr_out r') (pool_nodes P)" if "\<not> pr_leaked r'"
      proof -
        from i(7) that have "places_full (pool_free (members r)) (\<lambda>t. transit (pr_pc r t)) (pr_out r) (pool_nodes P)"
          by (simp add: r')
        moreover have "set (pool_free (members r)) \<union> set (transit (pr_pc r t)) \<union> pr_out r \<subseteq>
            set (pool_free (members r)) \<union> set (call_nodes c) \<union> (pr_out r - set (call_nodes c))"
          using pc by auto
        ultimately show ?thesis using places_full_move by (simp add: r')
      qed
      have "\<forall>a\<in>set (call_nodes c). pr_heap r a \<noteq> None" using as(2) i(9) by blast
      then show "transit_ok (pr_heap r') (A_Destroy (map Some (call_nodes c)) c)"
        using as(3) by (auto simp: r' intro!: exI [of _ "[]"] simp del: not_None_eq)
    qed (use i idle in \<open>simp_all add: r'\<close>)
  qed
qed

lemma pool_use_inv:
  assumes inv: "pool_run_inv P r" and a: "a \<in> pr_out r"
  shows "pool_run_inv P (r\<lparr>pr_heap := (pr_heap r)(a := Some v)\<rparr>)"
proof -
  note i = pool_run_invD(1-9) [OF inv]
  let ?h = "(pr_heap r)(a := Some v)"
  have same: "?h b = None \<longleftrightarrow> pr_heap r b = None" for b using i(9) a by auto
  have "transit_ok ?h l = transit_ok (pr_heap r) l" for l
    by (rule transit_ok_cong) (use same in blast)
  with i same pool_run_invD(10-12) [OF inv] show ?thesis unfolding pool_run_inv_def by simp
qed

lemma pool_access_inv:
  assumes inv: "pool_run_inv P r" and step: "pool_access fx t (pr_pc r t) r = Some r'"
  shows "pool_run_inv P r'"
proof (cases "pr_pc r t")
  case A_Idle
  with step show ?thesis by simp
next
  case (A_Destroy ps c)
  show ?thesis by (rule pool_destroy_inv [OF inv A_Destroy step [unfolded A_Destroy]])
next
  case (A_Lock c)
  show ?thesis by (rule pool_member_inv [OF inv A_Lock step [unfolded A_Lock]])
next
  case (A_Build c i xs ys)
  show ?thesis by (rule pool_build_inv [OF inv A_Build step [unfolded A_Build]])
next
  case (A_Unlock res)
  show ?thesis by (rule pool_unlock_inv [OF inv A_Unlock step [unfolded A_Unlock]])
qed

lemma pool_act_inv:
  assumes inv: "pool_run_inv P r" and act: "pool_act fx a r = Some r'"
  shows "pool_run_inv P r'"
proof -
  from act have do: "pool_do fx a r = Some r'" by (simp add: pool_act_def split: if_splits)
  show ?thesis
  proof (cases a)
    case (PoolMutex b)
    with do pool_mutex_inv [OF inv] show ?thesis by (auto elim!: with_mutexE split: if_splits)
  qed (use do pool_call_inv [OF inv] pool_access_inv [OF inv] pool_use_inv [OF inv] in
        \<open>auto simp del: pool_do.simps(1) split: if_splits\<close>)
qed

lemma pool_init_inv:
  assumes "pool_run_init fx P r"
  shows "pool_run_inv P r"
proof -
  from assms obtain blk n where new: "pool_new blk n = Inr P" and mi: "mutex_init fx P (pr_mx r)"
    by (auto simp: pool_run_init_def)
  from mi have m: "members r = P" "\<And>t. t_pc (threads (pr_mx r) t) = L_Idle" by (auto simp: mutex_init_def)
  note P = pool_new_spec [OF new]
  from assms mutex_inv_init [OF mi] m P pool_shapeD(6) [OF P(1)] show ?thesis
    by (simp add: pool_run_inv_def pool_run_init_def places_ok_def places_full_def)
qed

interpretation pool_run: invariant_system "pool_run_init fx P" "pool_step fx" "pool_run_inv P"
  by unfold_locales (auto intro: pool_init_inv pool_act_inv elim: pool_stepE)

section \<open>A run\<close>

fun pool_sched :: "'k futex \<Rightarrow> 'a pool_action list \<Rightarrow> ('a, 'k) pool_run \<Rightarrow> ('a, 'k) pool_run option" where
  "pool_sched fx [] r = Some r"
| "pool_sched fx (a # as) r = (case pool_act fx a r of None \<Rightarrow> None | Some r' \<Rightarrow> pool_sched fx as r')"

lemma pool_sched_reach: "pool_reach fx P r \<Longrightarrow> pool_sched fx as r = Some r' \<Longrightarrow> pool_reach fx P r'"
proof (induction as arbitrary: r)
  case (Cons a as)
  from Cons.prems(2) obtain u where u: "pool_act fx a r = Some u" "pool_sched fx as u = Some r'"
    by (auto split: option.splits)
  from reach.reach_step [OF Cons.prems(1) pool_step.intros [OF u(1)]] u(2) show ?case by (rule Cons.IH)
qed simp

text \<open>
  Thread 0 acquires a node and releases it; between its destructor call and its \<open>lock\<close>, thread
  1 acquires two nodes and has built in the first.
\<close>

definition pool_demo :: "nat pool_action list" where
  "pool_demo =
     [PoolCall 0 (CallAcquire (Some 7)), PoolStep 0, PoolMutex (CasWins 0)] @
     [PoolStep 0, PoolStep 0, PoolStep 0, PoolStep 0, PoolStep 0] @
     [PoolCall 0 (CallRelease (1, 0)), PoolStep 0] @
     [PoolCall 1 (CallAcquireBatch Some [None, None] 2), PoolStep 1, PoolMutex (CasWins 1)] @
     [PoolStep 1, PoolStep 1, PoolStep 1]"

definition pool_demo_start :: "(nat, nat list) pool_run" where
  "pool_demo_start =
     \<lparr>pr_mx = \<lparr>states = [Free], handed = 0, shared = pool_four, accesses = 0, updates = [],
        threads = (\<lambda>t. \<lparr>t_pc = L_Idle, t_seen = 0, t_know = 0, t_pauses = 0, t_got = None\<rparr>),
        kern = [], mx_fault = None, mx_terminated = False\<rparr>,
      pr_heap = (\<lambda>_. None), pr_pc = (\<lambda>_. A_Idle), pr_res = (\<lambda>_. None), pr_out = {}, pr_leaked = False,
      pr_log = [], pr_fault = None\<rparr>"

lemma pool_demo_start_reach: "pool_reach list_futex pool_four pool_demo_start"
  by (rule reach.reach_init)
    (use pool_four_new in \<open>auto simp: pool_run_init_def mutex_init_def pool_demo_start_def list_futex_def\<close>)

lemmas pool_run_eval = pool_act_def pool_goto_def with_mutex_def mutex_eval pool_four_def members_after_def
  pool_take_def pool_put_def pool_copy_out_def copy_range_def Let_def

lemma pool_demo_state:
  obtains r :: "(nat, nat list) pool_run"
  where "pool_reach list_futex pool_four r" "pr_pc r 0 = A_Destroy [] (CallRelease (1, 0))"
    "pr_pc r 1 = A_Build (CallAcquireBatch Some [None, None] 2) 1 [Some (1, 1)] [Some (1, 2)]"
    "pr_res r 0 = None" "pl_count (members r) = 1" "\<not> pr_leaked r"
    "map fst (pr_log r) = [1, 0]"
proof -
  have "\<exists>r. pool_sched list_futex pool_demo pool_demo_start = Some r \<and> pr_pc r 0 = A_Destroy [] (CallRelease (1, 0)) \<and>
     pr_pc r 1 = A_Build (CallAcquireBatch Some [None, None] 2) 1 [Some (1, 1)] [Some (1, 2)] \<and>
     pr_res r 0 = None \<and> pl_count (members r) = 1 \<and> \<not> pr_leaked r \<and> map fst (pr_log r) = [1, 0]"
    by (simp add: pool_demo_def pool_demo_start_def pool_run_eval upt_rec)
  then show ?thesis by (elim exE conjE) (rule that [OF pool_sched_reach [OF pool_demo_start_reach]])
qed

section \<open>Properties\<close>

text \<open>
  C25: An \<open>ObjectPool\<close> used by any number of threads, in any interleaving and whatever the kernel
  answers: no construction overwrites a live object and no destructor runs on raw storage, no
  access to the array is out of bounds, and the members are free of data races. The free
  nodes, the nodes that threads have on the way and those that clients hold are different;
  the free ones are raw and the clients' alive; and as long as no constructor has thrown they
  are all the nodes of the pool.
\<close>

theorem pool_concurrent_safe:
  assumes "pool_reach fx P r"
  shows "pr_fault r = None \<and> mx_fault (pr_mx r) = None \<and>
    distinct (pool_free (members r)) \<and> set (pool_free (members r)) \<inter> pr_out r = {} \<and>
    (\<forall>t. set (transit (pr_pc r t)) \<inter> (set (pool_free (members r)) \<union> pr_out r) = {}) \<and>
    (\<forall>t u. t \<noteq> u \<longrightarrow> set (transit (pr_pc r t)) \<inter> set (transit (pr_pc r u)) = {}) \<and>
    (\<forall>a\<in>set (pool_free (members r)). pr_heap r a = None) \<and> (\<forall>a\<in>pr_out r. pr_heap r a \<noteq> None) \<and>
    (\<not> pr_leaked r \<longrightarrow>
       pool_nodes P = set (pool_free (members r)) \<union> (\<Union>t. set (transit (pr_pc r t))) \<union> pr_out r)"
proof -
  note i = pool_run_invD(1-9) [OF pool_run.reach_inv [OF assms]]
  note pl = places_okD [OF i(6)] places_cacheD [OF i(6)] places_cachesD [OF i(6)]
  have "mx_fault (pr_mx r) = None" using i(1) by (auto simp: mutex_inv_def mutex_at_def)
  moreover have "set (transit (pr_pc r t)) \<inter> (set (pool_free (members r)) \<union> pr_out r) = {}" for t
    using pl(6,7) [of t] by blast
  moreover have "pool_nodes P = set (pool_free (members r)) \<union> (\<Union>t. set (transit (pr_pc r t))) \<union> pr_out r"
    if "\<not> pr_leaked r"
    using i(7) that pl(3,4,8) unfolding places_full_def by blast
  ultimately show ?thesis using i(2,8,9) pl(1,2,9) by blast
qed

theorem pool_concurrent_safe_witness:
  "\<exists>r :: (nat, nat list) pool_run. pool_reach list_futex pool_four r \<and> pr_fault r = None \<and> \<not> pr_leaked r \<and>
     pool_nodes pool_four = set (pool_free (members r)) \<union> (\<Union>t. set (transit (pr_pc r t))) \<union> pr_out r \<and>
     set (transit (pr_pc r 0)) = {(1, 0)} \<and> set (transit (pr_pc r 1)) = {(1, 1), (1, 2)}"
proof -
  obtain r :: "(nat, nat list) pool_run" where r: "pool_reach list_futex pool_four r"
    "pr_pc r 0 = A_Destroy [] (CallRelease (1, 0))"
    "pr_pc r 1 = A_Build (CallAcquireBatch Some [None, None] 2) 1 [Some (1, 1)] [Some (1, 2)]" "\<not> pr_leaked r"
    by (rule pool_demo_state)
  from pool_concurrent_safe [OF r(1)] r show ?thesis by (intro exI [of _ r]) simp
qed

text \<open>
  C26: The calls of all threads, in the order in which they store the members, are calls of the
  sequential specification, a queue of free nodes: each takes the nodes that are first in the
  queue then (one, or as many as asked for, or what there is), and each release puts its
  nodes last. The queue they end up with is the ring of the pool, and what a call has
  returned to its thread are the nodes that the specification gave it.
\<close>

theorem pool_linearises:
  assumes "pool_reach fx P r"
  shows "spec_replay (pool_free P) (pr_log r) = Some (pool_free (members r)) \<and>
    (\<forall>t ps. pr_res r t = Some (Returned ps) \<longrightarrow>
       (\<exists>c as. map_of (pr_log r) t = Some (c, as) \<and> ps = map Some as))"
proof -
  note inv = pool_run.reach_inv [OF assms]
  have "\<exists>c as. map_of (pr_log r) t = Some (c, as) \<and> ps = map Some as"
    if res: "pr_res r t = Some (Returned ps)" for t ps
  proof (cases "pr_pc r t")
    case A_Idle
    with pool_run_invD(12) [OF inv, of t] res show ?thesis by simp
  next
    case (A_Unlock x)
    with pool_run_invD(12) [OF inv, of t] res show ?thesis by (cases x) simp_all
  qed (use pool_run_invD(12) [OF inv, of t] res in simp_all)
  with pool_run_invD(5) [OF inv] show ?thesis by blast
qed

theorem pool_linearises_witness:
  "\<exists>r :: (nat, nat list) pool_run. pool_reach list_futex pool_four r \<and> map fst (pr_log r) = [1, 0] \<and>
     spec_replay (pool_free pool_four) (pr_log r) = Some (pool_free (members r))"
proof -
  obtain r :: "(nat, nat list) pool_run" where r: "pool_reach list_futex pool_four r" "map fst (pr_log r) = [1, 0]"
    by (rule pool_demo_state)
  from pool_linearises [OF r(1)] r show ?thesis by (intro exI [of _ r]) simp
qed

end
