(* ===== verification/CacheConcurrent.thy ===== *)
theory CacheConcurrent
  imports ThreadCache PoolConcurrent
begin

text \<open>
  \<open>ThreadCachedObjectPool\<close> of include/sync_tools/object_pool.hpp with its caches and the pool
  under them together, for any number of threads: the cache operations of \<open>ThreadCache\<close>,
  and in place of their batch calls the accesses of \<open>PoolConcurrent\<close>, which other threads
  interleave with. \<open>B\<close> is \<open>BatchSize\<close> and \<open>F\<close> is \<open>CacheFlushThreshold\<close>.
\<close>

section \<open>State\<close>

text \<open>Where a thread is in an operation of its cache; else it is between two.\<close>

datatype cache_pc =
    H_Idle
  | H_Refill                  \<comment> \<open>in the \<open>acquire_batch\<close> of \<open>acquire\<close>\<close>
  | H_FlushHalf addr size_t   \<comment> \<open>in the \<open>release_batch\<close> of \<open>_flush_half\<close>: the object released, and \<open>half\<close>\<close>
  | H_FlushAll                \<comment> \<open>in the \<open>release_batch\<close> of \<open>flush\<close>\<close>

record ('a, 'k) cached_run =
  cr_pool :: "('a, 'k) pool_run"
  cr_caches :: "nat \<Rightarrow> thread_cache"
  cr_pc :: "nat \<Rightarrow> cache_pc"
  cr_res :: "nat \<Rightarrow> ptr outcome option"  \<comment> \<open>what the last operation, an \<open>acquire\<close>, returned\<close>
  cr_out :: "addr set"                    \<comment> \<open>nodes the clients have, auxiliary\<close>
  cr_lost :: bool                         \<comment> \<open>a cache was lost with its thread, auxiliary\<close>
  cr_fault :: "fault option"

definition cr_set :: "nat \<Rightarrow> thread_cache \<Rightarrow> cache_pc \<Rightarrow> ('a, 'k) cached_run \<Rightarrow> ('a, 'k) cached_run" where
  "cr_set t c l r = r\<lparr>cr_caches := (cr_caches r)(t := c), cr_pc := (cr_pc r)(t := l)\<rparr>"

definition cr_fail :: "fault \<Rightarrow> ('a, 'k) cached_run \<Rightarrow> ('a, 'k) cached_run" where
  "cr_fail e r = r\<lparr>cr_fault := Some e\<rparr>"

section \<open>Operations\<close>

text \<open>The start of a batch call. One that the pool does not allow is undefined.\<close>

definition call_pool ::
  "'k futex \<Rightarrow> nat \<Rightarrow> 'a pool_call \<Rightarrow> cache_pc \<Rightarrow> ('a, 'k) cached_run \<Rightarrow> ('a, 'k) cached_run" where
  "call_pool fx t c l r =
     (case pool_act fx (PoolCall t c) (cr_pool r) of
        None \<Rightarrow> cr_fail OutOfBounds r
      | Some p \<Rightarrow> r\<lparr>cr_pool := p, cr_pc := (cr_pc r)(t := l)\<rparr>)"

definition batch_nodes :: "nat \<Rightarrow> size_t \<Rightarrow> thread_cache \<Rightarrow> ptr list" where
  "batch_nodes i n c = take (unat n) (drop i (tc_slots c))"

definition call_release ::
  "'k futex \<Rightarrow> nat \<Rightarrow> ptr list \<Rightarrow> cache_pc \<Rightarrow> ('a, 'k) cached_run \<Rightarrow> ('a, 'k) cached_run" where
  "call_release fx t ps l r =
     (if None \<in> set ps then cr_fail RawRead r else call_pool fx t (CallReleaseBatch (map the ps)) l r)"

text \<open>The end of \<open>acquire\<close> and of \<open>release\<close>.\<close>

fun gives :: "ptr \<Rightarrow> addr set" where
  "gives None = {}"
| "gives (Some a) = {a}"

definition finish_acquire :: "nat \<Rightarrow> thread_cache \<Rightarrow> ('a, 'k) cached_run \<Rightarrow> ('a, 'k) cached_run" where
  "finish_acquire t c r =
     (case cache_take c of
        Inl e \<Rightarrow> cr_fail e r
      | Inr (p, c') \<Rightarrow>
          cr_set t c' H_Idle (r\<lparr>cr_res := (cr_res r)(t := Some (Returned p)), cr_out := cr_out r \<union> gives p\<rparr>))"

definition finish_release :: "nat \<Rightarrow> addr \<Rightarrow> thread_cache \<Rightarrow> ('a, 'k) cached_run \<Rightarrow> ('a, 'k) cached_run" where
  "finish_release t a c r =
     (case cache_put (Some a) c of Inl e \<Rightarrow> cr_fail e r | Inr c' \<Rightarrow> cr_set t c' H_Idle r)"

definition start_acquire ::
  "'k futex \<Rightarrow> size_t \<Rightarrow> nat \<Rightarrow> (nat \<Rightarrow> 'a option) \<Rightarrow> ('a, 'k) cached_run \<Rightarrow> ('a, 'k) cached_run" where
  "start_acquire fx B t ctors r =
     (let c = cr_caches r t in
      if tc_count c = 0 then call_pool fx t (CallAcquireBatch ctors (tc_slots c) B) H_Refill r
      else finish_acquire t c r)"

definition start_release ::
  "'k futex \<Rightarrow> size_t \<Rightarrow> nat \<Rightarrow> addr \<Rightarrow> ('a, 'k) cached_run \<Rightarrow> ('a, 'k) cached_run" where
  "start_release fx F t a r =
     (let c = cr_caches r t; half = tc_count c div 2 in
      if F \<le> tc_count c \<and> 0 < half
      then call_release fx t (batch_nodes (unat (tc_count c - half)) half c) (H_FlushHalf a half) r
      else finish_release t a c r)"

definition start_flush :: "'k futex \<Rightarrow> nat \<Rightarrow> ('a, 'k) cached_run \<Rightarrow> ('a, 'k) cached_run" where
  "start_flush fx t r =
     (let c = cr_caches r t in
      if 0 < tc_count c then call_release fx t (batch_nodes 0 (tc_count c) c) H_FlushAll r else r)"

text \<open>
  What follows the return of a batch call. If a constructor has thrown, \<open>acquire\<close> passes the
  exception on; the cache stays empty, and what the array holds is not read again.
\<close>

fun batch_returned ::
  "nat \<Rightarrow> cache_pc \<Rightarrow> ptr list outcome option \<Rightarrow> ('a, 'k) cached_run \<Rightarrow> ('a, 'k) cached_run" where
  "batch_returned t H_Refill (Some (Returned ps)) r =
     finish_acquire t
       (cr_caches r t\<lparr>tc_slots := ps @ drop (length ps) (tc_slots (cr_caches r t)), tc_count := of_nat (length ps)\<rparr>) r"
| "batch_returned t H_Refill (Some Threw) r =
     cr_set t (cr_caches r t) H_Idle (r\<lparr>cr_res := (cr_res r)(t := Some Threw)\<rparr>)"
| "batch_returned t (H_FlushHalf a half) (Some res) r =
     finish_release t a (cr_caches r t\<lparr>tc_count := tc_count (cr_caches r t) - half\<rparr>) r"
| "batch_returned t H_FlushAll (Some res) r = cr_set t (cr_caches r t\<lparr>tc_count := 0\<rparr>) H_Idle r"
| "batch_returned t _ _ r = r"

section \<open>Steps\<close>

datatype 'a cached_action =
    CrAcquire nat "nat \<Rightarrow> 'a option"
  | CrRelease nat addr
  | CrFlush nat
  | CrStep nat                     \<comment> \<open>an access of the batch call the thread is in\<close>
  | CrMutex "pool mutex_action"
  | CrUse addr 'a                  \<comment> \<open>a client writes to an object it has\<close>
  | CrExit nat                     \<comment> \<open>the end of a thread, with its cache\<close>

fun cr_do ::
  "'k futex \<Rightarrow> size_t \<Rightarrow> size_t \<Rightarrow> 'a cached_action \<Rightarrow> ('a, 'k) cached_run \<Rightarrow> ('a, 'k) cached_run option" where
  "cr_do fx B F (CrAcquire t ctors) r =
     (if cr_pc r t = H_Idle then Some (start_acquire fx B t ctors (r\<lparr>cr_res := (cr_res r)(t := None)\<rparr>)) else None)"
| "cr_do fx B F (CrRelease t a) r =
     (if cr_pc r t = H_Idle \<and> a \<in> cr_out r then
        Some (start_release fx F t a (r\<lparr>cr_res := (cr_res r)(t := None), cr_out := cr_out r - {a}\<rparr>))
      else None)"
| "cr_do fx B F (CrFlush t) r =
     (if cr_pc r t = H_Idle then Some (start_flush fx t (r\<lparr>cr_res := (cr_res r)(t := None)\<rparr>)) else None)"
| "cr_do fx B F (CrStep t) r =
     map_option (\<lambda>p. let r' = r\<lparr>cr_pool := p\<rparr>
        in if pr_pc p t = A_Idle then batch_returned t (cr_pc r t) (pr_res p t) r' else r')
       (pool_act fx (PoolStep t) (cr_pool r))"
| "cr_do fx B F (CrMutex a) r = map_option (\<lambda>p. r\<lparr>cr_pool := p\<rparr>) (pool_act fx (PoolMutex a) (cr_pool r))"
| "cr_do fx B F (CrUse a v) r =
     (if a \<in> cr_out r
      then Some (r\<lparr>cr_pool := (cr_pool r)\<lparr>pr_heap := (pr_heap (cr_pool r))(a := Some v)\<rparr>\<rparr>) else None)"
| "cr_do fx B F (CrExit t) r =
     (if cr_pc r t = H_Idle then
        Some (cr_set t (fresh_cache F) H_Idle (r\<lparr>cr_lost := (cr_lost r \<or> tc_count (cr_caches r t) \<noteq> 0)\<rparr>))
      else None)"

definition cr_act ::
  "'k futex \<Rightarrow> size_t \<Rightarrow> size_t \<Rightarrow> 'a cached_action \<Rightarrow> ('a, 'k) cached_run \<Rightarrow> ('a, 'k) cached_run option" where
  "cr_act fx B F a r = (if cr_fault r = None \<and> pr_fault (cr_pool r) = None then cr_do fx B F a r else None)"

inductive cr_step ::
  "'k futex \<Rightarrow> size_t \<Rightarrow> size_t \<Rightarrow> ('a, 'k) cached_run \<Rightarrow> ('a, 'k) cached_run \<Rightarrow> bool"
  for fx :: "'k futex" and B F :: size_t where
  "cr_act fx B F a r = Some r' \<Longrightarrow> cr_step fx B F r r'"

inductive_cases cr_stepE: "cr_step fx B F r r'"

definition cr_init :: "'k futex \<Rightarrow> size_t \<Rightarrow> pool \<Rightarrow> ('a, 'k) cached_run \<Rightarrow> bool" where
  "cr_init fx F P r \<longleftrightarrow> pool_run_init fx P (cr_pool r) \<and> cr_caches r = (\<lambda>_. fresh_cache F) \<and>
     cr_pc r = (\<lambda>_. H_Idle) \<and> cr_res r = (\<lambda>_. None) \<and> cr_out r = {} \<and> \<not> cr_lost r \<and> cr_fault r = None"

abbreviation cr_reach ::
  "'k futex \<Rightarrow> size_t \<Rightarrow> size_t \<Rightarrow> pool \<Rightarrow> ('a, 'k) cached_run \<Rightarrow> bool" where
  "cr_reach fx B F P \<equiv> reach (cr_init fx F P) (cr_step fx B F)"

section \<open>What a batch call does to the pool\<close>

fun acquires :: "size_t \<Rightarrow> 'a pool_call \<Rightarrow> bool" where
  "acquires B (CallAcquireBatch ctors out m) \<longleftrightarrow> m = B"
| "acquires B _ \<longleftrightarrow> False"

fun releases :: "'a pool_call \<Rightarrow> bool" where
  "releases (CallReleaseBatch as) \<longleftrightarrow> True"
| "releases _ \<longleftrightarrow> False"

text \<open>Where a thread is in the pool that has called \<open>acquire_batch\<close>, or \<open>release_batch\<close>.\<close>

fun in_acquire :: "size_t \<Rightarrow> 'a pool_pc \<Rightarrow> bool" where
  "in_acquire B A_Idle \<longleftrightarrow> False"
| "in_acquire B (A_Destroy ps c) \<longleftrightarrow> ps = [] \<and> acquires B c"
| "in_acquire B (A_Lock c) \<longleftrightarrow> acquires B c"
| "in_acquire B (A_Build c i xs ys) \<longleftrightarrow> acquires B c \<and> length xs + length ys \<le> unat B"
| "in_acquire B (A_Unlock (Returned ps)) \<longleftrightarrow> length ps \<le> unat B"
| "in_acquire B (A_Unlock Threw) \<longleftrightarrow> True"

fun in_release :: "'a pool_pc \<Rightarrow> bool" where
  "in_release A_Idle \<longleftrightarrow> False"
| "in_release (A_Destroy ps c) \<longleftrightarrow> releases c"
| "in_release (A_Lock c) \<longleftrightarrow> releases c"
| "in_release (A_Build c i xs ys) \<longleftrightarrow> xs = [] \<and> ys = []"
| "in_release (A_Unlock res) \<longleftrightarrow> res = Returned []"

lemma call_takes: "acquires B c \<Longrightarrow> length (spec_taken c fs) \<le> unat B" "releases c \<Longrightarrow> spec_taken c fs = []"
  by (cases c; simp)+

text \<open>The load and the store of the members.\<close>

lemma member_step:
  assumes inv: "pool_run_inv P p" and pc: "pr_pc p t = A_Lock c"
    and step: "pool_access fx t (pr_pc p t) p = Some p'" and nf: "pr_fault p' = None"
  shows "pr_out p' = pr_out p \<and> (\<forall>u. u \<noteq> t \<longrightarrow> pr_pc p' u = pr_pc p u) \<and>
    (pr_pc p' t = A_Lock c \<and> pr_log p' = pr_log p \<or>
     pr_pc p' t = A_Build c 0 [] (map Some (spec_taken c (pool_free (members p)))) \<and>
     pr_log p' = (t, c, spec_taken c (pool_free (members p))) # pr_log p)"
proof (cases "t_pc (threads (pr_mx p) t)")
  case L_Critical
  with step pc show ?thesis by (auto elim!: with_mutexE)
next
  case (L_Loaded Q)
  note i = pool_run_invD(1-4,6) [OF inv] pool_run_invD(10) [OF inv, of t]
  have Q: "Q = members p" by (rule mutex_loaded_current [OF i(1) L_Loaded])
  have "call_fits c" using i(6) pc by simp
  moreover have "distinct (call_nodes c)" "set (call_nodes c) \<subseteq> pool_nodes (members p)"
    "set (call_nodes c) \<inter> set (pool_free (members p)) = {}"
    using places_cacheD [OF i(5), of t] pc i(4) by auto
  ultimately obtain Q' where "member_part c (members p) = Inr (map Some (spec_taken c (pool_free (members p))), Q')"
    using member_part_spec [OF i(3)] by blast
  with step pc L_Loaded Q show ?thesis by (auto simp: pool_goto_def comp_def elim!: with_mutexE)
qed (use step pc in simp_all)

text \<open>An access of a thread in a batch call.\<close>

lemma batch_step:
  assumes inv: "pool_run_inv P p" and act: "pool_act fx (PoolStep t) p = Some p'"
  shows "\<forall>u. u \<noteq> t \<longrightarrow> pr_pc p' u = pr_pc p u"
    "(\<exists>res. pr_pc p t = A_Unlock res \<and> pr_pc p' t = A_Idle \<and> pr_res p' t = Some res \<and>
        pr_out p' = pr_out p \<union> handed_out res) \<or>
     pr_out p' = pr_out p \<and> (in_acquire B (pr_pc p t) \<longrightarrow> in_acquire B (pr_pc p' t)) \<and>
       (in_release (pr_pc p t) \<longrightarrow> in_release (pr_pc p' t)) \<and> pr_pc p' t \<noteq> A_Idle"
proof -
  have step: "pool_access fx t (pr_pc p t) p = Some p'" using act by (simp add: pool_act_def split: if_splits)
  have nf: "pr_fault p' = None" using pool_run_invD(2) [OF pool_act_inv [OF inv act]] .
  have "(\<forall>u. u \<noteq> t \<longrightarrow> pr_pc p' u = pr_pc p u) \<and>
    ((\<exists>res. pr_pc p t = A_Unlock res \<and> pr_pc p' t = A_Idle \<and> pr_res p' t = Some res \<and>
        pr_out p' = pr_out p \<union> handed_out res) \<or>
     pr_out p' = pr_out p \<and> (in_acquire B (pr_pc p t) \<longrightarrow> in_acquire B (pr_pc p' t)) \<and>
       (in_release (pr_pc p t) \<longrightarrow> in_release (pr_pc p' t)) \<and> pr_pc p' t \<noteq> A_Idle)"
  proof (cases "pr_pc p t")
    case (A_Destroy ps c)
    with step nf show ?thesis
      by (cases ps) (auto simp: pool_goto_def split: sum.splits elim!: with_mutexE)
  next
    case (A_Lock c)
    from member_step [OF inv this step nf] A_Lock call_takes(1) [of B c "pool_free (members p)"]
      call_takes(2) [of c "pool_free (members p)"] show ?thesis by auto
  next
    case (A_Build c i xs ys)
    with step nf show ?thesis
      by (cases ys) (auto simp: pool_goto_def split: sum.splits option.splits)
  next
    case (A_Unlock res)
    with step show ?thesis by (auto simp: pool_goto_def elim!: with_mutexE)
  qed (use step in simp)
  then show "\<forall>u. u \<noteq> t \<longrightarrow> pr_pc p' u = pr_pc p u"
    "(\<exists>res. pr_pc p t = A_Unlock res \<and> pr_pc p' t = A_Idle \<and> pr_res p' t = Some res \<and>
        pr_out p' = pr_out p \<union> handed_out res) \<or>
     pr_out p' = pr_out p \<and> (in_acquire B (pr_pc p t) \<longrightarrow> in_acquire B (pr_pc p' t)) \<and>
       (in_release (pr_pc p t) \<longrightarrow> in_release (pr_pc p' t)) \<and> pr_pc p' t \<noteq> A_Idle" by blast+
qed

section \<open>Where the nodes are\<close>

text \<open>What a thread has in its cache that is not on its way back to the pool.\<close>

fun cache_nodes :: "cache_pc \<Rightarrow> thread_cache \<Rightarrow> addr list" where
  "cache_nodes H_Idle c = cached c"
| "cache_nodes H_Refill c = []"
| "cache_nodes (H_FlushHalf a half) c = cached (c\<lparr>tc_count := tc_count c - half\<rparr>) @ [a]"
| "cache_nodes H_FlushAll c = []"

abbreviation own :: "('a, 'k) cached_run \<Rightarrow> nat \<Rightarrow> addr list" where
  "own r t \<equiv> cache_nodes (cr_pc r t) (cr_caches r t)"

fun call_link :: "size_t \<Rightarrow> cache_pc \<Rightarrow> thread_cache \<Rightarrow> 'a pool_pc \<Rightarrow> bool" where
  "call_link B H_Idle c l \<longleftrightarrow> l = A_Idle"
| "call_link B H_Refill c l \<longleftrightarrow> tc_count c = 0 \<and> in_acquire B l"
| "call_link B (H_FlushHalf a half) c l \<longleftrightarrow> 0 < half \<and> half \<le> tc_count c \<and> in_release l"
| "call_link B H_FlushAll c l \<longleftrightarrow> in_release l"

definition own_inv :: "size_t \<Rightarrow> size_t \<Rightarrow> ('a, 'k) cached_run \<Rightarrow> bool" where
  "own_inv B F r \<longleftrightarrow> cr_fault r = None \<and>
     (\<forall>t. cache_ok F (cr_caches r t) \<and> call_link B (cr_pc r t) (cr_caches r t) (pr_pc (cr_pool r) t)) \<and>
     places_ok [] (own r) (cr_out r) (pr_out (cr_pool r)) \<and>
     (cr_lost r \<or> places_full [] (own r) (cr_out r) (pr_out (cr_pool r)))"

definition cr_inv :: "size_t \<Rightarrow> size_t \<Rightarrow> pool \<Rightarrow> ('a, 'k) cached_run \<Rightarrow> bool" where
  "cr_inv B F P r \<longleftrightarrow> 2 \<le> F \<and> B \<le> F \<and> pool_run_inv P (cr_pool r) \<and> own_inv B F r"

lemma own_invD:
  assumes "own_inv B F r"
  shows "cr_fault r = None" "cache_ok F (cr_caches r t)"
    "call_link B (cr_pc r t) (cr_caches r t) (pr_pc (cr_pool r) t)"
    "places_ok [] (own r) (cr_out r) (pr_out (cr_pool r))"
    "cr_lost r \<or> places_full [] (own r) (cr_out r) (pr_out (cr_pool r))"
  using assms by (simp_all add: own_inv_def)

text \<open>A step of thread \<open>t\<close>.\<close>

lemma own_inv_update:
  assumes inv: "own_inv B F r" and "cr_fault r' = None"
    and others: "\<And>u. u \<noteq> t \<Longrightarrow> cr_caches r' u = cr_caches r u \<and> cr_pc r' u = cr_pc r u \<and>
      pr_pc (cr_pool r') u = pr_pc (cr_pool r) u"
    and "cache_ok F (cr_caches r' t)" "call_link B (cr_pc r' t) (cr_caches r' t) (pr_pc (cr_pool r') t)"
    and "places_ok [] ((own r)(t := own r' t)) (cr_out r') (pr_out (cr_pool r'))"
    and "cr_lost r' \<or> places_full [] ((own r)(t := own r' t)) (cr_out r') (pr_out (cr_pool r'))"
  shows "own_inv B F r'"
proof -
  have "own r' = (own r)(t := own r' t)" using others by (auto simp: fun_eq_iff)
  with assms(6,7) have "places_ok [] (own r') (cr_out r') (pr_out (cr_pool r'))"
    "cr_lost r' \<or> places_full [] (own r') (cr_out r') (pr_out (cr_pool r'))" by simp_all
  moreover have "cache_ok F (cr_caches r' u) \<and> call_link B (cr_pc r' u) (cr_caches r' u) (pr_pc (cr_pool r') u)" for u
    using others [of u] own_invD(2,3) [OF inv, of u] assms(4,5) by (cases "u = t") simp_all
  ultimately show ?thesis using assms(2) by (simp add: own_inv_def)
qed

text \<open>The end of \<open>acquire\<close>, and of \<open>release\<close>.\<close>

lemma finish_acquire_ok:
  assumes inv: "own_inv B F r" and c: "cache_ok F c" and idle: "pr_pc p t = A_Idle"
    and others: "\<forall>u. u \<noteq> t \<longrightarrow> pr_pc p u = pr_pc (cr_pool r) u"
    and pl: "places_ok [] ((own r)(t := cached c)) (cr_out r) (pr_out p)"
    and full: "cr_lost r \<or> places_full [] ((own r)(t := cached c)) (cr_out r) (pr_out p)"
  shows "own_inv B F (finish_acquire t c (r\<lparr>cr_pool := p\<rparr>))" "cr_pool (finish_acquire t c (r\<lparr>cr_pool := p\<rparr>)) = p"
proof -
  obtain c' where tk: "cache_take c = Inr (if cached c = [] then None else Some (last (cached c)), c')"
    and c': "cache_ok F c'" "cached c' = butlast (cached c)" using cache_take_spec [OF c] by blast
  let ?p = "if cached c = [] then None else Some (last (cached c))"
  let ?r = "finish_acquire t c (r\<lparr>cr_pool := p\<rparr>)"
  have r': "?r = cr_set t c' H_Idle (r\<lparr>cr_pool := p, cr_res := (cr_res r)(t := Some (Returned ?p)), cr_out := cr_out r \<union> gives ?p\<rparr>)"
    by (simp add: finish_acquire_def tk)
  then show "cr_pool ?r = p" by (simp add: cr_set_def)
  have gv: "gives ?p = (if cached c = [] then {} else {last (cached c)})" by simp
  have "places_ok [] ((own r)(t := butlast (cached c))) (cr_out r \<union> gives ?p) (pr_out p)"
    unfolding gv by (rule places_pop_top [OF pl])
  moreover have "cr_lost r \<or> places_full [] ((own r)(t := butlast (cached c))) (cr_out r \<union> gives ?p) (pr_out p)"
    unfolding gv using full places_full_pop_top by blast
  ultimately show "own_inv B F ?r"
    by (intro own_inv_update [OF inv, where t = t])
      (use own_invD(1) [OF inv] c' idle others in \<open>simp_all add: r' cr_set_def\<close>)
qed

lemma finish_release_ok:
  assumes inv: "own_inv B F r" and c: "cache_ok F c" "unat (tc_count c) < unat F" and idle: "pr_pc p t = A_Idle"
    and others: "\<forall>u. u \<noteq> t \<longrightarrow> pr_pc p u = pr_pc (cr_pool r) u"
    and pl: "places_ok [] ((own r)(t := cached c @ [a])) out (pr_out p)"
    and full: "cr_lost r \<or> places_full [] ((own r)(t := cached c @ [a])) out (pr_out p)"
  shows "own_inv B F (finish_release t a c (r\<lparr>cr_pool := p, cr_out := out\<rparr>))"
    "cr_pool (finish_release t a c (r\<lparr>cr_pool := p, cr_out := out\<rparr>)) = p"
proof -
  note push = cache_push_spec [OF c, of a]
  have r': "finish_release t a c (r\<lparr>cr_pool := p, cr_out := out\<rparr>) =
      cr_set t (c\<lparr>tc_slots := (tc_slots c)[unat (tc_count c) := Some a], tc_count := tc_count c + 1\<rparr>) H_Idle
        (r\<lparr>cr_pool := p, cr_out := out\<rparr>)"
    using c(2) cache_okD(1) [OF c(1)] by (simp add: finish_release_def cache_put_def)
  then show "cr_pool (finish_release t a c (r\<lparr>cr_pool := p, cr_out := out\<rparr>)) = p" by (simp add: cr_set_def)
  show "own_inv B F (finish_release t a c (r\<lparr>cr_pool := p, cr_out := out\<rparr>))"
    unfolding r' by (intro own_inv_update [OF inv, where t = t])
      (use own_invD(1) [OF inv] push idle others pl full in \<open>simp_all add: cr_set_def\<close>)
qed

text \<open>The start of a batch call.\<close>

lemma call_ok:
  assumes inv: "pool_run_inv P p" and "pr_pc p t = A_Idle" and "call_allowed c (pr_out p)" and "\<not> is_empty_batch c"
  shows "\<exists>p'. pool_act fx (PoolCall t c) p = Some p' \<and>
    pr_pc p' = (pr_pc p)(t := A_Destroy (map Some (call_nodes c)) c) \<and> pr_out p' = pr_out p - set (call_nodes c)"
  using assms pool_run_invD(2) [OF inv] by (simp add: pool_act_def pool_goto_def)

lemma call_pool_ok:
  assumes inv: "cr_inv B F P r" and pc: "cr_pc r t = H_Idle"
    and c: "call_allowed c (pr_out (cr_pool r))" "\<not> is_empty_batch c"
    and link: "call_link B l (cr_caches r t) (A_Destroy (map Some (call_nodes c)) c)"
    and ys: "cached (cr_caches r t) = xs @ call_nodes c" "zs = [] \<or> zs = [a] \<and> a \<in> cr_out r"
    and l: "cache_nodes l (cr_caches r t) = xs @ zs"
  shows "own_inv B F (call_pool fx t c l (r\<lparr>cr_out := cr_out r - set zs\<rparr>)) \<and>
    pool_act fx (PoolCall t c) (cr_pool r) = Some (cr_pool (call_pool fx t c l (r\<lparr>cr_out := cr_out r - set zs\<rparr>)))"
proof -
  have pinv: "pool_run_inv P (cr_pool r)" and own: "own_inv B F r" using inv by (simp_all add: cr_inv_def)
  note i = own_invD [OF own]
  have "pr_pc (cr_pool r) t = A_Idle" using i(3) [of t] pc by simp
  from call_ok [OF pinv this c, of fx] obtain p where act: "pool_act fx (PoolCall t c) (cr_pool r) = Some p"
    and p: "pr_pc p = (pr_pc (cr_pool r))(t := A_Destroy (map Some (call_nodes c)) c)"
      "pr_out p = pr_out (cr_pool r) - set (call_nodes c)" by blast
  let ?r = "r\<lparr>cr_out := cr_out r - set zs, cr_pool := p, cr_pc := (cr_pc r)(t := l)\<rparr>"
  have eq: "call_pool fx t c l (r\<lparr>cr_out := cr_out r - set zs\<rparr>) = ?r" by (simp add: call_pool_def act)
  have mine: "own r t = xs @ call_nodes c" by (simp add: pc ys(1))
  let ?C = "(own r)(t := own r t @ zs)"
  have triv: "(own r)(t := own r t) = own r" by (rule fun_upd_triv)
  have pl: "places_ok [] ?C (cr_out r - set zs) (pr_out (cr_pool r))"
    using ys(2)
  proof (elim disjE conjE)
    assume "zs = [a]" "a \<in> cr_out r"
    then show ?thesis using places_take_back [OF i(4), of a t] by simp
  qed (use i(4) triv in simp)
  have fl: "cr_lost r \<or> places_full [] ?C (cr_out r - set zs) (pr_out (cr_pool r))"
    using i(5)
  proof
    assume "places_full [] (own r) (cr_out r) (pr_out (cr_pool r))"
    from places_full_move [OF this, of t "[]" "own r t @ zs" "cr_out r - set zs"] show ?thesis by auto
  qed simp
  have dj: "distinct (xs @ call_nodes c @ zs)" using places_cacheD(1) [OF pl, of t] mine by simp
  have sub: "set (xs @ zs) \<subseteq> set (?C t)" "set (call_nodes c) \<subseteq> set (?C t)"
    "set (?C t) \<subseteq> set (xs @ zs) \<union> set (call_nodes c)" using mine by auto
  have "places_ok [] (?C(t := xs @ zs)) (cr_out r - set zs) (pr_out p)"
    unfolding p(2) by (rule places_retire [OF pl _ sub(1,2)]) (use dj in auto)
  moreover have "cr_lost r \<or> places_full [] (?C(t := xs @ zs)) (cr_out r - set zs) (pr_out p)"
    using fl places_full_retire [of ?C "cr_out r - set zs" "pr_out (cr_pool r)" t, OF _ sub(3)] unfolding p(2) by blast
  ultimately have "own_inv B F ?r"
    by (intro own_inv_update [OF own, where t = t]) (use i(1) i(2) [of t] link p(1) l in simp_all)
  then show ?thesis using act eq by simp
qed

section \<open>The operations keep them\<close>

lemma cr_invD:
  assumes "cr_inv B F P r"
  shows "2 \<le> F" "B \<le> F" "pool_run_inv P (cr_pool r)" "own_inv B F r"
  using assms by (simp_all add: cr_inv_def)

text \<open>A step that is a step of the pool, or none there.\<close>

definition pool_moves :: "'k futex \<Rightarrow> ('a, 'k) cached_run \<Rightarrow> ('a, 'k) cached_run \<Rightarrow> bool" where
  "pool_moves fx r r' \<longleftrightarrow> cr_pool r' = cr_pool r \<or> (\<exists>a. pool_act fx a (cr_pool r) = Some (cr_pool r'))"

lemma own_inv_res: "own_inv B F (r\<lparr>cr_res := x\<rparr>) = own_inv B F r"
  by (simp add: own_inv_def)

lemma cr_inv_res: "cr_inv B F P (r\<lparr>cr_res := x\<rparr>) = cr_inv B F P r"
  by (simp add: cr_inv_def own_inv_res)

lemma start_acquire_ok:
  assumes inv: "cr_inv B F P r" and pc: "cr_pc r t = H_Idle"
  shows "own_inv B F (start_acquire fx B t ctors r) \<and> pool_moves fx r (start_acquire fx B t ctors r)"
proof -
  note v = cr_invD [OF inv] and i = own_invD [OF cr_invD(4) [OF inv]]
  note c = cache_okD [OF i(2) [of t]] cached_empty [OF i(2) [of t]]
  show ?thesis
  proof (cases "tc_count (cr_caches r t) = 0")
    case True
    let ?c = "CallAcquireBatch ctors (tc_slots (cr_caches r t)) B"
    have "call_allowed ?c (pr_out (cr_pool r))" using v(2) c(1) by (simp add: word_le_nat_alt)
    moreover have "cached (cr_caches r t) = [] @ call_nodes ?c" using True c(6) by simp
    ultimately show ?thesis
      using call_pool_ok [OF inv pc, of ?c H_Refill "[]" "[]"] True
      by (auto simp: start_acquire_def pool_moves_def)
  next
    case False
    have triv: "(own r)(t := cached (cr_caches r t)) = own r" using pc by (auto simp: fun_eq_iff)
    have "pr_pc (cr_pool r) t = A_Idle" using i(3) [of t] pc by simp
    from finish_acquire_ok [OF v(4) i(2) [of t] this] i(4,5) triv False show ?thesis
      by (simp add: start_acquire_def pool_moves_def)
  qed
qed

text \<open>What the batch of a flush is.\<close>

lemma batch_nodes_cached:
  assumes c: "cache_ok F c" and m: "m \<le> tc_count c"
  shows "batch_nodes (unat (tc_count c - m)) m c = map Some (drop (unat (tc_count c - m)) (cached c))"
    "cached c = cached (c\<lparr>tc_count := tc_count c - m\<rparr>) @ drop (unat (tc_count c - m)) (cached c)"
    "cache_ok F (c\<lparr>tc_count := tc_count c - m\<rparr>)"
proof -
  have un: "unat (tc_count c - m) = unat (tc_count c) - unat m"
    by (subst unat_minus_bounded) (use m in \<open>simp_all add: word_le_nat_alt\<close>)
  have le: "tc_count c - m \<le> tc_count c" using un by (simp add: word_le_nat_alt)
  have mn: "unat m \<le> unat (tc_count c)" using m by (simp add: word_le_nat_alt)
  note d = cache_okD [OF c] and cut = cache_cut [OF c le]
  have "batch_nodes (unat (tc_count c - m)) m c =
      take (unat m) (drop (unat (tc_count c) - unat m) (tc_slots c))" by (simp add: batch_nodes_def un)
  also have "\<dots> = drop (unat (tc_count c) - unat m) (take (unat (tc_count c)) (tc_slots c))"
    using mn by (simp add: drop_take)
  also have "\<dots> = map Some (drop (unat (tc_count c - m)) (cached c))" by (simp add: d(5) [symmetric] drop_map un)
  finally show "batch_nodes (unat (tc_count c - m)) m c = map Some (drop (unat (tc_count c - m)) (cached c))" .
  show "cache_ok F (c\<lparr>tc_count := tc_count c - m\<rparr>)" by (rule cut(1))
  show "cached c = cached (c\<lparr>tc_count := tc_count c - m\<rparr>) @ drop (unat (tc_count c - m)) (cached c)"
    by (simp add: cut(2))
qed

lemma release_flushes:
  assumes inv: "cr_inv B F P r" and pc: "cr_pc r t = H_Idle" and a: "a \<in> cr_out r"
    and half: "F \<le> tc_count (cr_caches r t) \<and> 0 < tc_count (cr_caches r t) div 2"
  defines "r0 \<equiv> r\<lparr>cr_out := cr_out r - {a}\<rparr>"
  shows "own_inv B F (start_release fx F t a r0) \<and> pool_moves fx r (start_release fx F t a r0)"
proof -
  let ?c = "cr_caches r t" and ?half = "tc_count (cr_caches r t) div 2"
  note i = own_invD [OF cr_invD(4) [OF inv]]
  note c = cache_okD [OF i(2) [of t]]
  have le: "?half \<le> tc_count ?c" by (simp add: word_le_nat_alt unat_div)
  note b = batch_nodes_cached [OF i(2) [of t] le]
  let ?ys = "drop (unat (tc_count ?c - ?half)) (cached ?c)"
  let ?call = "CallReleaseBatch ?ys"
  have "0 < unat ?half" "unat ?half \<le> unat (tc_count ?c)"
    using half le by (auto simp: word_less_nat_alt word_le_nat_alt)
  then have "unat (tc_count ?c - ?half) < length (cached ?c)"
    unfolding c(4) by (subst unat_minus_bounded) simp_all
  then have ne: "?ys \<noteq> []" by simp
  have "distinct ?ys \<and> set ?ys \<subseteq> pr_out (cr_pool r)"
    using places_cacheD(1,4) [OF i(4), of t] pc by (auto dest: in_set_dropD)
  then have "call_allowed ?call (pr_out (cr_pool r))" by simp
  moreover have "cached ?c = cached (?c\<lparr>tc_count := tc_count ?c - ?half\<rparr>) @ call_nodes ?call" using b(2) by simp
  moreover have "start_release fx F t a r0 = call_pool fx t ?call (H_FlushHalf a ?half) (r\<lparr>cr_out := cr_out r - set [a]\<rparr>)"
    using half b(1) by (simp add: start_release_def r0_def Let_def call_release_def image_iff comp_def)
  ultimately show ?thesis
    using call_pool_ok [OF inv pc, of ?call "H_FlushHalf a ?half" "cached (?c\<lparr>tc_count := tc_count ?c - ?half\<rparr>)" "[a]" a]
      ne half le a by (auto simp: pool_moves_def)
qed

lemma release_caches:
  assumes inv: "cr_inv B F P r" and pc: "cr_pc r t = H_Idle" and a: "a \<in> cr_out r"
    and less: "\<not> (F \<le> tc_count (cr_caches r t) \<and> 0 < tc_count (cr_caches r t) div 2)"
  defines "r0 \<equiv> r\<lparr>cr_out := cr_out r - {a}\<rparr>"
  shows "own_inv B F (start_release fx F t a r0) \<and> pool_moves fx r (start_release fx F t a r0)"
proof -
  let ?c = "cr_caches r t" and ?half = "tc_count (cr_caches r t) div 2"
  note v = cr_invD [OF inv] and i = own_invD [OF cr_invD(4) [OF inv]]
  have lt: "unat (tc_count ?c) < unat F"
  proof (rule ccontr)
    assume "\<not> unat (tc_count ?c) < unat F"
    then have "2 \<le> tc_count ?c" "F \<le> tc_count ?c" using v(1) by (simp_all add: word_le_nat_alt)
    then have "0 < unat (tc_count ?c) div 2" by (simp add: word_le_nat_alt)
    then have "0 < ?half" by (simp add: word_less_nat_alt unat_div)
    with less \<open>F \<le> tc_count ?c\<close> show False by simp
  qed
  have idle: "pr_pc (cr_pool r) t = A_Idle" using i(3) [of t] pc by simp
  have pl: "places_ok [] ((own r)(t := cached ?c @ [a])) (cr_out r - {a}) (pr_out (cr_pool r))"
    using places_take_back [OF i(4) a, of t] pc by simp
  have "cr_lost r \<or> places_full [] ((own r)(t := cached ?c @ [a])) (cr_out r - {a}) (pr_out (cr_pool r))"
    using i(5)
  proof
    assume "places_full [] (own r) (cr_out r) (pr_out (cr_pool r))"
    from places_full_move [OF this, of t "[]" "cached ?c @ [a]" "cr_out r - {a}"] pc show ?thesis by auto
  qed simp
  note fin = finish_release_ok [OF v(4) i(2) [of t] lt idle _ pl this]
  have "start_release fx F t a r0 = finish_release t a ?c (r\<lparr>cr_pool := cr_pool r, cr_out := cr_out r - {a}\<rparr>)"
    using less by (auto simp: start_release_def r0_def Let_def)
  with fin show ?thesis by (simp add: pool_moves_def)
qed

lemma start_release_ok:
  assumes "cr_inv B F P r" and "cr_pc r t = H_Idle" and "a \<in> cr_out r"
  shows "own_inv B F (start_release fx F t a (r\<lparr>cr_out := cr_out r - {a}\<rparr>)) \<and>
    pool_moves fx r (start_release fx F t a (r\<lparr>cr_out := cr_out r - {a}\<rparr>))"
  using release_flushes [OF assms] release_caches [OF assms] by blast

lemma start_flush_ok:
  assumes inv: "cr_inv B F P r" and pc: "cr_pc r t = H_Idle"
  shows "own_inv B F (start_flush fx t r) \<and> pool_moves fx r (start_flush fx t r)"
proof -
  let ?c = "cr_caches r t"
  note v = cr_invD [OF inv] and i = own_invD [OF cr_invD(4) [OF inv]]
  note c = cache_okD [OF i(2) [of t]] cached_empty [OF i(2) [of t]]
  show ?thesis
  proof (cases "0 < tc_count ?c")
    case True
    let ?call = "CallReleaseBatch (cached ?c)"
    have "cached ?c \<noteq> []" using True c(6) by auto
    moreover have "call_allowed ?call (pr_out (cr_pool r))"
      using places_cacheD(1,4) [OF i(4), of t] pc by simp
    moreover have "start_flush fx t r = call_pool fx t ?call H_FlushAll r"
      using True batch_nodes_cached(1) [OF i(2) [of t], of "tc_count ?c"]
      by (simp add: start_flush_def Let_def call_release_def image_iff comp_def)
    ultimately show ?thesis
      using call_pool_ok [OF inv pc, of ?call H_FlushAll "[]" "[]"] by (auto simp: pool_moves_def)
  qed (use v(4) in \<open>simp add: start_flush_def pool_moves_def\<close>)
qed

text \<open>The return of a batch call.\<close>

lemma refill_cache:
  assumes "cache_ok F c" and "B \<le> F" and len: "length ps \<le> unat B" and ps: "ps = map Some as"
  shows "cache_ok F (c\<lparr>tc_slots := ps @ drop (length ps) (tc_slots c), tc_count := of_nat (length ps)\<rparr>)"
    "cached (c\<lparr>tc_slots := ps @ drop (length ps) (tc_slots c), tc_count := of_nat (length ps)\<rparr>) = as"
proof -
  have BF: "unat B \<le> unat F" using assms(2) by (simp add: word_le_nat_alt)
  have un: "unat (of_nat (length ps) :: size_t) = length ps"
    using len unsigned_less [of B, where 'a = nat] by (simp add: unat_of_nat take_bit_nat_eq_self)
  have tk: "take (length ps) (ps @ drop (length ps) (tc_slots c)) = ps" by simp
  show "cache_ok F (c\<lparr>tc_slots := ps @ drop (length ps) (tc_slots c), tc_count := of_nat (length ps)\<rparr>)"
    unfolding cache_ok_def using len BF cache_okD(1) [OF assms(1)]
    by (simp add: un tk word_le_nat_alt) (simp add: ps image_iff)
  show "cached (c\<lparr>tc_slots := ps @ drop (length ps) (tc_slots c), tc_count := of_nat (length ps)\<rparr>) = as"
    unfolding cached_def by (simp add: un tk) (simp add: ps comp_def)
qed

lemma refill_returned_ok:
  assumes inv: "cr_inv B F P r" and pc: "cr_pc r t = H_Refill" and at: "pr_pc (cr_pool r) t = A_Unlock (Returned ps)"
    and others: "\<forall>u. u \<noteq> t \<longrightarrow> pr_pc p u = pr_pc (cr_pool r) u" and idle: "pr_pc p t = A_Idle"
    and out: "pr_out p = pr_out (cr_pool r) \<union> handed_out (Returned ps)"
  shows "own_inv B F (batch_returned t H_Refill (Some (Returned ps)) (r\<lparr>cr_pool := p\<rparr>))"
    "cr_pool (batch_returned t H_Refill (Some (Returned ps)) (r\<lparr>cr_pool := p\<rparr>)) = p"
proof -
  note v = cr_invD [OF inv] and i = own_invD [OF cr_invD(4) [OF inv]]
  note q = pool_run_invD(6) [OF v(3)] pool_run_invD(10) [OF v(3), of t]
  let ?c = "cr_caches r t\<lparr>tc_slots := ps @ drop (length ps) (tc_slots (cr_caches r t)), tc_count := of_nat (length ps)\<rparr>"
  have some: "None \<notin> set ps" using q(2) at by simp
  have len: "length ps \<le> unat B" using i(3) [of t] pc at by simp
  have ps: "ps = map Some (map the ps)" using some by (induction ps) auto
  note c = refill_cache [OF i(2) v(2) len ps]
  have fresh: "distinct (map the ps)" "set (map the ps) \<inter> pr_out (cr_pool r) = {}"
    using places_cacheD(1,3) [OF q(1), of t] at by simp_all
  have mine: "own r t = []" using pc by simp
  have pl: "places_ok [] ((own r)(t := cached ?c)) (cr_out r) (pr_out p)"
    unfolding out c(2) using places_new [OF i(4) fresh, of t] by simp
  have "cr_lost r \<or> places_full [] ((own r)(t := cached ?c)) (cr_out r) (pr_out p)"
    unfolding out c(2) using i(5) places_full_new [of "own r" "cr_out r" "pr_out (cr_pool r)" t "map the ps"] mine by auto
  from finish_acquire_ok [OF v(4) c(1) idle others pl this]
  show "own_inv B F (batch_returned t H_Refill (Some (Returned ps)) (r\<lparr>cr_pool := p\<rparr>))"
    "cr_pool (batch_returned t H_Refill (Some (Returned ps)) (r\<lparr>cr_pool := p\<rparr>)) = p" by simp_all
qed

lemma flush_returned_ok:
  assumes inv: "cr_inv B F P r" and pc: "cr_pc r t = H_FlushHalf a half" and at: "pr_pc (cr_pool r) t = A_Unlock res"
    and others: "\<forall>u. u \<noteq> t \<longrightarrow> pr_pc p u = pr_pc (cr_pool r) u" and idle: "pr_pc p t = A_Idle"
    and out: "pr_out p = pr_out (cr_pool r) \<union> handed_out res"
  shows "own_inv B F (batch_returned t (H_FlushHalf a half) (Some res) (r\<lparr>cr_pool := p\<rparr>))"
    "cr_pool (batch_returned t (H_FlushHalf a half) (Some res) (r\<lparr>cr_pool := p\<rparr>)) = p"
proof -
  note v = cr_invD [OF inv] and i = own_invD [OF cr_invD(4) [OF inv]]
  let ?c = "cr_caches r t\<lparr>tc_count := tc_count (cr_caches r t) - half\<rparr>"
  from i(3) [of t] pc at have l: "0 < half" "half \<le> tc_count (cr_caches r t)" and res: "res = Returned []" by simp_all
  have c: "cache_ok F ?c" by (rule batch_nodes_cached(3) [OF i(2) l(2)])
  have "unat half \<le> unat (tc_count (cr_caches r t))" "0 < unat half"
    using l by (simp_all add: word_le_nat_alt word_less_nat_alt)
  then have "unat (tc_count ?c) < unat (tc_count (cr_caches r t))" by simp (subst unat_minus_bounded, simp_all)
  then have lt: "unat (tc_count ?c) < unat F" using cache_okD(2) [OF i(2) [of t]] by simp
  have triv: "(own r)(t := cached ?c @ [a]) = own r" using pc by (auto simp: fun_eq_iff)
  have po: "pr_out p = pr_out (cr_pool r)" using out res by simp
  have pl: "places_ok [] ((own r)(t := cached ?c @ [a])) (cr_out r) (pr_out p)" unfolding triv po by (rule i(4))
  have "cr_lost r \<or> places_full [] ((own r)(t := cached ?c @ [a])) (cr_out r) (pr_out p)" unfolding triv po by (rule i(5))
  from finish_release_ok [OF v(4) c lt idle others pl this]
  show "own_inv B F (batch_returned t (H_FlushHalf a half) (Some res) (r\<lparr>cr_pool := p\<rparr>))"
    "cr_pool (batch_returned t (H_FlushHalf a half) (Some res) (r\<lparr>cr_pool := p\<rparr>)) = p" by simp_all
qed

text \<open>An access inside a batch call, and the one that ends it.\<close>

lemma inside_ok:
  assumes inv: "cr_inv B F P r" and act: "pool_act fx (PoolStep t) (cr_pool r) = Some p"
    and "pr_out p = pr_out (cr_pool r)" and "in_acquire B (pr_pc (cr_pool r) t) \<longrightarrow> in_acquire B (pr_pc p t)"
    and "in_release (pr_pc (cr_pool r) t) \<longrightarrow> in_release (pr_pc p t)"
  shows "own_inv B F (r\<lparr>cr_pool := p\<rparr>)"
proof -
  note v = cr_invD [OF inv] and i = own_invD [OF cr_invD(4) [OF inv]]
  have triv: "(own r)(t := own r t) = own r" by (rule fun_upd_triv)
  have "pr_pc (cr_pool r) t \<noteq> A_Idle" using act by (auto simp: pool_act_def split: if_splits)
  then have "call_link B (cr_pc r t) (cr_caches r t) (pr_pc p t)"
    using i(3) [of t] assms(4,5) by (cases "cr_pc r t") auto
  then show ?thesis
    by (intro own_inv_update [OF v(4), where t = t]) (use batch_step(1) [OF v(3) act] i triv assms(3) in simp_all)
qed

lemma returned_ok:
  assumes inv: "cr_inv B F P r" and at: "pr_pc (cr_pool r) t = A_Unlock res"
    and others: "\<forall>u. u \<noteq> t \<longrightarrow> pr_pc p u = pr_pc (cr_pool r) u" and idle: "pr_pc p t = A_Idle"
    and out: "pr_out p = pr_out (cr_pool r) \<union> handed_out res"
  shows "own_inv B F (batch_returned t (cr_pc r t) (Some res) (r\<lparr>cr_pool := p\<rparr>)) \<and>
    cr_pool (batch_returned t (cr_pc r t) (Some res) (r\<lparr>cr_pool := p\<rparr>)) = p"
proof -
  note v = cr_invD [OF inv] and i = own_invD [OF cr_invD(4) [OF inv]]
  have triv: "(own r)(t := []) = own r" if "own r t = []" using that by (auto simp: fun_eq_iff)
  show ?thesis
  proof (cases "cr_pc r t")
    case H_Idle
    with i(3) [of t] at show ?thesis by simp
  next
    case H_Refill
    show ?thesis
    proof (cases res)
      case (Returned ps)
      with refill_returned_ok [OF inv H_Refill _ others idle, of ps] at out show ?thesis by (simp add: H_Refill)
    next
      case Threw
      have "cached (cr_caches r t) = []" using i(3) [of t] H_Refill cached_empty [OF i(2) [of t]] by simp
      then have "own_inv B F (cr_set t (cr_caches r t) H_Idle (r\<lparr>cr_pool := p, cr_res := (cr_res r)(t := Some Threw)\<rparr>))"
        by (intro own_inv_update [OF v(4), where t = t])
          (use others i(1,4,5) i(2) [of t] idle out Threw triv H_Refill in \<open>simp_all add: cr_set_def\<close>)
      then show ?thesis by (simp add: H_Refill Threw cr_set_def)
    qed
  next
    case (H_FlushHalf a half)
    with flush_returned_ok [OF inv H_FlushHalf at others idle out] show ?thesis by simp
  next
    case H_FlushAll
    with i(3) [of t] at have res: "res = Returned []" by simp
    note cut = cache_cut [OF i(2) [of t], of 0, simplified]
    have "own_inv B F (cr_set t (cr_caches r t\<lparr>tc_count := 0\<rparr>) H_Idle (r\<lparr>cr_pool := p\<rparr>))"
      by (rule own_inv_update [OF v(4), where t = t])
        (use others i(1,4,5) cut idle out res triv H_FlushAll in \<open>simp_all add: cr_set_def\<close>)
    then show ?thesis by (simp add: H_FlushAll cr_set_def)
  qed
qed

lemma step_ok:
  assumes inv: "cr_inv B F P r" and act: "pool_act fx (PoolStep t) (cr_pool r) = Some p"
  defines "r' \<equiv> (if pr_pc p t = A_Idle then batch_returned t (cr_pc r t) (pr_res p t) (r\<lparr>cr_pool := p\<rparr>) else r\<lparr>cr_pool := p\<rparr>)"
  shows "own_inv B F r' \<and> pool_moves fx r r'"
proof -
  note st = batch_step [OF cr_invD(3) [OF inv] act]
  have "own_inv B F r' \<and> cr_pool r' = p"
    using st(2) [where B = B] inside_ok [OF inv act] returned_ok [OF inv _ st(1)] by (elim disjE exE conjE) (simp_all add: r'_def)
  with act show ?thesis by (auto simp: pool_moves_def)
qed

lemma exit_ok:
  assumes inv: "cr_inv B F P r" and pc: "cr_pc r t = H_Idle"
  shows "own_inv B F (cr_set t (fresh_cache F) H_Idle (r\<lparr>cr_lost := (cr_lost r \<or> tc_count (cr_caches r t) \<noteq> 0)\<rparr>))"
proof -
  note v = cr_invD [OF inv] and i = own_invD [OF cr_invD(4) [OF inv]]
  have idle: "pr_pc (cr_pool r) t = A_Idle" using i(3) [of t] pc by simp
  have triv: "(own r)(t := []) = own r" if "tc_count (cr_caches r t) = 0"
    using that cached_empty [OF i(2) [of t]] pc by (auto simp: fun_eq_iff)
  show ?thesis
    by (rule own_inv_update [OF v(4), where t = t])
      (use i(1,5) idle triv places_drop_cache [OF i(4), of t] fresh_cache_ok [of F] in \<open>auto simp: cr_set_def\<close>)
qed

lemma cr_do_ok:
  assumes inv: "cr_inv B F P r" and step: "cr_do fx B F a r = Some r'"
  shows "own_inv B F r' \<and> pool_moves fx r r'"
proof -
  note v = cr_invD [OF inv] and i = own_invD [OF cr_invD(4) [OF inv]]
  show ?thesis
  proof (cases a)
    case (CrAcquire t ctors)
    with step start_acquire_ok [of B F P "r\<lparr>cr_res := (cr_res r)(t := None)\<rparr>" t fx ctors] inv show ?thesis
      by (auto simp: cr_inv_res pool_moves_def split: if_splits)
  next
    case (CrRelease t x)
    with step start_release_ok [of B F P "r\<lparr>cr_res := (cr_res r)(t := None)\<rparr>" t x fx] inv show ?thesis
      by (auto simp: cr_inv_res pool_moves_def split: if_splits)
  next
    case (CrFlush t)
    with step start_flush_ok [of B F P "r\<lparr>cr_res := (cr_res r)(t := None)\<rparr>" t fx] inv show ?thesis
      by (auto simp: cr_inv_res pool_moves_def split: if_splits)
  next
    case (CrStep t)
    with step step_ok [OF inv, of fx t] show ?thesis by (auto simp: Let_def)
  next
    case (CrMutex m)
    with step obtain p where p: "pool_act fx (PoolMutex m) (cr_pool r) = Some p" "r' = r\<lparr>cr_pool := p\<rparr>" by auto
    then have "pr_pc p = pr_pc (cr_pool r)" "pr_out p = pr_out (cr_pool r)"
      by (auto simp: pool_act_def elim!: with_mutexE split: if_splits)
    with p v(4) show ?thesis by (auto simp: own_inv_def pool_moves_def)
  next
    case (CrUse x w)
    with step have x: "x \<in> cr_out r"
      and r': "r' = r\<lparr>cr_pool := (cr_pool r)\<lparr>pr_heap := (pr_heap (cr_pool r))(x := Some w)\<rparr>\<rparr>" by (auto split: if_splits)
    have "x \<in> pr_out (cr_pool r)" using places_okD(4) [OF i(4)] x by blast
    then have "pool_act fx (PoolUse x w) (cr_pool r) = Some (cr_pool r')"
      using pool_run_invD(2) [OF v(3)] by (simp add: pool_act_def r')
    with v(4) show ?thesis by (auto simp: own_inv_def pool_moves_def r')
  next
    case (CrExit t)
    with step exit_ok [OF inv, of t] show ?thesis by (auto simp: pool_moves_def cr_set_def split: if_splits)
  qed
qed

lemma cr_step_sim:
  assumes "cr_inv B F P r" and "cr_step fx B F r r'"
  shows "cr_inv B F P r' \<and> (cr_pool r' = cr_pool r \<or> pool_step fx (cr_pool r) (cr_pool r'))"
proof -
  from assms(2) obtain a where "cr_do fx B F a r = Some r'" by (auto simp: cr_act_def elim!: cr_stepE split: if_splits)
  from cr_do_ok [OF assms(1) this] have own: "own_inv B F r'" and mv: "pool_moves fx r r'" by simp_all
  have "pool_run_inv P (cr_pool r')" using mv cr_invD(3) [OF assms(1)] pool_act_inv by (auto simp: pool_moves_def)
  with own cr_invD(1,2) [OF assms(1)] mv show ?thesis by (auto simp: cr_inv_def pool_moves_def intro: pool_step.intros)
qed

lemma cr_init_sim:
  assumes "2 \<le> F" and "B \<le> F" and "cr_init fx F P r"
  shows "cr_inv B F P r \<and> pool_run_init fx P (cr_pool r)"
proof -
  have p: "pool_run_init fx P (cr_pool r)" using assms(3) by (simp add: cr_init_def)
  then have "pr_pc (cr_pool r) = (\<lambda>_. A_Idle)" "pr_out (cr_pool r) = {}" by (simp_all add: pool_run_init_def)
  with assms pool_init_inv [OF p] fresh_cache_ok [of F] show ?thesis
    by (simp add: cr_init_def cr_inv_def own_inv_def places_ok_def places_full_def)
qed

interpretation cached_pool: stutter_simulation "\<lambda>r. 2 \<le> F \<and> B \<le> F \<and> cr_init fx F P r" "cr_step fx B F"
  "cr_inv B F P" "pool_run_init fx P" "pool_step fx" cr_pool
  for B F :: size_t and fx :: "'k futex" and P :: pool
  by unfold_locales (blast dest: cr_init_sim, blast dest: cr_step_sim)

lemma cr_reachD:
  assumes "2 \<le> F" and "B \<le> F" and "cr_reach fx B F P r"
  shows "cr_inv B F P r" "pool_reach fx P (cr_pool r)"
  using cached_pool.reach_sim [of F B fx P r] assms by simp_all

section \<open>What a refill took\<close>

text \<open>The log of the pool shows what the batch took that a thread has in its hands.\<close>

definition refill_logged :: "size_t \<Rightarrow> ('a, 'k) pool_run \<Rightarrow> nat \<Rightarrow> bool" where
  "refill_logged B p t \<longleftrightarrow> (\<forall>ps. pr_pc p t = A_Unlock (Returned ps) \<longrightarrow>
     (\<exists>c as. map_of (pr_log p) t = Some (c, as) \<and> acquires B c \<and> ps = map Some as))"

definition took_none :: "size_t \<Rightarrow> ('a, 'k) pool_run \<Rightarrow> nat \<Rightarrow> bool" where
  "took_none B p t \<longleftrightarrow> (\<exists>c. map_of (pr_log p) t = Some (c, []) \<and> acquires B c)"

definition acquire_inv :: "size_t \<Rightarrow> ('a, 'k) cached_run \<Rightarrow> bool" where
  "acquire_inv B r \<longleftrightarrow> (\<forall>t. (cr_pc r t = H_Refill \<longrightarrow> refill_logged B (cr_pool r) t) \<and>
     (cr_pc r t \<noteq> H_Idle \<longrightarrow> cr_res r t = None) \<and>
     (cr_pc r t = H_Idle \<and> cr_res r t = Some (Returned None) \<longrightarrow> took_none B (cr_pool r) t))"

fun cr_actor :: "'a cached_action \<Rightarrow> nat option" where
  "cr_actor (CrAcquire t ctors) = Some t"
| "cr_actor (CrRelease t a) = Some t"
| "cr_actor (CrFlush t) = Some t"
| "cr_actor (CrStep t) = Some t"
| "cr_actor (CrExit t) = Some t"
| "cr_actor _ = None"

lemma call_pool_frame:
  "cr_caches (call_pool fx t c l r) = cr_caches r" "cr_out (call_pool fx t c l r) = cr_out r"
  "u \<noteq> t \<Longrightarrow> cr_pc (call_pool fx t c l r) u = cr_pc r u" "cr_res (call_pool fx t c l r) = cr_res r"
  "u \<noteq> t \<Longrightarrow> pr_pc (cr_pool (call_pool fx t c l r)) u = pr_pc (cr_pool r) u"
  "pr_log (cr_pool (call_pool fx t c l r)) = pr_log (cr_pool r)"
  "cr_pc (call_pool fx t c l r) t = l \<and>
     (is_empty_batch c \<or> pr_pc (cr_pool (call_pool fx t c l r)) t = A_Destroy (map Some (call_nodes c)) c) \<or>
   cr_fault (call_pool fx t c l r) \<noteq> None"
  by (auto simp: call_pool_def cr_fail_def pool_act_def pool_goto_def split: option.splits if_splits)

lemma finish_frame:
  "u \<noteq> t \<Longrightarrow> cr_caches (finish_acquire t c r) u = cr_caches r u"
  "u \<noteq> t \<Longrightarrow> cr_caches (finish_release t a c r) u = cr_caches r u" "cr_out (finish_release t a c r) = cr_out r"
  "u \<noteq> t \<Longrightarrow> cr_pc (finish_acquire t c r) u = cr_pc r u" "u \<noteq> t \<Longrightarrow> cr_res (finish_acquire t c r) u = cr_res r u"
  "cr_pool (finish_acquire t c r) = cr_pool r"
  "u \<noteq> t \<Longrightarrow> cr_pc (finish_release t a c r) u = cr_pc r u" "cr_res (finish_release t a c r) = cr_res r"
  "cr_pool (finish_release t a c r) = cr_pool r"
  by (auto simp: finish_acquire_def finish_release_def cr_fail_def cr_set_def split: sum.splits)

lemma call_release_frame:
  "cr_caches (call_release fx t ps l r) = cr_caches r"
  "u \<noteq> t \<Longrightarrow> cr_pc (call_release fx t ps l r) u = cr_pc r u" "cr_res (call_release fx t ps l r) = cr_res r"
  "u \<noteq> t \<Longrightarrow> pr_pc (cr_pool (call_release fx t ps l r)) u = pr_pc (cr_pool r) u"
  "pr_log (cr_pool (call_release fx t ps l r)) = pr_log (cr_pool r)"
  by (auto simp: call_release_def call_pool_frame cr_fail_def)

lemma batch_returned_frame:
  "u \<noteq> t \<Longrightarrow> cr_caches (batch_returned t l res r) u = cr_caches r u"
  "u \<noteq> t \<Longrightarrow> cr_pc (batch_returned t l res r) u = cr_pc r u" "u \<noteq> t \<Longrightarrow> cr_res (batch_returned t l res r) u = cr_res r u"
  "cr_pool (batch_returned t l res r) = cr_pool r"
  by (cases "(t, l, res, r)" rule: batch_returned.cases; simp add: finish_frame cr_set_def)+

text \<open>What an access of a batch call does to the log.\<close>

lemma log_step:
  assumes inv: "pool_run_inv P p" and act: "pool_act fx (PoolStep t) p = Some p'"
  shows "u \<noteq> t \<Longrightarrow> map_of (pr_log p') u = map_of (pr_log p) u"
    "pr_log p' = pr_log p \<or> (\<exists>c. pr_pc p t = A_Lock c \<and>
       pr_log p' = (t, c, spec_taken c (pool_free (members p))) # pr_log p)"
    "in_acquire B (pr_pc p t) \<Longrightarrow> refill_logged B p' t"
proof -
  have step: "pool_access fx t (pr_pc p t) p = Some p'" using act by (simp add: pool_act_def split: if_splits)
  have nf: "pr_fault p' = None" using pool_run_invD(2) [OF pool_act_inv [OF inv act]] .
  have lg: "pr_log p' = pr_log p \<or> (\<exists>c. pr_pc p t = A_Lock c \<and>
      pr_log p' = (t, c, spec_taken c (pool_free (members p))) # pr_log p)"
  proof (cases "pr_pc p t")
    case (A_Destroy ps c)
    with step show ?thesis by (cases ps) (auto simp: pool_goto_def split: sum.splits elim!: with_mutexE)
  next
    case (A_Lock c)
    from member_step [OF inv this step nf] A_Lock show ?thesis by auto
  next
    case (A_Build c i xs ys)
    with step show ?thesis by (cases ys) (auto simp: pool_goto_def split: sum.splits option.splits)
  qed (use step in \<open>auto simp: pool_goto_def elim!: with_mutexE\<close>)
  then show "pr_log p' = pr_log p \<or> (\<exists>c. pr_pc p t = A_Lock c \<and>
      pr_log p' = (t, c, spec_taken c (pool_free (members p))) # pr_log p)" .
  show "u \<noteq> t \<Longrightarrow> map_of (pr_log p') u = map_of (pr_log p) u" using lg by auto
  show "refill_logged B p' t" if at: "in_acquire B (pr_pc p t)"
    unfolding refill_logged_def
  proof (intro allI impI)
    fix ps assume un: "pr_pc p' t = A_Unlock (Returned ps)"
    show "\<exists>c as. map_of (pr_log p') t = Some (c, as) \<and> acquires B c \<and> ps = map Some as"
    proof (cases "pr_pc p t")
      case (A_Build c i xs ys)
      with step un nf have ys: "ys = []" "ps = xs"
        by (cases ys; auto simp: pool_goto_def split: sum.splits option.splits)+
      with A_Build lg have "pr_log p' = pr_log p" by auto
      with pool_run_invD(12) [OF inv, of t] A_Build ys at show ?thesis by auto
    next
      case (A_Destroy qs c)
      with step un show ?thesis by (cases qs) (auto simp: pool_goto_def split: sum.splits elim!: with_mutexE)
    next
      case (A_Lock c)
      from member_step [OF inv this step nf] un show ?thesis by auto
    next
      case (A_Unlock res)
      with step un show ?thesis by (auto simp: pool_goto_def elim!: with_mutexE)
    qed (use step in simp)
  qed
qed

lemma cr_do_others:
  assumes inv: "cr_inv B F P r" and step: "cr_do fx B F a r = Some r'" and u: "cr_actor a \<noteq> Some u"
  shows "cr_caches r' u = cr_caches r u \<and> cr_pc r' u = cr_pc r u \<and> cr_res r' u = cr_res r u \<and> pr_pc (cr_pool r') u = pr_pc (cr_pool r) u \<and>
    map_of (pr_log (cr_pool r')) u = map_of (pr_log (cr_pool r)) u"
proof (cases a)
  case (CrAcquire t ctors)
  with step u show ?thesis
    by (auto simp: start_acquire_def Let_def call_pool_frame finish_frame split: if_splits)
next
  case (CrRelease t x)
  with step u show ?thesis
    by (auto simp: start_release_def Let_def call_release_frame finish_frame split: if_splits)
next
  case (CrFlush t)
  with step u show ?thesis by (auto simp: start_flush_def Let_def call_release_frame split: if_splits)
next
  case (CrStep t)
  with step obtain p where p: "pool_act fx (PoolStep t) (cr_pool r) = Some p"
    and r': "r' = (if pr_pc p t = A_Idle then batch_returned t (cr_pc r t) (pr_res p t) (r\<lparr>cr_pool := p\<rparr>) else r\<lparr>cr_pool := p\<rparr>)"
    by (auto simp: Let_def)
  note pinv = cr_invD(3) [OF inv]
  from u CrStep have ne: "u \<noteq> t" by auto
  with batch_step(1) [OF pinv p] log_step(1) [OF pinv p ne] show ?thesis
    by (simp add: r' batch_returned_frame)
qed (use step u in \<open>auto simp: pool_act_def cr_set_def elim!: with_mutexE split: if_splits\<close>)

text \<open>The thread that acts.\<close>

abbreviation acquire_at :: "size_t \<Rightarrow> ('a, 'k) cached_run \<Rightarrow> nat \<Rightarrow> bool" where
  "acquire_at B r t \<equiv> (cr_pc r t = H_Refill \<longrightarrow> refill_logged B (cr_pool r) t) \<and>
     (cr_pc r t \<noteq> H_Idle \<longrightarrow> cr_res r t = None) \<and>
     (cr_pc r t = H_Idle \<and> cr_res r t = Some (Returned None) \<longrightarrow> took_none B (cr_pool r) t)"

lemma finish_acquire_result:
  assumes "cache_ok F c"
  shows "cr_pc (finish_acquire t c r) t = H_Idle"
    "cr_res (finish_acquire t c r) t = Some (Returned (if cached c = [] then None else Some (last (cached c))))"
    "cached (cr_caches (finish_acquire t c r) t) = butlast (cached c)"
    "cr_out (finish_acquire t c r) = cr_out r \<union> gives (if cached c = [] then None else Some (last (cached c)))"
  using cache_take_spec [OF assms] by (auto simp: finish_acquire_def cr_set_def)

lemma finish_release_result:
  assumes "cr_fault (finish_release t a c r) = None"
  shows "cr_pc (finish_release t a c r) t = H_Idle"
  using assms by (auto simp: finish_release_def cr_set_def cr_fail_def split: sum.splits)

lemma start_acquire_logged:
  assumes inv: "cr_inv B F P r" and pc: "cr_pc r t = H_Idle" and nf: "cr_fault (start_acquire fx B t ctors r) = None"
    and res: "cr_res r t = None"
  shows "acquire_at B (start_acquire fx B t ctors r) t"
proof (cases "tc_count (cr_caches r t) = 0")
  case True
  let ?c = "CallAcquireBatch ctors (tc_slots (cr_caches r t)) B"
  have eq: "start_acquire fx B t ctors r = call_pool fx t ?c H_Refill r" using True by (simp add: start_acquire_def)
  with nf call_pool_frame(7) [of fx t ?c H_Refill r] call_pool_frame(4) [of fx t ?c H_Refill r] res show ?thesis
    by (simp add: refill_logged_def)
next
  case False
  note c = own_invD(2) [OF cr_invD(4) [OF inv], of t]
  have "cached (cr_caches r t) \<noteq> []" using False cached_empty [OF c] by simp
  with False finish_acquire_result [OF c, of t r] show ?thesis by (simp add: start_acquire_def)
qed

lemma step_logged:
  assumes inv: "cr_inv B F P r" and acq: "acquire_inv B r" and act: "pool_act fx (PoolStep t) (cr_pool r) = Some p"
  defines "r' \<equiv> (if pr_pc p t = A_Idle then batch_returned t (cr_pc r t) (pr_res p t) (r\<lparr>cr_pool := p\<rparr>) else r\<lparr>cr_pool := p\<rparr>)"
  assumes nf: "cr_fault r' = None"
  shows "acquire_at B r' t"
proof -
  note v = cr_invD [OF inv] and i = own_invD [OF cr_invD(4) [OF inv]]
  note st = batch_step(2) [OF v(3) act, where B = B] and lg = log_step [OF v(3) act]
  have at: "acquire_at B r t" using acq by (simp add: acquire_inv_def)
  have nidle: "pr_pc (cr_pool r) t \<noteq> A_Idle" using act by (auto simp: pool_act_def split: if_splits)
  then have busy: "cr_pc r t \<noteq> H_Idle" using i(3) [of t] by auto
  show ?thesis
  proof (cases "pr_pc p t = A_Idle")
    case False
    have "refill_logged B p t" if "cr_pc r t = H_Refill" by (rule lg(3)) (use i(3) [of t] that in simp)
    with False busy at show ?thesis by (simp add: r'_def)
  next
    case True
    with st obtain res where res: "pr_pc (cr_pool r) t = A_Unlock res" "pr_res p t = Some res" by auto
    then have log: "pr_log p = pr_log (cr_pool r)" using lg(2) by auto
    have r': "r' = batch_returned t (cr_pc r t) (Some res) (r\<lparr>cr_pool := p\<rparr>)" using True res by (simp add: r'_def)
    show ?thesis
    proof (cases "cr_pc r t")
      case H_Refill
      show ?thesis
      proof (cases res)
        case (Returned ps)
        with at H_Refill res(1) obtain c as where l: "map_of (pr_log (cr_pool r)) t = Some (c, as)" "acquires B c"
          "ps = map Some as" by (auto simp: refill_logged_def)
        let ?c = "cr_caches r t\<lparr>tc_slots := ps @ drop (length ps) (tc_slots (cr_caches r t)), tc_count := of_nat (length ps)\<rparr>"
        have eq: "r' = finish_acquire t ?c (r\<lparr>cr_pool := p\<rparr>)" by (simp add: r' H_Refill Returned)
        have len: "length ps \<le> unat B" using i(3) [of t] H_Refill res(1) Returned by simp
        have c: "cache_ok F ?c" "cached ?c = as" by (rule refill_cache [OF i(2) v(2) len l(3)])+
        from finish_acquire_result [OF c(1), of t "r\<lparr>cr_pool := p\<rparr>"] c(2) l log show ?thesis
          by (auto simp: eq took_none_def finish_frame)
      qed (simp add: r' H_Refill cr_set_def)
    next
      case (H_FlushHalf a half)
      with finish_release_result [of t a "cr_caches r t\<lparr>tc_count := tc_count (cr_caches r t) - half\<rparr>" "r\<lparr>cr_pool := p\<rparr>"] nf at
      show ?thesis by (simp add: r' finish_frame)
    qed (use busy at in \<open>simp_all add: r' cr_set_def\<close>)
  qed
qed

lemma acquire_inv_step:
  assumes inv: "cr_inv B F P r" and acq: "acquire_inv B r" and step: "cr_do fx B F a r = Some r'"
  shows "acquire_inv B r'"
proof -
  have nf: "cr_fault r' = None" using cr_do_ok [OF inv step] by (simp add: own_inv_def)
  have at: "acquire_at B r u" for u using acq by (simp add: acquire_inv_def)
  have mine: "acquire_at B r' t" if "cr_actor a = Some t" for t
  proof (cases a)
    case (CrAcquire u ctors)
    with step that nf start_acquire_logged [of B F P "r\<lparr>cr_res := (cr_res r)(t := None)\<rparr>" t fx ctors] inv show ?thesis
      by (auto simp: cr_inv_res split: if_splits)
  next
    case (CrRelease u x)
    with step that nf show ?thesis
      by (auto simp: start_release_def Let_def call_release_def call_pool_def finish_release_def cr_fail_def cr_set_def
          split: if_splits option.splits sum.splits)
  next
    case (CrFlush u)
    with step that nf show ?thesis
      by (auto simp: start_flush_def Let_def call_release_def call_pool_def cr_fail_def split: if_splits option.splits)
  next
    case (CrStep u)
    with step that nf step_logged [OF inv acq, of fx t] show ?thesis by (auto simp: Let_def)
  next
    case (CrExit u)
    with step that at [of t] show ?thesis by (auto simp: cr_set_def split: if_splits)
  qed (use that in simp_all)
  have "acquire_at B r' u" for u
  proof (cases "cr_actor a = Some u")
    case False
    with cr_do_others [OF inv step False] at [of u] show ?thesis by (simp add: refill_logged_def took_none_def)
  qed (rule mine)
  then show ?thesis by (simp add: acquire_inv_def)
qed

interpretation acquire_run: invariant_system "\<lambda>r. 2 \<le> F \<and> B \<le> F \<and> cr_init fx F P r" "cr_step fx B F"
  "\<lambda>r. cr_inv B F P r \<and> acquire_inv B r" for B F :: size_t and fx :: "'k futex" and P :: pool
proof
  fix r r' :: "('a, 'k) cached_run"
  show "2 \<le> F \<and> B \<le> F \<and> cr_init fx F P r \<Longrightarrow> cr_inv B F P r \<and> acquire_inv B r"
    using cr_init_sim [of F B fx P r] by (auto simp: cr_init_def acquire_inv_def)
  assume "cr_inv B F P r \<and> acquire_inv B r" and "cr_step fx B F r r'"
  then show "cr_inv B F P r' \<and> acquire_inv B r'"
    using cr_step_sim [of B F P r fx r'] acquire_inv_step [of B F P r fx _ r']
    by (auto simp: cr_act_def elim!: cr_stepE split: if_splits)
qed

lemma acquire_reach_inv:
  "2 \<le> F \<Longrightarrow> B \<le> F \<Longrightarrow> cr_reach fx B F P r \<Longrightarrow> cr_inv B F P r \<and> acquire_inv B r"
  using acquire_run.reach_inv [of F B fx P r] by simp

section \<open>A run\<close>

fun cr_sched ::
  "'k futex \<Rightarrow> size_t \<Rightarrow> size_t \<Rightarrow> 'a cached_action list \<Rightarrow> ('a, 'k) cached_run \<Rightarrow> ('a, 'k) cached_run option" where
  "cr_sched fx B F [] r = Some r"
| "cr_sched fx B F (a # as) r = (case cr_act fx B F a r of None \<Rightarrow> None | Some r' \<Rightarrow> cr_sched fx B F as r')"

lemma cr_sched_reach: "cr_reach fx B F P r \<Longrightarrow> cr_sched fx B F as r = Some r' \<Longrightarrow> cr_reach fx B F P r'"
proof (induction as arbitrary: r)
  case (Cons a as)
  from Cons.prems(2) obtain u where u: "cr_act fx B F a r = Some u" "cr_sched fx B F as u = Some r'"
    by (auto split: option.splits)
  from reach.reach_step [OF Cons.prems(1) cr_step.intros [OF u(1)]] u(2) show ?case by (rule Cons.IH)
qed simp

text \<open>
  Thread 0 fills its cache with two objects and has one of them; thread 1 has started to fill
  its own in between and waits for the mutex.
\<close>

definition cr_demo :: "nat cached_action list" where
  "cr_demo =
     [CrAcquire 0 Some, CrStep 0, CrMutex (CasWins 0), CrStep 0, CrStep 0] @
     [CrAcquire 1 Some, CrStep 1, CrMutex (CasFails 1 1)] @
     [CrStep 0, CrStep 0, CrStep 0, CrStep 0]"

definition cr_demo_start :: "(nat, nat list) cached_run" where
  "cr_demo_start =
     \<lparr>cr_pool = pool_demo_start, cr_caches = (\<lambda>_. fresh_cache 2), cr_pc = (\<lambda>_. H_Idle), cr_res = (\<lambda>_. None),
      cr_out = {}, cr_lost = False, cr_fault = None\<rparr>"

lemma cr_demo_start_reach: "cr_reach list_futex 2 2 pool_four cr_demo_start"
proof (rule reach.reach_init)
  have "pool_run_init list_futex pool_four pool_demo_start"
    using pool_four_new by (auto simp: pool_run_init_def mutex_init_def pool_demo_start_def list_futex_def)
  then show "cr_init list_futex 2 pool_four cr_demo_start" by (simp add: cr_init_def cr_demo_start_def)
qed

lemmas cr_eval = cr_act_def cr_demo_start_def pool_demo_start_def start_acquire_def call_pool_def finish_acquire_def
  cache_take_def cr_set_def fresh_cache_def pool_run_eval

lemma cr_demo_state:
  obtains r :: "(nat, nat list) cached_run"
  where "cr_reach list_futex 2 2 pool_four r" "cr_out r = {(1, 1)}" "cached (cr_caches r 0) = [(1, 0)]"
    "cr_pc r 0 = H_Idle" "cr_pc r 1 = H_Refill" "\<not> cr_lost r" "\<not> pr_leaked (cr_pool r)"
    "cr_res r 0 = Some (Returned (Some (1, 1)))"
proof -
  have "\<exists>r. cr_sched list_futex 2 2 cr_demo cr_demo_start = Some r \<and> cr_out r = {(1, 1)} \<and>
     cached (cr_caches r 0) = [(1, 0)] \<and> cr_pc r 0 = H_Idle \<and> cr_pc r 1 = H_Refill \<and> \<not> cr_lost r \<and>
     \<not> pr_leaked (cr_pool r) \<and> cr_res r 0 = Some (Returned (Some (1, 1)))"
    by (simp add: cr_demo_def cr_eval cached_def upt_rec)
  then show ?thesis by (elim exE conjE) (rule that [OF cr_sched_reach [OF cr_demo_start_reach]])
qed

text \<open>Threads 0 and 1 take all four nodes; thread 2 gets none.\<close>

definition cr_null_demo :: "nat cached_action list" where
  "cr_null_demo =
     [CrAcquire 0 Some, CrStep 0, CrMutex (CasWins 0), CrStep 0, CrStep 0, CrStep 0, CrStep 0, CrStep 0, CrStep 0] @
     [CrAcquire 1 Some, CrStep 1, CrMutex (CasWins 1), CrStep 1, CrStep 1, CrStep 1, CrStep 1, CrStep 1, CrStep 1] @
     [CrAcquire 2 Some, CrStep 2, CrMutex (CasWins 2), CrStep 2, CrStep 2, CrStep 2, CrStep 2]"

lemma cr_null_state:
  obtains r :: "(nat, nat list) cached_run"
  where "cr_reach list_futex 2 2 pool_four r" "cr_pc r 2 = H_Idle" "cr_res r 2 = Some (Returned None)"
    "cached (cr_caches r 0) = [(1, 0)]" "cached (cr_caches r 1) = [(1, 2)]"
proof -
  have "\<exists>r. cr_sched list_futex 2 2 cr_null_demo cr_demo_start = Some r \<and> cr_pc r 2 = H_Idle \<and>
     cr_res r 2 = Some (Returned None) \<and> cached (cr_caches r 0) = [(1, 0)] \<and> cached (cr_caches r 1) = [(1, 2)]"
    by (simp add: cr_null_demo_def cr_eval cached_def upt_rec)
  then show ?thesis by (elim exE conjE) (rule that [OF cr_sched_reach [OF cr_demo_start_reach]])
qed

lemma map_of_split:
  "map_of l t = Some x \<Longrightarrow> \<exists>later earlier. l = later @ (t, x) # earlier \<and> t \<notin> fst ` set later"
proof (induction l)
  case (Cons e l)
  show ?case
  proof (cases "fst e = t")
    case True
    with Cons.prems have "e = (t, x)" by (cases e) simp
    then show ?thesis by (intro exI [of _ "[]"] exI [of _ l]) simp
  next
    case False
    with Cons.prems have "map_of l t = Some x" by (cases e) simp
    from Cons.IH [OF this] obtain later earlier where "l = later @ (t, x) # earlier" "t \<notin> fst ` set later" by blast
    with False show ?thesis by (intro exI [of _ "e # later"] exI [of _ earlier]) auto
  qed
qed simp

lemma spec_replay_earlier: "spec_replay fs (later @ l) = Some gs \<Longrightarrow> \<exists>hs. spec_replay fs l = Some hs"
  by (induction later arbitrary: gs) (auto split: option.splits if_splits)

section \<open>Properties\<close>

text \<open>
  C32: The caches use the pool as it asks to be used, in every interleaving: whatever the threads
  acquire, release and flush, each state of the pool under the caches is one that
  \<open>ObjectPool\<close> reaches with clients that release what they hold once. So what holds of the
  pool by itself (no data race, calls in the order of their stores) holds under the caches.
\<close>

theorem cached_refines_pool:
  assumes "2 \<le> F" and "B \<le> F" and "cr_reach fx B F P r"
  shows "pool_reach fx P (cr_pool r)"
  by (rule cr_reachD(2) [OF assms])

theorem cached_refines_pool_witness:
  "\<exists>r :: (nat, nat list) cached_run. cr_reach list_futex 2 2 pool_four r \<and> cr_pc r 1 = H_Refill \<and>
     cached (cr_caches r 0) = [(1, 0)] \<and> pool_reach list_futex pool_four (cr_pool r)"
proof -
  obtain r :: "(nat, nat list) cached_run" where r: "cr_reach list_futex 2 2 pool_four r"
    "cached (cr_caches r 0) = [(1, 0)]" "cr_pc r 1 = H_Refill" by (rule cr_demo_state)
  from cached_refines_pool [OF _ _ r(1)] r show ?thesis by (intro exI [of _ r]) simp
qed

text \<open>
  C31: A thread-cached pool used by any number of threads at a time never leaves its arrays, reads
  no dead object and has no data race. Its free nodes, the nodes in the caches or on their
  way between cache and pool, and the nodes of the clients are all different, so that no node
  is given out twice; what clients and caches have is alive, what is free is raw; and unless
  a constructor has thrown or a thread has ended with a filled cache they are all the nodes.
\<close>

theorem cached_concurrent_safe:
  assumes "2 \<le> F" and "B \<le> F" and "cr_reach fx B F P r"
  defines "p \<equiv> cr_pool r"
  defines "held_by \<equiv> (\<lambda>t. own r t @ transit (pr_pc p t))"
  shows "cr_fault r = None \<and> pr_fault p = None \<and> mx_fault (pr_mx p) = None \<and>
    places_ok (pool_free (members p)) held_by (cr_out r) (pool_nodes P) \<and>
    (\<forall>a. (a \<in> cr_out r \<or> (\<exists>t. a \<in> set (own r t)) \<longrightarrow> pr_heap p a \<noteq> None) \<and>
       (a \<in> set (pool_free (members p)) \<longrightarrow> pr_heap p a = None)) \<and>
    (cr_lost r \<or> pr_leaked p \<or> places_full (pool_free (members p)) held_by (cr_out r) (pool_nodes P))"
proof -
  note v = cr_invD [OF cr_reachD(1) [OF assms(1-3)], folded p_def]
  note i = own_invD [OF v(4), folded p_def] and q = pool_run_invD(1-9) [OF v(3)]
  have "mx_fault (pr_mx p) = None" using q(1) by (auto simp: mutex_inv_def mutex_at_def)
  moreover have "places_ok (pool_free (members p)) held_by (cr_out r) (pool_nodes P)"
    unfolding held_by_def by (rule places_compose [OF q(6) i(4)])
  moreover have "cr_lost r \<or> pr_leaked p \<or> places_full (pool_free (members p)) held_by (cr_out r) (pool_nodes P)"
    using q(7) i(5) places_full_compose unfolding held_by_def by blast
  moreover have "pr_heap p a \<noteq> None" if "a \<in> cr_out r \<or> (\<exists>t. a \<in> set (own r t))" for a
    using that q(9) places_okD(4) [OF i(4)] places_cacheD(4) [OF i(4)] by blast
  ultimately show ?thesis using i(1) q(2,8) by blast
qed

theorem cached_concurrent_safe_witness:
  "\<exists>r :: (nat, nat list) cached_run. cr_reach list_futex 2 2 pool_four r \<and> cr_out r = {(1, 1)} \<and>
     cached (cr_caches r 0) = [(1, 0)] \<and> cr_fault r = None \<and>
     places_full (pool_free (members (cr_pool r))) (\<lambda>t. own r t @ transit (pr_pc (cr_pool r) t)) (cr_out r) (pool_nodes pool_four)"
proof -
  obtain r :: "(nat, nat list) cached_run" where r: "cr_reach list_futex 2 2 pool_four r" "cr_out r = {(1, 1)}"
    "cached (cr_caches r 0) = [(1, 0)]" "\<not> cr_lost r" "\<not> pr_leaked (cr_pool r)" by (rule cr_demo_state)
  from cached_concurrent_safe [OF _ _ r(1)] r show ?thesis by (intro exI [of _ r]) simp
qed

text \<open>
  \<open>acquire\<close> returns null for one reason only: when its batch got to the members of the pool,
  no node was free there, whatever the other threads had in their caches.
\<close>

lemma cached_acquire_null:
  assumes "2 \<le> F" and "B \<le> F" and "0 < B" and "cr_reach fx B F P r"
    and "cr_pc r t = H_Idle" and "cr_res r t = Some (Returned None)"
  shows "\<exists>later c earlier. pr_log (cr_pool r) = later @ (t, c, []) # earlier \<and> t \<notin> fst ` set later \<and>
    acquires B c \<and> spec_replay (pool_free P) earlier = Some []"
proof -
  from acquire_reach_inv [OF assms(1,2,4)] have inv: "cr_inv B F P r" and "took_none B (cr_pool r) t"
    using assms(5,6) by (simp_all add: acquire_inv_def)
  then obtain c where c: "map_of (pr_log (cr_pool r)) t = Some (c, [])" "acquires B c" by (auto simp: took_none_def)
  from map_of_split [OF c(1)] obtain later earlier where l: "pr_log (cr_pool r) = later @ (t, c, []) # earlier"
    "t \<notin> fst ` set later" by auto
  have "spec_replay (pool_free P) (later @ (t, c, []) # earlier) = Some (pool_free (members (cr_pool r)))"
    using pool_run_invD(5) [OF cr_invD(3) [OF inv]] l(1) by simp
  then obtain hs where "spec_replay (pool_free P) ((t, c, []) # earlier) = Some hs" using spec_replay_earlier by blast
  then obtain gs where gs: "spec_replay (pool_free P) earlier = Some gs" "spec_taken c gs = []"
    by (auto split: option.splits if_splits)
  have "gs = []" using gs(2) c(2) assms(3) by (cases c) (auto simp: word_less_nat_alt)
  with gs(1) l c(2) show ?thesis by blast
qed

lemma cached_acquire_null_example:
  "\<exists>r :: (nat, nat list) cached_run. cr_reach list_futex 2 2 pool_four r \<and> cached (cr_caches r 0) = [(1, 0)] \<and>
     cached (cr_caches r 1) = [(1, 2)] \<and>
     (\<exists>later c earlier. pr_log (cr_pool r) = later @ (2, c, []) # earlier \<and>
        spec_replay (pool_free pool_four) earlier = Some [])"
proof -
  obtain r :: "(nat, nat list) cached_run" where r: "cr_reach list_futex 2 2 pool_four r" "cr_pc r 2 = H_Idle"
    "cr_res r 2 = Some (Returned None)" "cached (cr_caches r 0) = [(1, 0)]" "cached (cr_caches r 1) = [(1, 2)]"
    by (rule cr_null_state)
  from cached_acquire_null [OF _ _ _ r(1-3)] r(1,4,5) show ?thesis by (intro exI [of _ r]) auto
qed

end
