(* ===== verification/PoolExamples.thy ===== *)
theory PoolExamples
  imports ThreadCache
begin

text \<open>
  The two programs that use the pools: examples/object_pool.cpp, which acquires an object and
  releases it, and examples/thread_cached_object_pool.cpp, in which every thread does so on a
  pool with caches.
\<close>

section \<open>One object\<close>

text \<open>\<open>v\<close> is the default value of a \<open>Bullet\<close>.\<close>

definition bullet_main :: "'a \<Rightarrow> fault + pool \<times> 'a heap" where
  "bullet_main v =
     res_bind (pool_new 0 4096) (\<lambda>P.
       res_bind (pool_acquire (Some v) P (\<lambda>_. None)) (\<lambda>(r, P', h).
         case r of Returned (Some b) \<Rightarrow> pool_release (Some b) P' h | _ \<Rightarrow> Inr (P', h)))"

lemma new_pool_inv:
  assumes "pool_new blk n = Inr P"
  shows "pool_inv P (\<lambda>_. None)"
  using pool_new_spec(1) [OF assms] by (simp add: pool_inv_def)

lemma pool_new_sizes: "unat n \<le> 2 ^ 63 \<Longrightarrow> \<exists>P. pool_new blk n = Inr P \<and> unat n \<le> length (pool_free P)"
  using round_up_spec [of n] by (auto simp: pool_new_def)

lemma bullet_main_restores:
  fixes v :: 'a
  shows "\<exists>P Q. pool_new 0 4096 = Inr P \<and> bullet_main v = Inr (Q, \<lambda>_. None) \<and> pool_inv Q (\<lambda>_. None :: 'a option) \<and>
     set (pool_free Q) = set (pool_free P) \<and> pool_free Q = tl (pool_free P) @ [hd (pool_free P)]"
proof -
  obtain P where P: "pool_new 0 4096 = Inr P" "4096 \<le> length (pool_free P)"
    using pool_new_sizes [of 4096 0] by auto
  then obtain a as where free: "pool_free P = a # as" by (cases "pool_free P") auto
  have inv: "pool_inv P (\<lambda>_. None :: 'a option)" by (rule new_pool_inv [OF P(1)])
  have "pl_count P \<noteq> 0" using count_words(1) [OF pool_invD(1) [OF inv]] free by simp
  then have one: "1 \<le> pl_count P" by (simp add: word_le_nat_alt Suc_le_eq unat_gt_0)
  let ?h = "(\<lambda>_. None :: 'a option)(a := Some v)"
  have acq: "pool_acquire (Some v) P (\<lambda>_. None) = Inr (Returned (Some a), pool_drop 1 P, ?h)"
    using pool_acquire_spec [OF inv, of "Some v"] free by simp
  have inv': "pool_inv (pool_drop 1 P) ?h" "pool_free (pool_drop 1 P) = as"
    using pool_acquired_inv(1) [OF inv one, where ctors = "\<lambda>_. Some v" and i = 0]
      pool_acquired_inv(2) [OF inv one] free by simp_all
  have "a \<in> pool_nodes (pool_drop 1 P)"
    using pool_shapeD(7) [OF pool_invD(1) [OF inv]] free pool_drop_spec(3) [OF pool_invD(1) [OF inv] one] by auto
  from pool_release_spec [OF inv'(1) this] inv'(2) obtain Q where
    "pool_release (Some a) (pool_drop 1 P) ?h = Inr (Q, \<lambda>_. None)" "pool_inv Q (\<lambda>_. None :: 'a option)" "pool_free Q = as @ [a]"
    by auto
  with P acq free show ?thesis by (simp add: bullet_main_def)
qed

section \<open>A thread with a cache\<close>

text \<open>
  \<open>simulate\<close> on the pool number 0, with the default \<open>BatchSize\<close> and \<open>CacheFlushThreshold\<close>; then
  the thread ends, and its cache with it.
\<close>

definition simulate :: "'a \<Rightarrow> nat \<Rightarrow> (pool, 'a) tc_sys \<Rightarrow> fault + (pool, 'a) tc_sys" where
  "simulate v t s =
     res_bind (cache_acquire pool_acquire_batch 1024 (\<lambda>_. Some v) (tc_caches s t) (tc_pools s 0) (tc_heap s)) (\<lambda>(r, c, P, h).
       case r of
         Returned (Some p) \<Rightarrow>
           res_bind (cache_release pool_release_batch 2048 (Some p) c P h) (\<lambda>(c', P', h').
             Inr (tc_set t 0 c' P' h' s))
       | _ \<Rightarrow> Inr (tc_set t 0 c P h s))"

fun particle_main :: "'a \<Rightarrow> nat list \<Rightarrow> (pool, 'a) tc_sys \<Rightarrow> fault + (pool, 'a) tc_sys" where
  "particle_main v [] s = Inr s"
| "particle_main v (t # ts) s =
     res_bind (simulate v t s) (\<lambda>s1.
       res_bind (tc_do pool_acquire_batch pool_release_batch 1024 2048 (TcExit t) s1) (particle_main v ts))"

lemma simulate_step:
  assumes inv: "tc_pool_inv 0 2048 s" and empty: "cached (tc_caches s t) = []" "tc_out s = {}"
    and free: "1024 \<le> length (pool_free (tc_pools s 0))"
  shows "\<exists>s1 s2. simulate v t s = Inr s1 \<and>
    tc_do pool_acquire_batch pool_release_batch 1024 2048 (TcExit t) s1 = Inr s2 \<and> tc_pool_inv 0 2048 s2 \<and>
    pool_free (tc_pools s2 0) = drop 1024 (pool_free (tc_pools s 0)) \<and>
    tc_caches s2 = (tc_caches s)(t := fresh_cache 2048) \<and> tc_out s2 = {}"
proof -
  note i = tc_invD [OF inv]
  let ?xs = "take 1024 (pool_free (tc_pools s 0))"
  from free have ne: "?xs \<noteq> []" by (cases "pool_free (tc_pools s 0)") auto
  have B: "(1024 :: size_t) \<le> 2048" "unat (1024 :: size_t) = 1024" "(2 :: size_t) \<le> 2048"
    by (simp_all add: word_le_nat_alt)
  from global.acquire_refill [OF i(2,3) empty(1) B(1), where ctors = "\<lambda>_. Some v", unfolded B(2)] ne
  obtain c Q h where
    acq: "cache_acquire pool_acquire_batch 1024 (\<lambda>_. Some v) (tc_caches s t) (tc_pools s 0) (tc_heap s) =
      Inr (Returned (Some (last ?xs)), c, Q, h)"
    and Q: "pool_free Q = drop 1024 (pool_free (tc_pools s 0))" and cc: "cache_ok 2048 c" "cached c = butlast ?xs"
    by auto
  let ?a = "last ?xs"
  let ?s1 = "hand_out (Returned (Some ?a)) (tc_set t 0 c Q h s)"
  have "tc_do pool_acquire_batch pool_release_batch 1024 2048 (TcAcquire t 0 (\<lambda>_. Some v)) s = Inr ?s1"
    by (simp add: acq)
  with global.acquire_inv [OF inv B(1), of t "\<lambda>_. Some v"] have inv1: "tc_pool_inv 0 2048 ?s1" by simp
  have out: "?a \<in> tc_out ?s1" by simp
  note i1 = tc_invD [OF inv1]
  note pl = places_cacheD [OF i1(4), of t]
  have "unat (tc_count c) = 1023" using cache_okD(4) [OF cc(1)] free by (simp add: cc(2))
  then have "\<not> 2048 \<le> tc_count c" and kp: "keeps 2048 c = length (cached c)"
    using cache_okD(4) [OF cc(1)] by (simp_all add: keeps_def word_le_nat_alt)
  have al: "\<forall>b\<in>set (cached c). h b \<noteq> None" using i1(5) [of _ t] by simp
  have invQ: "pool_inv Q h" and plQ: "distinct (cached c)" "set (cached c) \<subseteq> pool_nodes Q"
    using i1(2) pl(1,4) by simp_all
  from global.release_spec [OF invQ cc(1) plQ al B(3), where a = ?a] obtain c' Q' where
    rel: "cache_release pool_release_batch 2048 (Some ?a) c Q h = Inr (c', Q', h)"
    and Q': "pool_free Q' = pool_free Q" by (auto simp: kp heap_clear_def)
  let ?s2 = "tc_set t 0 c' Q' h s"
  have "?a \<notin> tc_out s" by (simp add: empty(2))
  have sim: "simulate v t s = Inr ?s2" by (simp add: simulate_def acq rel)
  have "tc_do pool_acquire_batch pool_release_batch 1024 2048 (TcRelease t 0 ?a) ?s1 = Inr ?s2"
    using rel by (simp add: tc_set_def empty(2))
  with global.release_inv [OF inv1 B(3) out, of 1024 t] have inv2: "tc_pool_inv 0 2048 ?s2" by simp
  from global.exit_inv [OF inv2, of t] sim Q Q' empty(2) show ?thesis by simp
qed

lemma particle_main_run:
  assumes "tc_pool_inv 0 2048 s" and "\<forall>t. cached (tc_caches s t) = []" and "tc_out s = {}"
    and "1024 * length ts \<le> length (pool_free (tc_pools s 0))"
  shows "\<exists>s'. particle_main v ts s = Inr s' \<and> tc_pool_inv 0 2048 s' \<and> (\<forall>t. cached (tc_caches s' t) = []) \<and>
    tc_out s' = {} \<and> pool_free (tc_pools s' 0) = drop (1024 * length ts) (pool_free (tc_pools s 0))"
  using assms
proof (induction ts arbitrary: s)
  case (Cons t ts)
  have "cached (tc_caches s t) = []" "1024 \<le> length (pool_free (tc_pools s 0))" using Cons.prems(2,4) by simp_all
  from simulate_step [OF Cons.prems(1) this(1) Cons.prems(3) this(2), of v] obtain s1 s2 where
    s: "simulate v t s = Inr s1" "tc_do pool_acquire_batch pool_release_batch 1024 2048 (TcExit t) s1 = Inr s2"
      "tc_pool_inv 0 2048 s2" "pool_free (tc_pools s2 0) = drop 1024 (pool_free (tc_pools s 0))"
      "tc_caches s2 = (tc_caches s)(t := fresh_cache 2048)" "tc_out s2 = {}" by (elim exE conjE) (rule that)
  have "\<forall>u. cached (tc_caches s2 u) = []" using Cons.prems(2) by (simp add: s(5) fresh_cache_ok)
  moreover have "1024 * length ts \<le> length (pool_free (tc_pools s2 0))" unfolding s(4) using Cons.prems(4) by simp
  ultimately obtain s' where s': "particle_main v ts s2 = Inr s'" "tc_pool_inv 0 2048 s'"
    "\<forall>t. cached (tc_caches s' t) = []" "tc_out s' = {}"
    "pool_free (tc_pools s' 0) = drop (1024 * length ts) (pool_free (tc_pools s2 0))"
    using Cons.IH [OF s(3) _ s(6)] by blast
  have "particle_main v (t # ts) s = Inr s'" using s(1,2) s'(1) by simp
  moreover have "pool_free (tc_pools s' 0) = drop (1024 * length (t # ts)) (pool_free (tc_pools s 0))"
    unfolding s'(5) s(4) by (simp add: add.commute)
  ultimately show ?case using s'(2-4) by blast
qed simp

text \<open>\<open>ThreadCachedObjectPool<Particle> tpool{1 << 16}\<close>, before the threads start.\<close>

definition particle_start :: "(pool, 'a) tc_sys" where
  "particle_start =
     \<lparr>tc_pools = (\<lambda>i. projr (pool_new i 65536)), tc_caches = (\<lambda>_. fresh_cache 2048), tc_heap = (\<lambda>_. None),
      tc_out = {}, tc_leaked = False, tc_fault = None\<rparr>"

lemma pool_65536:
  assumes "pool_new i 65536 = Inr P"
  shows "length (pool_free P) = 65536"
proof -
  note n = pool_new_spec [OF assms]
  have sz: "pow2_size (pl_size P)" "65536 \<le> unat (pl_size P)" "unat (pl_size P) < 2 * 65536"
    using round_up_spec [of 65536] n(4) by auto
  from sz(1) obtain k where k: "unat (pl_size P) = 2 ^ k" by (rule pow2_sizeE)
  with sz(2,3) have "(2 :: nat) ^ 16 \<le> 2 ^ k" "(2 :: nat) ^ k < 2 ^ 17" by simp_all
  then have "16 \<le> k" "k < 17"
    using power_le_imp_le_exp [of "2 :: nat" 16 k] power_less_imp_less_exp [of "2 :: nat" k 17] by simp_all
  then have "k = 16" by linarith
  then have u: "unat (pl_size P) = 65536" using k by simp
  have "length (pool_free P) = card (pool_nodes P)"
    using distinct_card [OF pool_shapeD(6) [OF n(1)]] n(2) by simp
  with u show ?thesis by simp
qed

lemma particle_start_ok:
  "tc_pool_inv 0 2048 (particle_start :: (pool, 'a) tc_sys)"
  "length (pool_free (tc_pools (particle_start :: (pool, 'a) tc_sys) 0)) = 65536"
proof -
  let ?s = "particle_start :: (pool, 'a) tc_sys"
  have p: "pool_new i 65536 = Inr (tc_pools ?s i)" for i
    using pool_new_sizes [of 65536 i] by (auto simp: particle_start_def)
  have "tc_init 2048 (\<lambda>_. 65536) ?s" unfolding tc_init_def using p by (simp add: particle_start_def)
  then show "tc_pool_inv 0 2048 ?s" by (rule tc_init_inv)
  show "length (pool_free (tc_pools ?s 0)) = 65536" by (rule pool_65536 [OF p])
qed

section \<open>Properties\<close>

text \<open>
  The nodes in the cache of a thread are lost to the pool when the thread ends, as nothing
  flushes it. In the example 64 threads, each of which acquires one particle, releases it and
  ends, use up a pool of 65536: no particle is in use, but every further \<open>acquire\<close> by any
  thread returns null.
\<close>

lemma particle_threads_exhaust:
  "\<exists>s. particle_main v [0..<64] particle_start = Inr s \<and> tc_out s = {} \<and> tc_fault s = None \<and>
     (\<forall>t ctors. \<exists>c Q h. cache_acquire pool_acquire_batch 1024 ctors (tc_caches s t) (tc_pools s 0) (tc_heap s) =
        Inr (Returned None, c, Q, h))"
proof -
  have "\<forall>t. cached (tc_caches (particle_start :: (pool, 'a) tc_sys) t) = []"
    by (simp add: particle_start_def fresh_cache_ok)
  moreover have "tc_out (particle_start :: (pool, 'a) tc_sys) = {}" by (simp add: particle_start_def)
  moreover have "1024 * length [0..<64] \<le> length (pool_free (tc_pools (particle_start :: (pool, 'a) tc_sys) 0))"
    unfolding particle_start_ok(2) by simp
  ultimately obtain s :: "(pool, 'a) tc_sys" where s: "particle_main v [0..<64] particle_start = Inr s"
    "tc_pool_inv 0 2048 s" "\<forall>t. cached (tc_caches s t) = []" "tc_out s = {}"
    "pool_free (tc_pools s 0) = drop (1024 * length [0..<64]) (pool_free (tc_pools (particle_start :: (pool, 'a) tc_sys) 0))"
    using particle_main_run [OF particle_start_ok(1), of "[0..<64]" v] by blast
  have none: "pool_free (tc_pools s 0) = []" unfolding s(5) drop_eq_Nil particle_start_ok(2) by simp
  note i = tc_invD [OF s(2)]
  have B: "(1024 :: size_t) \<le> 2048" by (simp add: word_le_nat_alt)
  have "\<exists>c Q h. cache_acquire pool_acquire_batch 1024 ctors (tc_caches s t) (tc_pools s 0) (tc_heap s) =
      Inr (Returned None, c, Q, h)" for t ctors
    using global.acquire_refill [OF i(2,3) s(3)[rule_format] B, where ctors = ctors] none by fastforce
  with s(1,4) i(1) show ?thesis by blast
qed

end
