(* ===== verification/Particles.thy ===== *)
theory Particles
  imports CacheConcurrent PoolExamples
begin

text \<open>
  examples/thread_cached_object_pool.cpp with its threads at the same time: \<open>n\<close> threads
  (\<open>hardware_concurrency\<close>), each of which acquires a particle, writes to it, releases it and
  ends. \<open>PoolExamples\<close> has the schedule in which they run one after the other.
\<close>

section \<open>The program\<close>

datatype sim_pc =
    S_Start
  | S_Acquire    \<comment> \<open>in \<open>acquire\<close>, and with its result\<close>
  | S_Release    \<comment> \<open>in \<open>release\<close>, and after it\<close>
  | S_Done

record ('a, 'k) sim_run =
  sm_run :: "('a, 'k) cached_run"
  sm_pc :: "nat \<Rightarrow> sim_pc"

datatype 'a sim_action =
    SimAcquire nat
  | SimUse nat 'a
  | SimRelease nat
  | SimExit nat
  | SimStep nat
  | SimMutex "pool mutex_action"

text \<open>The particle a thread has: what its \<open>acquire\<close> has returned.\<close>

fun given :: "ptr outcome option \<Rightarrow> addr option" where
  "given (Some (Returned (Some a))) = Some a"
| "given _ = None"

definition sim_moves ::
  "nat \<Rightarrow> sim_pc \<Rightarrow> ('a, 'k) cached_run option \<Rightarrow> ('a, 'k) sim_run \<Rightarrow> ('a, 'k) sim_run option" where
  "sim_moves t l ro s = map_option (\<lambda>r. s\<lparr>sm_run := r, sm_pc := (sm_pc s)(t := l)\<rparr>) ro"

fun sim_do ::
  "'k futex \<Rightarrow> size_t \<Rightarrow> size_t \<Rightarrow> nat \<Rightarrow> 'a \<Rightarrow> 'a sim_action \<Rightarrow> ('a, 'k) sim_run \<Rightarrow> ('a, 'k) sim_run option" where
  "sim_do fx B F n v (SimAcquire t) s =
     (if t < n \<and> sm_pc s t = S_Start
      then sim_moves t S_Acquire (cr_act fx B F (CrAcquire t (\<lambda>_. Some v)) (sm_run s)) s else None)"
| "sim_do fx B F n v (SimUse t w) s =
     (case (sm_pc s t, given (cr_res (sm_run s) t)) of
        (S_Acquire, Some a) \<Rightarrow> sim_moves t S_Acquire (cr_act fx B F (CrUse a w) (sm_run s)) s
      | _ \<Rightarrow> None)"
| "sim_do fx B F n v (SimRelease t) s =
     (case (sm_pc s t, given (cr_res (sm_run s) t)) of
        (S_Acquire, Some a) \<Rightarrow> sim_moves t S_Release (cr_act fx B F (CrRelease t a) (sm_run s)) s
      | _ \<Rightarrow> None)"
| "sim_do fx B F n v (SimExit t) s =
     (if sm_pc s t = S_Release \<or> sm_pc s t = S_Acquire \<and> cr_res (sm_run s) t = Some (Returned None)
      then sim_moves t S_Done (cr_act fx B F (CrExit t) (sm_run s)) s else None)"
| "sim_do fx B F n v (SimStep t) s = sim_moves t (sm_pc s t) (cr_act fx B F (CrStep t) (sm_run s)) s"
| "sim_do fx B F n v (SimMutex m) s = map_option (\<lambda>r. s\<lparr>sm_run := r\<rparr>) (cr_act fx B F (CrMutex m) (sm_run s))"

inductive sim_step ::
  "'k futex \<Rightarrow> size_t \<Rightarrow> size_t \<Rightarrow> nat \<Rightarrow> 'a \<Rightarrow> ('a, 'k) sim_run \<Rightarrow> ('a, 'k) sim_run \<Rightarrow> bool"
  for fx :: "'k futex" and B F :: size_t and n :: nat and v :: 'a where
  "sim_do fx B F n v a s = Some s' \<Longrightarrow> sim_step fx B F n v s s'"

inductive_cases sim_stepE: "sim_step fx B F n v s s'"

definition sim_init :: "'k futex \<Rightarrow> size_t \<Rightarrow> pool \<Rightarrow> ('a, 'k) sim_run \<Rightarrow> bool" where
  "sim_init fx F P s \<longleftrightarrow> cr_init fx F P (sm_run s) \<and> sm_pc s = (\<lambda>_. S_Start)"

abbreviation sim_reach ::
  "'k futex \<Rightarrow> size_t \<Rightarrow> size_t \<Rightarrow> nat \<Rightarrow> 'a \<Rightarrow> pool \<Rightarrow> ('a, 'k) sim_run \<Rightarrow> bool" where
  "sim_reach fx B F n v P \<equiv> reach (sim_init fx F P) (sim_step fx B F n v)"

definition sim_joined :: "nat \<Rightarrow> ('a, 'k) sim_run \<Rightarrow> bool" where
  "sim_joined n s \<longleftrightarrow> (\<forall>t<n. sm_pc s t = S_Done)"

section \<open>A log of batches\<close>

lemma replay_batches:
  assumes "\<forall>e\<in>set l. acquires B (fst (snd e))" and "spec_replay fs l = Some gs"
  shows "gs = drop (unat B * length l) fs"
  using assms
proof (induction l arbitrary: gs)
  case (Cons e l)
  obtain t c as where e: "e = (t, c, as)" by (cases e) auto
  with Cons.prems(2) obtain hs where hs: "spec_replay fs l = Some hs" "gs = spec_left c hs"
    by (auto split: option.splits if_splits)
  have "hs = drop (unat B * length l) fs" using Cons.IH [OF _ hs(1)] Cons.prems(1) by simp
  moreover have "spec_left c hs = drop (unat B) hs"
    using Cons.prems(1) e by (cases c) (auto simp: spec_left_def min_def)
  ultimately show ?case using hs(2) by (simp add: drop_drop algebra_simps)
qed simp

lemma replay_taken:
  assumes "\<forall>e\<in>set (later @ (t, c, as) # earlier). acquires B (fst (snd e))"
    and "spec_replay fs (later @ (t, c, as) # earlier) = Some gs"
  shows "as = take (unat B) (drop (unat B * length earlier) fs)"
proof -
  from spec_replay_earlier [OF assms(2)] obtain hs where "spec_replay fs ((t, c, as) # earlier) = Some hs" by blast
  then obtain ks where ks: "spec_replay fs earlier = Some ks" "as = spec_taken c ks"
    by (auto split: option.splits if_splits)
  have "ks = drop (unat B * length earlier) fs" using replay_batches [OF _ ks(1)] assms(1) by auto
  with ks(2) assms(1) show ?thesis by (cases c) auto
qed

section \<open>The invariant\<close>

text \<open>In the pool, a thread has not got to the members yet; no construction throws.\<close>

fun before_members :: "'a pool_pc \<Rightarrow> bool" where
  "before_members (A_Destroy ps c) = True"
| "before_members (A_Lock c) = True"
| "before_members _ = False"

fun never_throws :: "'a pool_pc \<Rightarrow> bool" where
  "never_throws A_Idle \<longleftrightarrow> True"
| "never_throws (A_Destroy ps c) \<longleftrightarrow> (\<forall>i. call_ctor c i \<noteq> None)"
| "never_throws (A_Lock c) \<longleftrightarrow> (\<forall>i. call_ctor c i \<noteq> None)"
| "never_throws (A_Build c i xs ys) \<longleftrightarrow> (\<forall>i. call_ctor c i \<noteq> None)"
| "never_throws (A_Unlock res) \<longleftrightarrow> res \<noteq> Threw"

text \<open>
  A thread, with what its cache has, where it is in the pool, and the entry of its batch in the
  log of the pool.
\<close>

fun sim_ok ::
  "size_t \<Rightarrow> sim_pc \<Rightarrow> cache_pc \<Rightarrow> ptr outcome option \<Rightarrow> addr list \<Rightarrow> 'a pool_pc \<Rightarrow> ('a pool_call \<times> addr list) option \<Rightarrow> bool" where
  "sim_ok B S_Start l res xs p e \<longleftrightarrow> l = H_Idle \<and> xs = [] \<and> e = None"
| "sim_ok B S_Acquire l res xs p e \<longleftrightarrow>
     l = H_Refill \<and> never_throws p \<and> (before_members p \<longleftrightarrow> e = None) \<and> res = None \<or>
     l = H_Idle \<and> (\<exists>c as. e = Some (c, as) \<and> xs = butlast as \<and> length as \<le> unat B \<and>
       res = Some (Returned (if as = [] then None else Some (last as))))"
| "sim_ok B S_Release l res xs p e \<longleftrightarrow> l = H_Idle \<and> e \<noteq> None"
| "sim_ok B S_Done l res xs p e \<longleftrightarrow> l = H_Idle \<and> xs = [] \<and> e \<noteq> None"

abbreviation sim_thread :: "size_t \<Rightarrow> ('a, 'k) sim_run \<Rightarrow> nat \<Rightarrow> bool" where
  "sim_thread B s t \<equiv> sim_ok B (sm_pc s t) (cr_pc (sm_run s) t) (cr_res (sm_run s) t) (cached (cr_caches (sm_run s) t))
     (pr_pc (cr_pool (sm_run s)) t) (map_of (pr_log (cr_pool (sm_run s))) t)"

definition particle :: "('a, 'k) sim_run \<Rightarrow> nat \<Rightarrow> addr option" where
  "particle s t = (if sm_pc s t = S_Acquire then given (cr_res (sm_run s) t) else None)"

definition log_ok :: "size_t \<Rightarrow> nat \<Rightarrow> (nat \<times> 'a pool_call \<times> addr list) list \<Rightarrow> bool" where
  "log_ok B n l \<longleftrightarrow> distinct (map fst l) \<and> (\<forall>e\<in>set l. fst e < n \<and> acquires B (fst (snd e)))"

definition particles_ok :: "('a, 'k) sim_run \<Rightarrow> bool" where
  "particles_ok s \<longleftrightarrow> cr_out (sm_run s) = {a. \<exists>t. particle s t = Some a} \<and>
     (\<forall>t u a. particle s t = Some a \<and> particle s u = Some a \<longrightarrow> t = u)"

definition sim_inv :: "size_t \<Rightarrow> size_t \<Rightarrow> nat \<Rightarrow> pool \<Rightarrow> ('a, 'k) sim_run \<Rightarrow> bool" where
  "sim_inv B F n P s \<longleftrightarrow> cr_inv B F P (sm_run s) \<and> acquire_inv B (sm_run s) \<and> (\<forall>t. sim_thread B s t) \<and>
     (\<forall>t. n \<le> t \<longrightarrow> sm_pc s t = S_Start) \<and> log_ok B n (pr_log (cr_pool (sm_run s))) \<and> particles_ok s"

lemma sim_invD:
  assumes "sim_inv B F n P s"
  shows "cr_inv B F P (sm_run s)" "acquire_inv B (sm_run s)" "sim_thread B s t" "n \<le> t \<Longrightarrow> sm_pc s t = S_Start"
    "log_ok B n (pr_log (cr_pool (sm_run s)))" "particles_ok s"
  using assms by (simp_all add: sim_inv_def)

text \<open>A step of thread \<open>t\<close>.\<close>

text \<open>Thread \<open>t\<close> gives up the particle \<open>o\<close> it has, and gets another one or none.\<close>

lemma holders_update:
  fixes f g :: "nat \<Rightarrow> addr option"
  assumes old: "A = {a. \<exists>u. f u = Some a}" and inj: "\<forall>x y a. f x = Some a \<and> f y = Some a \<longrightarrow> x = y"
    and others: "\<And>u. u \<noteq> t \<Longrightarrow> g u = f u" and B: "B = A - gives (f t) \<union> gives (g t)"
    and new: "g t = f t \<or> gives (g t) \<inter> A = {}"
  shows "B = {a. \<exists>u. g u = Some a} \<and> (\<forall>x y a. g x = Some a \<and> g y = Some a \<longrightarrow> x = y)"
proof (intro conjI allI impI; (elim conjE)?)
  have apart: "u = t" if "g u = Some a" "g t = Some a" for u a
  proof (rule ccontr)
    assume "u \<noteq> t"
    then have "f u = Some a" using that(1) others by simp
    moreover from this new that(2) have "f t = Some a" unfolding old by auto
    ultimately show False using inj \<open>u \<noteq> t\<close> by blast
  qed
  fix x y a assume "g x = Some a" "g y = Some a"
  then show "x = y" using apart [of x a] apart [of y a] inj others [of x] others [of y] by metis
next
  have "a \<in> A - gives (f t) \<longleftrightarrow> (\<exists>u. u \<noteq> t \<and> g u = Some a)" for a
  proof
    assume "a \<in> A - gives (f t)"
    then obtain u where u: "f u = Some a" "a \<notin> gives (f t)" using old by auto
    then have "u \<noteq> t" by auto
    with u(1) others show "\<exists>u. u \<noteq> t \<and> g u = Some a" by auto
  next
    assume "\<exists>u. u \<noteq> t \<and> g u = Some a"
    then obtain u where u: "u \<noteq> t" "f u = Some a" using others by auto
    with inj have "f t \<noteq> Some a" by blast
    with u(2) old show "a \<in> A - gives (f t)" by (cases "f t") auto
  qed
  moreover have "a \<in> gives (g t) \<longleftrightarrow> g t = Some a" for a by (cases "g t") auto
  ultimately have "a \<in> B \<longleftrightarrow> (\<exists>u. g u = Some a)" for a unfolding B Un_iff by metis
  then show "B = {a. \<exists>u. g u = Some a}" by blast
qed

lemma sim_update:
  assumes inv: "sim_inv B F n P s" and do: "cr_do fx B F a (sm_run s) = Some r" and t: "cr_actor a = Some t \<or> cr_actor a = None"
    and s'_def: "s' = s\<lparr>sm_run := r, sm_pc := (sm_pc s)(t := l)\<rparr>"
    and tn: "t < n \<or> l = sm_pc s t" and th: "sim_thread B s' t" and lg: "log_ok B n (pr_log (cr_pool r))"
    and out: "cr_out r = cr_out (sm_run s) - gives (particle s t) \<union> gives (particle s' t)"
    and new: "particle s' t = particle s t \<or> gives (particle s' t) \<inter> cr_out (sm_run s) = {}"
  shows "sim_inv B F n P s'"
proof -
  note i = sim_invD [OF inv]
  have cinv: "cr_inv B F P r" using cr_do_ok [OF i(1) do] cr_invD [OF i(1)] pool_act_inv
    by (auto simp: cr_inv_def pool_moves_def)
  have ainv: "acquire_inv B r" by (rule acquire_inv_step [OF i(1,2) do])
  have fr: "cr_caches r u = cr_caches (sm_run s) u \<and> cr_pc r u = cr_pc (sm_run s) u \<and> cr_res r u = cr_res (sm_run s) u \<and>
      pr_pc (cr_pool r) u = pr_pc (cr_pool (sm_run s)) u \<and> map_of (pr_log (cr_pool r)) u = map_of (pr_log (cr_pool (sm_run s))) u"
    if "u \<noteq> t" for u
    by (rule cr_do_others [OF i(1) do]) (use t that in auto)
  have "sim_thread B s' u" for u
    using i(3) [of u] fr [of u] th by (cases "u = t") (simp_all add: s'_def)
  moreover have "sm_pc s' u = S_Start" if "n \<le> u" for u
    using i(4) [OF that] tn that by (cases "u = t") (auto simp: s'_def)
  moreover have "particles_ok s'"
  proof -
    have "particle s' u = particle s u" if "u \<noteq> t" for u using fr [OF that] that by (simp add: particle_def s'_def)
    from holders_update [where f = "particle s" and g = "particle s'", OF _ _ this out new] i(6) show ?thesis
      by (simp add: particles_ok_def s'_def)
  qed
  ultimately show ?thesis using cinv ainv lg by (simp add: sim_inv_def s'_def)
qed

lemma cr_act_do: "cr_act fx B F a r = Some r' \<Longrightarrow> cr_do fx B F a r = Some r'"
  by (simp add: cr_act_def split: if_splits)

lemma sim_acquire_ok:
  assumes inv: "sim_inv B F n P s" and t: "t < n" "sm_pc s t = S_Start"
    and do: "cr_do fx B F (CrAcquire t (\<lambda>_. Some v)) (sm_run s) = Some r"
  shows "sim_inv B F n P (s\<lparr>sm_run := r, sm_pc := (sm_pc s)(t := S_Acquire)\<rparr>)"
proof -
  let ?r0 = "(sm_run s)\<lparr>cr_res := (cr_res (sm_run s))(t := None)\<rparr>"
  let ?c = "CallAcquireBatch (\<lambda>_. Some v) (tc_slots (cr_caches (sm_run s) t)) B"
  note i = sim_invD [OF inv] and own = own_invD [OF cr_invD(4) [OF sim_invD(1) [OF inv]]]
  from i(3) [of t] t(2) have st: "cr_pc (sm_run s) t = H_Idle" "cached (cr_caches (sm_run s) t) = []"
    "map_of (pr_log (cr_pool (sm_run s))) t = None" by simp_all
  then have "tc_count (cr_caches (sm_run s) t) = 0" using cached_empty [OF own(2) [of t]] by simp
  then have r: "r = call_pool fx t ?c H_Refill ?r0" using do st(1) by (simp add: start_acquire_def)
  have "cr_fault r = None" using cr_do_ok [OF i(1) do] by (simp add: own_inv_def)
  then have at: "cr_pc r t = H_Refill" "pr_pc (cr_pool r) t = A_Destroy [] ?c"
    using call_pool_frame(7) [of fx t ?c H_Refill ?r0, folded r] by auto
  have same: "cr_caches r = cr_caches (sm_run s)" "cr_out r = cr_out (sm_run s)" "cr_res r t = None"
    "pr_log (cr_pool r) = pr_log (cr_pool (sm_run s))"
    unfolding r by (simp_all add: call_pool_frame)
  show ?thesis
    by (rule sim_update [where t = t, OF inv do _ refl]) (use t i(5) at same st in \<open>simp_all add: particle_def\<close>)
qed

lemma sim_use_ok:
  assumes inv: "sim_inv B F n P s" and pc: "sm_pc s t = S_Acquire" and do: "cr_do fx B F (CrUse a w) (sm_run s) = Some r"
  shows "sim_inv B F n P (s\<lparr>sm_run := r, sm_pc := (sm_pc s)(t := S_Acquire)\<rparr>)"
proof -
  from do have r: "r = (sm_run s)\<lparr>cr_pool := (cr_pool (sm_run s))\<lparr>pr_heap := (pr_heap (cr_pool (sm_run s)))(a := Some w)\<rparr>\<rparr>"
    by (auto split: if_splits)
  let ?s' = "s\<lparr>sm_run := r, sm_pc := (sm_pc s)(t := S_Acquire)\<rparr>"
  have "gives (particle s t) \<subseteq> cr_out (sm_run s)"
    using sim_invD(6) [OF inv] by (cases "particle s t") (auto simp: particles_ok_def)
  moreover have same: "particle ?s' t = particle s t" using pc by (simp add: particle_def r)
  ultimately have out: "cr_out r = cr_out (sm_run s) - gives (particle s t) \<union> gives (particle ?s' t)"
    by (auto simp: r)
  have th: "sim_thread B ?s' t" using sim_invD(3) [OF inv, of t] pc by (simp add: r)
  have lg: "log_ok B n (pr_log (cr_pool r))" using sim_invD(5) [OF inv] by (simp add: r)
  show ?thesis by (rule sim_update [OF inv do _ refl _ th lg out]) (use pc same in simp_all)
qed

lemma sim_release_ok:
  assumes inv: "sim_inv B F n P s" and pc: "sm_pc s t = S_Acquire" and a: "given (cr_res (sm_run s) t) = Some a"
    and do: "cr_do fx B F (CrRelease t a) (sm_run s) = Some r"
  shows "sim_inv B F n P (s\<lparr>sm_run := r, sm_pc := (sm_pc s)(t := S_Release)\<rparr>)"
proof -
  note i = sim_invD [OF inv] and v = cr_invD [OF sim_invD(1) [OF inv]]
  note c = cache_okD [OF own_invD(2) [OF v(4), of t]]
  let ?r0 = "(sm_run s)\<lparr>cr_res := (cr_res (sm_run s))(t := None), cr_out := cr_out (sm_run s) - {a}\<rparr>"
  from i(3) [of t] pc a obtain e as where e: "map_of (pr_log (cr_pool (sm_run s))) t = Some (e, as)"
    "cached (cr_caches (sm_run s) t) = butlast as" "length as \<le> unat B" "as \<noteq> []"
    by (auto split: if_splits)
  then have "unat (tc_count (cr_caches (sm_run s) t)) < unat B"
    using c(4) by (cases as rule: rev_cases) auto
  then have "\<not> F \<le> tc_count (cr_caches (sm_run s) t)" using v(2) by (simp add: word_le_nat_alt)
  then have r: "r = finish_release t a (cr_caches (sm_run s) t) ?r0"
    using do by (auto simp: start_release_def Let_def split: if_splits)
  have nf: "cr_fault r = None" using cr_do_ok [OF i(1) do] by (simp add: own_inv_def)
  have at: "cr_pc r t = H_Idle" using finish_release_result [OF nf [unfolded r]] by (simp add: r)
  have same: "cr_out r = cr_out (sm_run s) - {a}" "pr_log (cr_pool r) = pr_log (cr_pool (sm_run s))"
    by (simp_all add: r finish_frame)
  have tn: "t < n" using i(4) [of t] pc by (cases "t < n") auto
  have "particle s t = Some a" using pc a by (simp add: particle_def)
  then show ?thesis
    by (intro sim_update [where t = t, OF inv do _ refl]) (use at same e(1) tn i(5) pc in \<open>simp_all add: particle_def\<close>)
qed

lemma sim_exit_ok:
  assumes inv: "sim_inv B F n P s" and do: "cr_do fx B F (CrExit t) (sm_run s) = Some r"
    and pc: "sm_pc s t = S_Release \<or> sm_pc s t = S_Acquire \<and> cr_res (sm_run s) t = Some (Returned None)"
  shows "sim_inv B F n P (s\<lparr>sm_run := r, sm_pc := (sm_pc s)(t := S_Done)\<rparr>)"
proof -
  note i = sim_invD [OF inv]
  from do have r: "r = cr_set t (fresh_cache F) H_Idle
      ((sm_run s)\<lparr>cr_lost := (cr_lost (sm_run s) \<or> tc_count (cr_caches (sm_run s) t) \<noteq> 0)\<rparr>)" by (simp split: if_splits)
  have tn: "t < n" using i(4) [of t] pc by (cases "t < n") auto
  have none: "particle s t = None" "map_of (pr_log (cr_pool (sm_run s))) t \<noteq> None"
    using pc i(3) [of t] by (auto simp: particle_def)
  then show ?thesis
    by (intro sim_update [where t = t, OF inv do _ refl]) (use tn i(5) fresh_cache_ok [of F] in \<open>simp_all add: r cr_set_def particle_def\<close>)
qed

text \<open>An access of a thread, which is in \<open>acquire_batch\<close>.\<close>

lemma batch_progress:
  assumes inv: "pool_run_inv P p" and act: "pool_act fx (PoolStep t) p = Some p'"
    and nt: "never_throws (pr_pc p t)" and bm: "before_members (pr_pc p t) \<longleftrightarrow> map_of (pr_log p) t = None"
    and nb: "pr_pc p' t \<noteq> A_Idle"
  shows "never_throws (pr_pc p' t)" "before_members (pr_pc p' t) \<longleftrightarrow> map_of (pr_log p') t = None"
proof -
  have step: "pool_access fx t (pr_pc p t) p = Some p'" using act by (simp add: pool_act_def split: if_splits)
  have nf: "pr_fault p' = None" using pool_run_invD(2) [OF pool_act_inv [OF inv act]] .
  have "never_throws (pr_pc p' t) \<and> (before_members (pr_pc p' t) \<longleftrightarrow> map_of (pr_log p') t = None)"
  proof (cases "pr_pc p t")
    case (A_Destroy ps c)
    with step nf nt bm show ?thesis by (cases ps) (auto simp: pool_goto_def split: sum.splits elim!: with_mutexE)
  next
    case (A_Lock c)
    from member_step [OF inv this step nf] A_Lock nt bm show ?thesis by auto
  next
    case (A_Build c i xs ys)
    then obtain w where "call_ctor c i = Some w" using nt by auto
    with A_Build step nf nt bm show ?thesis
      by (cases ys) (auto simp: pool_goto_def split: sum.splits option.splits)
  next
    case (A_Unlock res)
    with step nb show ?thesis by (auto simp: pool_goto_def elim!: with_mutexE)
  qed (use step in simp)
  then show "never_throws (pr_pc p' t)" "before_members (pr_pc p' t) \<longleftrightarrow> map_of (pr_log p') t = None" by blast+
qed

text \<open>A thread that takes a step in the pool is in the batch call of its \<open>acquire\<close>.\<close>

lemma sim_refilling:
  assumes inv: "sim_inv B F n P s" and act: "pool_act fx (PoolStep t) (cr_pool (sm_run s)) = Some p"
  shows "sm_pc s t = S_Acquire" "cr_pc (sm_run s) t = H_Refill" "never_throws (pr_pc (cr_pool (sm_run s)) t)"
    "cr_res (sm_run s) t = None" "t < n" "in_acquire B (pr_pc (cr_pool (sm_run s)) t)"
    "before_members (pr_pc (cr_pool (sm_run s)) t) \<longleftrightarrow> map_of (pr_log (cr_pool (sm_run s))) t = None"
proof -
  note i = sim_invD [OF inv] and own = own_invD [OF cr_invD(4) [OF sim_invD(1) [OF inv]]]
  have "pr_pc (cr_pool (sm_run s)) t \<noteq> A_Idle" using act by (auto simp: pool_act_def split: if_splits)
  then have "cr_pc (sm_run s) t \<noteq> H_Idle" using own(3) [of t] by auto
  then show pc: "sm_pc s t = S_Acquire" "cr_pc (sm_run s) t = H_Refill" "never_throws (pr_pc (cr_pool (sm_run s)) t)"
    "cr_res (sm_run s) t = None"
    "before_members (pr_pc (cr_pool (sm_run s)) t) \<longleftrightarrow> map_of (pr_log (cr_pool (sm_run s))) t = None"
    using i(3) [of t] by (cases "sm_pc s t"; auto)+
  show "t < n" using i(4) [of t] pc(1) by (cases "t < n") auto
  show "in_acquire B (pr_pc (cr_pool (sm_run s)) t)" using own(3) [of t] pc(2) by simp
qed

lemma sim_step_log:
  assumes inv: "sim_inv B F n P s" and act: "pool_act fx (PoolStep t) (cr_pool (sm_run s)) = Some p"
  shows "log_ok B n (pr_log p)"
  using log_step(2) [OF cr_invD(3) [OF sim_invD(1) [OF inv]] act]
proof (elim disjE exE conjE)
  let ?p = "cr_pool (sm_run s)"
  fix c assume c: "pr_pc ?p t = A_Lock c" and l: "pr_log p = (t, c, spec_taken c (pool_free (members ?p))) # pr_log ?p"
  note pc = sim_refilling [OF inv act]
  have "map_of (pr_log ?p) t = None" and acq: "acquires B c" using pc(6,7) c by simp_all
  then have "t \<notin> fst ` set (pr_log ?p)" by (simp add: map_of_eq_None_iff)
  with sim_invD(5) [OF inv] l pc(5) acq show ?thesis by (simp add: log_ok_def)
qed (use sim_invD(5) [OF inv] in simp)

text \<open>The step with which \<open>acquire\<close> returns.\<close>

lemma sim_returned:
  assumes inv: "sim_inv B F n P s" and do: "cr_do fx B F (CrStep t) (sm_run s) = Some r"
    and act: "pool_act fx (PoolStep t) (cr_pool (sm_run s)) = Some p" and idle: "pr_pc p t = A_Idle"
    and r: "r = batch_returned t (cr_pc (sm_run s) t) (pr_res p t) (sm_run s\<lparr>cr_pool := p\<rparr>)"
  shows "sim_inv B F n P (s\<lparr>sm_run := r, sm_pc := (sm_pc s)(t := sm_pc s t)\<rparr>)"
proof -
  let ?r = "sm_run s" and ?p = "cr_pool (sm_run s)" and ?s' = "s\<lparr>sm_run := r, sm_pc := (sm_pc s)(t := sm_pc s t)\<rparr>"
  note i = sim_invD [OF inv] and v = cr_invD [OF sim_invD(1) [OF inv]] and pc = sim_refilling [OF inv act]
  note own = own_invD [OF v(4)]
  from batch_step(2) [OF v(3) act, where B = B] idle obtain res where
    res: "pr_pc ?p t = A_Unlock res" "pr_res p t = Some res" by auto
  with pc(3) obtain ps where ps: "res = Returned ps" by (cases res) auto
  with i(2) pc(2) res(1) obtain c as where l: "map_of (pr_log ?p) t = Some (c, as)" "acquires B c" "ps = map Some as"
    unfolding acquire_inv_def refill_logged_def by blast
  have pl: "pr_log p = pr_log ?p" using log_step(2) [OF v(3) act] res(1) by auto
  let ?c = "cr_caches ?r t\<lparr>tc_slots := ps @ drop (length ps) (tc_slots (cr_caches ?r t)), tc_count := of_nat (length ps)\<rparr>"
  have len: "length ps \<le> unat B" using pc(6) res(1) ps by simp
  have c: "cache_ok F ?c" "cached ?c = as" by (rule refill_cache [OF own(2) v(2) len l(3)])+
  have pool: "cr_pool r = p" by (simp add: r batch_returned_frame)
  have eq: "r = finish_acquire t ?c (?r\<lparr>cr_pool := p\<rparr>)" using res ps pc(2) by (simp add: r)
  note fin = finish_acquire_result [OF c(1), of t "?r\<lparr>cr_pool := p\<rparr>", unfolded c(2), folded eq]
  have part: "particle ?s' t = (if as = [] then None else Some (last as))" and none: "particle s t = None"
    using fin(2) pc(1,4) by (simp_all add: particle_def)
  have "set as \<inter> pr_out ?p = {}"
    using places_cacheD(3) [OF pool_run_invD(6) [OF v(3)], of t] res(1) ps l(3) by (simp add: comp_def)
  then have "set as \<inter> cr_out ?r = {}" using places_okD(4) [OF own(4)] by blast
  then have fresh: "gives (particle ?s' t) \<inter> cr_out ?r = {}"
    unfolding part by (cases as rule: rev_cases) auto
  have th: "sim_thread B ?s' t" using fin(1-3) pc(1) l len by (simp add: pool pl)
  have out: "cr_out r = cr_out ?r - gives (particle s t) \<union> gives (particle ?s' t)" using fin(4) none part by simp
  show ?thesis
    by (rule sim_update [OF inv do _ refl _ th _ out]) (use sim_step_log [OF inv act] pool fresh in simp_all)
qed

lemma sim_step_ok:
  assumes inv: "sim_inv B F n P s" and do: "cr_do fx B F (CrStep t) (sm_run s) = Some r"
  shows "sim_inv B F n P (s\<lparr>sm_run := r, sm_pc := (sm_pc s)(t := sm_pc s t)\<rparr>)"
proof -
  let ?r = "sm_run s" and ?p = "cr_pool (sm_run s)"
  from do obtain p where act: "pool_act fx (PoolStep t) ?p = Some p"
    and r: "r = (if pr_pc p t = A_Idle then batch_returned t (cr_pc ?r t) (pr_res p t) (?r\<lparr>cr_pool := p\<rparr>) else ?r\<lparr>cr_pool := p\<rparr>)"
    by (auto simp: Let_def)
  note pc = sim_refilling [OF inv act]
  show ?thesis
  proof (cases "pr_pc p t = A_Idle")
    case False
    note prog = batch_progress [OF cr_invD(3) [OF sim_invD(1) [OF inv]] act pc(3,7) False]
    show ?thesis
      by (rule sim_update [where t = t, OF inv do _ refl])
        (use False r pc prog sim_step_log [OF inv act] in \<open>simp_all add: particle_def\<close>)
  next
    case True
    with r sim_returned [OF inv do act True] show ?thesis by simp
  qed
qed

lemma sim_mutex_ok:
  assumes inv: "sim_inv B F n P s" and do: "cr_do fx B F (CrMutex m) (sm_run s) = Some r"
  shows "sim_inv B F n P (s\<lparr>sm_run := r\<rparr>)"
proof -
  note i = sim_invD [OF inv]
  from do obtain p where p: "pool_act fx (PoolMutex m) (cr_pool (sm_run s)) = Some p" "r = (sm_run s)\<lparr>cr_pool := p\<rparr>"
    by auto
  then have same: "pr_pc p = pr_pc (cr_pool (sm_run s))" "pr_log p = pr_log (cr_pool (sm_run s))"
    by (auto simp: pool_act_def elim!: with_mutexE split: if_splits)
  have cinv: "cr_inv B F P r" using cr_do_ok [OF i(1) do] cr_invD [OF i(1)] pool_act_inv
    by (auto simp: cr_inv_def pool_moves_def)
  have ainv: "acquire_inv B r" by (rule acquire_inv_step [OF i(1,2) do])
  have "particle (s\<lparr>sm_run := r\<rparr>) t = particle s t" for t by (simp add: particle_def p(2))
  with i cinv ainv same p(2) show ?thesis by (simp add: sim_inv_def particles_ok_def)
qed

lemma sim_do_ok:
  assumes inv: "sim_inv B F n P s" and step: "sim_do fx B F n v a s = Some s'"
  shows "sim_inv B F n P s'"
proof (cases a)
  case (SimAcquire t)
  with step sim_acquire_ok [OF inv, of t fx v] show ?thesis by (auto simp: sim_moves_def dest: cr_act_do split: if_splits)
next
  case (SimUse t w)
  with step sim_use_ok [OF inv, of t fx _ w] show ?thesis
    by (auto simp: sim_moves_def dest: cr_act_do split: sim_pc.splits option.splits)
next
  case (SimRelease t)
  with step sim_release_ok [OF inv, of t _ fx] show ?thesis
    by (auto simp: sim_moves_def dest: cr_act_do split: sim_pc.splits option.splits)
next
  case (SimExit t)
  with step sim_exit_ok [OF inv, of fx t] show ?thesis by (auto simp: sim_moves_def dest: cr_act_do split: if_splits)
next
  case (SimStep t)
  with step sim_step_ok [OF inv, of fx t] show ?thesis by (auto simp: sim_moves_def dest: cr_act_do)
next
  case (SimMutex m)
  with step sim_mutex_ok [OF inv, of fx m] show ?thesis by (auto dest: cr_act_do)
qed

lemma sim_init_inv:
  assumes "2 \<le> F" and "B \<le> F" and "sim_init fx F P s"
  shows "sim_inv B F n P s"
proof -
  from assms(3) have c: "cr_init fx F P (sm_run s)" "sm_pc s = (\<lambda>_. S_Start)" by (simp_all add: sim_init_def)
  then have "cr_pc (sm_run s) = (\<lambda>_. H_Idle)" "cr_caches (sm_run s) = (\<lambda>_. fresh_cache F)" "cr_out (sm_run s) = {}"
    "cr_res (sm_run s) = (\<lambda>_. None)" "pr_log (cr_pool (sm_run s)) = []"
    by (simp_all add: cr_init_def pool_run_init_def)
  with c cr_init_sim [OF assms(1,2) c(1)] fresh_cache_ok [of F] show ?thesis
    by (simp add: sim_inv_def acquire_inv_def log_ok_def particles_ok_def particle_def)
qed

interpretation sim_run: invariant_system "\<lambda>s. 2 \<le> F \<and> B \<le> F \<and> sim_init fx F P s" "sim_step fx B F n v"
  "sim_inv B F n P" for B F :: size_t and fx :: "'k futex" and n :: nat and v :: 'a and P :: pool
  by unfold_locales (auto intro: sim_init_inv sim_do_ok elim: sim_stepE)

lemma sim_reach_inv: "2 \<le> F \<Longrightarrow> B \<le> F \<Longrightarrow> sim_reach fx B F n v P s \<Longrightarrow> sim_inv B F n P s"
  using sim_run.reach_inv [of F B fx P n v s] by simp

section \<open>How many batches the threads take\<close>

lemma log_length:
  assumes "log_ok B n l"
  shows "length l \<le> n"
proof -
  have "length l = card (fst ` set l)" using assms distinct_card [of "map fst l"] by (simp add: log_ok_def)
  also have "\<dots> \<le> card {..<n}" using assms by (intro card_mono) (auto simp: log_ok_def)
  finally show ?thesis by simp
qed

lemma log_complete:
  assumes "log_ok B n l" and "\<forall>t<n. map_of l t \<noteq> None"
  shows "length l = n"
proof -
  have "fst ` set l = {..<n}" using assms by (auto simp: log_ok_def map_of_eq_None_iff)
  then show ?thesis using assms(1) distinct_card [of "map fst l"] by (simp add: log_ok_def)
qed

lemma no_null:
  assumes inv: "sim_inv B F n P s" and room: "n * unat B \<le> length (pool_free P)" and B: "0 < B"
  shows "cr_res (sm_run s) t \<noteq> Some (Returned None)"
proof
  assume res: "cr_res (sm_run s) t = Some (Returned None)"
  note i = sim_invD [OF inv]
  from i(2) res have "took_none B (cr_pool (sm_run s)) t" unfolding acquire_inv_def by (metis option.distinct(1))
  then obtain c where "map_of (pr_log (cr_pool (sm_run s))) t = Some (c, [])" by (auto simp: took_none_def)
  from map_of_split [OF this] obtain later earlier where l: "pr_log (cr_pool (sm_run s)) = later @ (t, c, []) # earlier"
    by blast
  have acq: "\<forall>e\<in>set (later @ (t, c, []) # earlier). acquires B (fst (snd e))"
    using i(5) unfolding l log_ok_def by blast
  from pool_run_invD(5) [OF cr_invD(3) [OF i(1)], unfolded l] replay_taken [OF acq]
  have "[] = take (unat B) (drop (unat B * length earlier) (pool_free P))" by blast
  moreover have "0 < unat B" using B by (simp add: word_less_nat_alt)
  ultimately have "length (pool_free P) \<le> unat B * length earlier" by simp
  moreover have "length earlier < n" using log_length [OF i(5)] l by simp
  then have "unat B * Suc (length earlier) \<le> unat B * n" by (intro mult_le_mono2) simp
  ultimately show False using room \<open>0 < unat B\<close> by (simp add: mult.commute)
qed

lemma joined_free:
  assumes inv: "sim_inv B F n P s" and joined: "sim_joined n s"
  shows "cr_out (sm_run s) = {}" "pool_free (members (cr_pool (sm_run s))) = drop (unat B * n) (pool_free P)"
proof -
  note i = sim_invD [OF inv]
  have pc: "sm_pc s t = S_Done \<or> sm_pc s t = S_Start" for t
    using joined i(4) [of t] unfolding sim_joined_def by (cases "t < n") auto
  have "particle s t = None" for t using pc [of t] by (auto simp: particle_def)
  with i(6) show "cr_out (sm_run s) = {}" by (simp add: particles_ok_def)
  have "\<forall>t<n. map_of (pr_log (cr_pool (sm_run s))) t \<noteq> None"
  proof (intro allI impI)
    fix t assume "t < n"
    with joined i(3) [of t] show "map_of (pr_log (cr_pool (sm_run s))) t \<noteq> None" by (simp add: sim_joined_def)
  qed
  from log_complete [OF i(5) this] have "length (pr_log (cr_pool (sm_run s))) = n" .
  with replay_batches [OF _ pool_run_invD(5) [OF cr_invD(3) [OF i(1)]]] i(5)
  show "pool_free (members (cr_pool (sm_run s))) = drop (unat B * n) (pool_free P)" unfolding log_ok_def by blast
qed

text \<open>The program of the example: 65536 nodes, batches of 1024.\<close>

lemma particle_program:
  assumes P: "pool_new i 65536 = Inr P" and "sim_reach fx 1024 2048 n v P s"
  shows "n \<le> 64 \<Longrightarrow> cr_res (sm_run s) t \<noteq> Some (Returned None)"
    "64 \<le> n \<Longrightarrow> sim_joined n s \<Longrightarrow> pool_free (members (cr_pool (sm_run s))) = []"
proof -
  have inv: "sim_inv 1024 2048 n P s"
    by (rule sim_reach_inv [OF _ _ assms(2)]) (simp_all add: word_le_nat_alt)
  have len: "length (pool_free P) = 65536" by (rule pool_65536 [OF P])
  show "cr_res (sm_run s) t \<noteq> Some (Returned None)" if "n \<le> 64"
  proof (rule no_null [OF inv])
    show "n * unat (1024 :: size_t) \<le> length (pool_free P)" unfolding len using that by simp
  qed simp
  show "64 \<le> n \<Longrightarrow> sim_joined n s \<Longrightarrow> pool_free (members (cr_pool (sm_run s))) = []"
    unfolding joined_free(2) [OF inv] drop_eq_Nil len by simp
qed

section \<open>A run\<close>

fun sim_sched ::
  "'k futex \<Rightarrow> size_t \<Rightarrow> size_t \<Rightarrow> nat \<Rightarrow> 'a \<Rightarrow> 'a sim_action list \<Rightarrow> ('a, 'k) sim_run \<Rightarrow> ('a, 'k) sim_run option" where
  "sim_sched fx B F n v [] s = Some s"
| "sim_sched fx B F n v (a # as) s = (case sim_do fx B F n v a s of None \<Rightarrow> None | Some s' \<Rightarrow> sim_sched fx B F n v as s')"

lemma sim_sched_reach: "sim_reach fx B F n v P s \<Longrightarrow> sim_sched fx B F n v as s = Some s' \<Longrightarrow> sim_reach fx B F n v P s'"
proof (induction as arbitrary: s)
  case (Cons a as)
  from Cons.prems(2) obtain u where u: "sim_do fx B F n v a s = Some u" "sim_sched fx B F n v as u = Some s'"
    by (auto split: option.splits)
  from reach.reach_step [OF Cons.prems(1) sim_step.intros [OF u(1)]] u(2) show ?case by (rule Cons.IH)
qed simp

text \<open>
  Two threads on a pool of four with batches of one; thread 1 tries to lock while thread 0 is
  at the members.
\<close>

definition sim_demo :: "nat sim_action list" where
  "sim_demo =
     [SimAcquire 0, SimStep 0, SimMutex (CasWins 0), SimStep 0, SimAcquire 1, SimStep 1, SimMutex (CasFails 1 1)] @
     [SimStep 0, SimStep 0, SimStep 0, SimStep 0, SimUse 0 8, SimMutex (CasWins 1), SimStep 1, SimRelease 0] @
     [SimStep 1, SimStep 1, SimStep 1, SimStep 1, SimExit 0, SimRelease 1, SimExit 1]"

definition sim_demo_start :: "(nat, nat list) sim_run" where
  "sim_demo_start = \<lparr>sm_run = cr_demo_start, sm_pc = (\<lambda>_. S_Start)\<rparr>"

lemma sim_demo_start_reach: "sim_reach list_futex 1 2 2 7 pool_four sim_demo_start"
proof (rule reach.reach_init)
  have "pool_run_init list_futex pool_four pool_demo_start"
    using pool_four_new by (auto simp: pool_run_init_def mutex_init_def pool_demo_start_def list_futex_def)
  then show "sim_init list_futex 2 pool_four sim_demo_start"
    by (simp add: sim_init_def cr_init_def cr_demo_start_def sim_demo_start_def)
qed

lemma sim_demo_state:
  obtains s :: "(nat, nat list) sim_run" where "sim_reach list_futex 1 2 2 7 pool_four s" "sim_joined 2 s"
proof -
  have "\<exists>s. sim_sched list_futex 1 2 2 7 sim_demo sim_demo_start = Some s \<and> sm_pc s 0 = S_Done \<and> sm_pc s 1 = S_Done"
    by (simp add: sim_demo_def sim_demo_start_def sim_moves_def start_release_def finish_release_def cache_put_def
        cr_eval upt_rec)
  then obtain s where s: "sim_sched list_futex 1 2 2 7 sim_demo sim_demo_start = Some s" "sm_pc s 0 = S_Done" "sm_pc s 1 = S_Done"
    by blast
  then have "sim_joined 2 s" by (auto simp: sim_joined_def less_2_cases_iff)
  with sim_sched_reach [OF sim_demo_start_reach s(1)] show ?thesis by (rule that)
qed

section \<open>Properties\<close>

text \<open>
  C35: The threads of the particle example, interleaved in any way: there is no undefined behaviour,
  and no two of them have the same particle. As long as the pool has a batch for every thread
  (in the example: up to 64 threads), no \<open>acquire\<close> returns null. Every thread takes one batch and keeps
  it: when all have been joined nothing is in use, but the pool has \<open>n\<close> batches less, with 64
  threads none at all.
\<close>

theorem simulate_threads:
  assumes "2 \<le> F" and "B \<le> F" and "0 < B" and "sim_reach fx B F n v P s"
  shows "cr_fault (sm_run s) = None \<and> pr_fault (cr_pool (sm_run s)) = None \<and>
    (\<forall>t a. particle s t = Some a \<longrightarrow>
       pr_heap (cr_pool (sm_run s)) a \<noteq> None \<and> (\<forall>u. u \<noteq> t \<longrightarrow> particle s u \<noteq> Some a)) \<and>
    (n * unat B \<le> length (pool_free P) \<longrightarrow> (\<forall>t. cr_res (sm_run s) t \<noteq> Some (Returned None))) \<and>
    (sim_joined n s \<longrightarrow> cr_out (sm_run s) = {} \<and>
       length (pool_free (members (cr_pool (sm_run s)))) = length (pool_free P) - n * unat B)"
proof -
  note inv = sim_reach_inv [OF assms(1,2,4)] and i = sim_invD [OF sim_reach_inv [OF assms(1,2,4)]]
  note v = cr_invD [OF i(1)] and own = own_invD [OF cr_invD(4) [OF i(1)]]
  have "pr_heap (cr_pool (sm_run s)) a \<noteq> None \<and> (\<forall>u. u \<noteq> t \<longrightarrow> particle s u \<noteq> Some a)"
    if "particle s t = Some a" for t a
  proof -
    have "a \<in> cr_out (sm_run s)" using i(6) that by (auto simp: particles_ok_def)
    then have "a \<in> pr_out (cr_pool (sm_run s))" using places_okD(4) [OF own(4)] by blast
    with pool_run_invD(9) [OF v(3)] i(6) that show ?thesis unfolding particles_ok_def by blast
  qed
  moreover have "cr_out (sm_run s) = {} \<and>
      length (pool_free (members (cr_pool (sm_run s)))) = length (pool_free P) - n * unat B" if "sim_joined n s"
    using joined_free [OF inv that] by (simp add: mult.commute)
  ultimately show ?thesis using own(1) pool_run_invD(2) [OF v(3)] no_null [OF inv _ assms(3)] by blast
qed

theorem simulate_threads_witness:
  "\<exists>s :: (nat, nat list) sim_run. sim_reach list_futex 1 2 2 7 pool_four s \<and> sim_joined 2 s \<and>
     length (pool_free (members (cr_pool (sm_run s)))) = 2"
proof -
  obtain s :: "(nat, nat list) sim_run" where s: "sim_reach list_futex 1 2 2 7 pool_four s" "sim_joined 2 s"
    by (rule sim_demo_state)
  have "length (pool_free pool_four) = 4" using pool_four_inv(2) by simp
  with simulate_threads [OF _ _ _ s(1)] s show ?thesis by (intro exI [of _ s]) simp
qed

end
