(* ===== verification/Spec2Isabelle.thy ===== *)
theory Spec2Isabelle
  imports QuickProgress Audio Logger LockContract CounterProgress MpscProgress Particles
begin

text \<open>
  SyncTools, a header-only C++17 library of synchronisation primitives, as Isabelle/HOL
  definitions with the theorems that make it correct. Paths are relative to src/.

  \<^bold>\<open>The program.\<close> Four classes in include/sync_tools and six small programs in examples.
  \<open>BoundedSPSCQueue\<close> (spsc_queue.hpp) is a ring between one producer and one consumer with
  cached indices; \<open>BoundedMPSCQueue\<close> (mpsc_queue.hpp) is a ring of cells with sequence numbers,
  claimed by compare-and-swap. Both can be stopped and run again. \<open>Mutex\<close> (mutex.hpp) is a
  three-state futex lock with a spinning phase. \<open>ObjectPool\<close> and \<open>ThreadCachedObjectPool\<close>
  (object_pool.hpp) hand out preallocated nodes; the first takes the mutex in every operation,
  the second keeps a cache per thread and calls the batch operations of the first. So
  the pools depend on the mutex, and the queues stand alone.

  \<^bold>\<open>The theories.\<close>

  \<^item> \<open>Prelude\<close>: \<open>size_t\<close> as 64-bit words, results (\<open>Inl\<close> a fault, that is undefined
    behaviour, a failed assertion or an exception; \<open>Inr\<close> a value), ring arithmetic, reachable
    states and the locales \<open>invariant_system\<close> (initial states, steps, a preserved invariant) and
    \<open>stutter_simulation\<close> (each step is a step of another system, or none of it).
  \<^item> \<open>Fairness\<close>: schedules, infinite runs, weak fairness and the visibility of stores, and two
    locales: \<open>wait_free_call\<close> (a bound on the own steps of a call) and \<open>fair_progress\<close> (a
    fair run reaches a goal if in every state some thread helps and a measure goes down).
  \<^item> \<open>Storage\<close>: the \<open>aligned_storage_t\<close> arrays. A slot is raw or holds an object; placement new
    on a live object, and a read or destructor call on a raw slot, are faults.
  \<^item> \<open>QueueSpec\<close>: the abstract bounded FIFO with a stop flag, programs of calls over it, and the
    locale \<open>bounded_queue\<close>: the laws of push, pop, stop, run and of the destructor, and under
    them, once for both queues, that every program of calls has the outcome of the FIFO.
  \<^item> \<open>SpscQueue\<close>, \<open>MpscQueue\<close>: each member function of the queues as a state transformer, and the
    interpretations \<open>sp\<close> and \<open>mp\<close> of \<open>bounded_queue\<close>. A blocking call
    spins, so it is a recursion with fuel in an environment of other threads that act between
    its attempts; \<open>spsc_blocking_push_returns\<close> and \<open>mpsc_blocking_push_returns\<close> show which fuel is enough.
  \<^item> \<open>SpscConcurrent\<close>, \<open>MpscConcurrent\<close>: the same functions one access to shared memory at a time,
    in any interleaving. They show the absence of faults and data races, the simulation of
    the FIFO, and that a call that fails had a reason; \<open>mpsc_memory_typed\<close> has the types of the
    cells and progress inside a call. \<open>spsc_accesses_implement_calls\<close> and \<open>mpsc_rest_refines\<close>
    tie them to the sequential models.
  \<^item> \<open>SpscProgress\<close>, \<open>MpscProgress\<close>: progress of the calls. The \<open>try_\<close> calls of the SPSC queue and
    \<open>try_pop\<close> of the MPSC queue are wait-free, a producer of the MPSC queue that runs alone
    returns with the right result, and \<open>stop()\<close> ends the blocking calls of the SPSC queue in every
    fair run (\<open>spsc_stop_releases\<close>); the destructor of the MPSC queue ends after any interleaving.
  \<^item> \<open>Mutex\<close>: \<open>lock\<close>, \<open>try_lock\<close>, \<open>unlock\<close>, \<open>_lock_slow\<close> and the futex calls, one access or system
    call per step, for any number of threads and a protected object: mutual exclusion, no
    race, no lost wakeup. \<open>MutexProgress\<close>: in every fair run a free mutex that is asked for is
    locked, whatever the clients do. \<open>MutexChecks\<close>: the owner checks of
    checked builds (\<open>_owner\<close>, \<open>_owner_set\<close>, their relaxed loads and assertions) around an
    abstract resource. \<open>CheckedMutex\<close>: both together, as the preprocessor selects them in each
    build, with the ThreadSanitizer hooks of utils/tsan_checks.hpp, and clients that may misuse
    the mutex. Its runs are simulated by runs of each part, so the checks are exact
    about the real holder, and the hook calls are those of a correct mutex.
    \<open>LockContract\<close>: the macros of utils/attributes.hpp, utils/likely.hpp and utils/cpu_relax.hpp,
    and the thread safety attributes of the mutex as a contract on the calls; clients
    that keep it get a mutex in every build, also in the one that checks nothing.
  \<^item> \<open>ObjectPool\<close>: the ring of free nodes, single and batch operations one call at a time (each a
    part on the members and a part on the objects), and the equality of a batch with the loop
    of single operations. \<open>Places\<close>: which moves of nodes between ring, threads and clients keep
    them apart. \<open>PoolConcurrent\<close>: the same operations by any number of threads with the mutex of
    \<open>Mutex\<close>, one access at a time; no fault, no lost node, and linearisation: in the order of
    the stores to the members the calls are calls of a queue of free nodes.
  \<^item> \<open>ThreadCache\<close>: the thread-local caches over any \<open>batch_pool\<close> (a locale, interpreted by
    \<open>global\<close> on \<open>ObjectPool\<close>), any number of threads and of pools of one type: where each node
    is, and which nodes are live. \<open>CacheConcurrent\<close>: the same caches over \<open>PoolConcurrent\<close>, each
    batch call an interleaved sequence of accesses; the pool under them is simulated by the pool
    alone, and the nodes of both levels are put together with the lemmas of \<open>Places\<close>.
  \<^item> Clients, with their output: \<open>QuickStart\<close> (quick_start.cpp) and \<open>Audio\<close> (spsc_queue.cpp) of the
    SPSC queue, over the lemmas of \<open>SpscClient\<close>; \<open>Logger\<close> (mpsc_queue.cpp) of the MPSC queue;
    \<open>MutexExample\<close> (mutex.cpp) of the mutex; \<open>QuickProgress\<close> and \<open>CounterProgress\<close> show that two
    of them end; \<open>PoolExamples\<close> (object_pool.cpp, and
    thread_cached_object_pool.cpp one thread after the other) and \<open>Particles\<close>
    (thread_cached_object_pool.cpp, interleaved) of the pools.

  \<^bold>\<open>Memory model.\<close> In \<open>SpscConcurrent\<close>, \<open>MpscConcurrent\<close>, \<open>MutexChecks\<close> and \<open>CheckedMutex\<close> an atomic variable is the
  list of the values stored in it. A load returns any entry not older than one its thread
  already knows, so it may be stale (with acquire and release ordering, what a loaded entry
  published becomes known); a compare-and-swap that succeeds acts on the last entry, and a weak one may
  fail for no reason. An access to a slot that is not ordered after the last conflicting one is a
  fault. In \<open>Mutex\<close> a read-modify-write acts on the last state and a compare-and-swap that fails
  may see an older one; accesses to the protected data are counted, and one by a thread that
  does not know of all earlier ones is a fault.
  In \<open>PoolConcurrent\<close> the members of a pool are the data of its mutex; the objects are touched
  only by the thread that has their node, as its disjointness lemmas show. A cache is local to its
  thread; \<open>ThreadCache\<close> takes a batch operation of the pool as one step, \<open>CacheConcurrent\<close> does not.

  \<^bold>\<open>Assumptions and bounds.\<close> \<open>size_t\<close> has 64 bits. Template arguments satisfy the static
  assertions (a power of two); what the assertions forget is stated (\<open>mpsc_size_one_overwrites\<close>,
  \<open>tc_parameters_unchecked\<close>). Indices of the SPSC ring wrap at its size and need no bound. Positions of the MPSC queue grow for
  ever and are compared as signed 64-bit numbers; its theorems cover fewer than
  2^63 pushes, which a run at one push per nanosecond reaches after 292 years. The kernel is a parameter
  \<open>fx\<close> of the mutex; \<open>mutex_no_lost_wakeup\<close>, \<open>mutex_fair_progress\<close> and \<open>counter_example_ends\<close>
  assume \<open>futex_laws\<close>, the documented behaviour of futex(2), which \<open>list_futex\<close> (a queue of
  waiters) satisfies; the other mutex theorems hold for every kernel. The theorems on runs assume
  weak fairness (\<open>is_fair\<close>): no thread that can take a step of a call for ever is passed over
  for ever. \<open>spsc_stop_releases\<close> and \<open>quick_start_ends\<close> also assume that what is stored is seen
  after a while (\<open>stores_visible\<close>), as the C++ standard asks of implementations; the mutex needs
  no such assumption, since its exchange acts on the last value. The other progress theorems are
  about the steps that a thread takes itself and assume nothing of the scheduler.
  Constructors of pool objects are a parameter and may throw. Clients of a pool release only what
  they hold. \<open>CacheConcurrent\<close> has one pool of the type and the bounds \<open>2 \<le> F\<close>, \<open>B \<le> F\<close> on
  \<open>CacheFlushThreshold\<close> and \<open>BatchSize\<close>; \<open>ThreadCache\<close> has several pools and shows what goes
  wrong without the bounds. \<open>CheckedMutex\<close> has assertions enabled (no \<open>NDEBUG\<close>). The example programs need no bound: the logger hands out 4000 positions.

  \<^bold>\<open>Not modelled.\<close> What the compiler does with attributes other than those of thread safety
  and with branch hints, which leave the value of the condition alone, and how long a pause takes
  (the number of pauses of the back-off is in \<open>Mutex\<close>); what ThreadSanitizer does with the hook
  calls; the text of the messages of the logger and the floating-point functions of the audio
  loop (a pair of numbers, and parameters); false sharing, cache lines and every other matter of
  speed; the benchmarks and their wrappers around other libraries; tests and the CMake
  configuration. That the logger, the audio loop and the particle program end in fair runs is
  not shown.
\<close>

end
